(* ===== verification/CBase.thy ===== *)
theory CBase
  imports "HOL-Library.Word" "HOL-Library.Char_ord" "HOL-Library.Sublist"
begin

text \<open>
  The prelude of the development: how the C program's values, results and memory objects
  are represented, and the generic lemmas the component theories share.

  \<^item> A C function of the program is a HOL function whose result says how the call ended:
    it returned (\<open>Ret\<close>), it called \<open>exit\<close> (\<open>Exit\<close>), it is still inside a loop or a
    blocking call after every answer the environment has prepared (\<open>Wait\<close>), or it
    left the objects it may access or counted an \<open>int\<close> out of its range (\<open>Fault\<close>, C's undefined
    behaviour).
  \<^item> \<open>int\<close> is 32 bits, \<open>size_t\<close> and \<open>ssize_t\<close> are 64 bits; they are words where the code's
    conversions between them matter.
  \<^item> A \<open>char\<close> array is a list of fixed length; every access goes through \<open>mem_load\<close> and
    \<open>mem_store\<close>, which answer \<open>None\<close> outside the array.
\<close>

named_theorems unix_simps \<open>equations that evaluate the primitive operations of the model\<close>
named_theorems unix_arith \<open>machine integers that are small enough not to wrap\<close>
named_theorems unix_bounds \<open>length and index bounds of memory objects\<close>

type_synonym bytes = "char list"
type_synonym size_t = "64 word"
type_synonym ssize_t = "64 word"
type_synonym c_int = "32 word"

section \<open>How a call ends\<close>

datatype 'a cres = Ret 'a | Exit | Wait | Fault

primrec returned :: "'a cres \<Rightarrow> bool" where
  "returned (Ret _) = True"
| "returned Exit = False"
| "returned Wait = False"
| "returned Fault = False"

lemma returned_iff: "returned r \<longleftrightarrow> (\<exists>a. r = Ret a)"
  by (cases r) auto

text \<open>A computation that changes a state: the state is kept however the call ends.\<close>

type_synonym ('s, 'a) prog = "'s \<Rightarrow> 'a cres \<times> 's"

definition sret :: "'a \<Rightarrow> ('s, 'a) prog" where
  "sret a = (\<lambda>s. (Ret a, s))"

definition sbind :: "('s, 'a) prog \<Rightarrow> ('a \<Rightarrow> ('s, 'b) prog) \<Rightarrow> ('s, 'b) prog" where
  "sbind m f = (\<lambda>s. case m s of
      (Ret a, s') \<Rightarrow> f a s'
    | (Exit, s') \<Rightarrow> (Exit, s')
    | (Wait, s') \<Rightarrow> (Wait, s')
    | (Fault, s') \<Rightarrow> (Fault, s'))"

definition sseq :: "('s, 'a) prog \<Rightarrow> ('s, 'b) prog \<Rightarrow> ('s, 'b) prog" where
  "sseq m n = sbind m (\<lambda>_. n)"

definition sexit :: "('s, 'a) prog" where
  "sexit = (\<lambda>s. (Exit, s))"

definition sfault :: "('s, 'a) prog" where
  "sfault = (\<lambda>s. (Fault, s))"

definition smod :: "('s \<Rightarrow> 's) \<Rightarrow> ('s, unit) prog" where
  "smod f = (\<lambda>s. (Ret (), f s))"

definition sget :: "('s \<Rightarrow> 'a) \<Rightarrow> ('s, 'a) prog" where
  "sget f = (\<lambda>s. (Ret (f s), s))"

lemma sbind_Ret: "m s = (Ret a, s') \<Longrightarrow> sbind m f s = f a s'"
  by (simp add: sbind_def)

lemma sbind_stop:
  "m s = (Exit, s') \<Longrightarrow> sbind m f s = (Exit, s')"
  "m s = (Wait, s') \<Longrightarrow> sbind m f s = (Wait, s')"
  "m s = (Fault, s') \<Longrightarrow> sbind m f s = (Fault, s')"
  by (simp_all add: sbind_def)

lemma prog_eval [unix_simps]:
  "sret a s = (Ret a, s)"
  "sexit s = (Exit, s)"
  "sfault s = (Fault, s)"
  "smod g s = (Ret (), g s)"
  "sget h s = (Ret (h s), s)"
  by (simp_all add: sret_def sexit_def sfault_def smod_def sget_def)

lemma sbind_assoc: "sbind (sbind m f) g = sbind m (\<lambda>a. sbind (f a) g)"
  by (rule ext) (simp add: sbind_def split: prod.split cres.split)

lemma sbind_sret: "sbind (sret a) f = f a"
  by (rule ext) (simp add: sbind_def sret_def)

lemma sseq_Ret: "m s = (Ret a, s') \<Longrightarrow> sseq m n s = n s'"
  by (simp add: sseq_def sbind_def)

section \<open>Arrays of characters\<close>

definition NUL :: char where
  "NUL = CHR 0x00"

definition mem_load :: "bytes \<Rightarrow> int \<Rightarrow> nat \<Rightarrow> bytes option" where
  "mem_load m off n =
     (if 0 \<le> off \<and> nat off + n \<le> length m then Some (take n (drop (nat off) m)) else None)"

definition mem_store :: "bytes \<Rightarrow> int \<Rightarrow> bytes \<Rightarrow> bytes option" where
  "mem_store m off xs =
     (if 0 \<le> off \<and> nat off + length xs \<le> length m
      then Some (take (nat off) m @ xs @ drop (nat off + length xs) m) else None)"

text \<open>The C string at the start of an array: the characters before the first NUL.
  Reading it leaves the array when there is no NUL.\<close>

definition c_string :: "bytes \<Rightarrow> bytes option" where
  "c_string m = (if NUL \<in> set m then Some (takeWhile (\<lambda>c. c \<noteq> NUL) m) else None)"

text \<open>\<open>strcpy\<close>/\<open>sprintf\<close> of a NUL-free text into an array: the text and its NUL.\<close>

definition store_string :: "bytes \<Rightarrow> bytes \<Rightarrow> bytes option" where
  "store_string m txt = mem_store m 0 (txt @ [NUL])"

lemma length_mem_store [unix_bounds]: "mem_store m off xs = Some m' \<Longrightarrow> length m' = length m"
  by (auto simp: mem_store_def split: if_splits)

lemma length_mem_load [unix_bounds]: "mem_load m off n = Some xs \<Longrightarrow> length xs = n"
  by (auto simp: mem_load_def split: if_splits)

lemma mem_store_nat:
  "mem_store m (int k) xs =
     (if k + length xs \<le> length m then Some (take k m @ xs @ drop (k + length xs) m) else None)"
  by (simp add: mem_store_def)

lemma mem_load_nat:
  "mem_load m (int k) n = (if k + n \<le> length m then Some (take n (drop k m)) else None)"
  by (simp add: mem_load_def)

lemma mem_store_append:
  assumes "length pre = k" "length xs \<le> length post"
  shows "mem_store (pre @ post) (int k) xs = Some (pre @ xs @ drop (length xs) post)"
  using assms by (simp add: mem_store_nat)

lemma mem_store_char [unix_simps]:
  "mem_store m (int k) [b] = (if k < length m then Some (m[k := b]) else None)"
  by (simp add: mem_store_nat upd_conv_take_nth_drop Suc_le_eq)

lemma mem_store_char_Suc [unix_simps]:
  "mem_store m (1 + int k) [b] = (if Suc k < length m then Some (m[Suc k := b]) else None)"
  using mem_store_char [of m "Suc k" b] by simp

lemma store_string_fits:
  "length txt < length m \<Longrightarrow>
   store_string m txt = Some (txt @ NUL # drop (Suc (length txt)) m)"
  by (simp add: store_string_def mem_store_def)

lemma c_string_stored:
  "NUL \<notin> set txt \<Longrightarrow> c_string (txt @ NUL # rest) = Some txt"
  by (simp add: c_string_def takeWhile_append)

lemma length_store_string [unix_bounds]: "store_string m t = Some m' \<Longrightarrow> length m' = length m"
  unfolding store_string_def by (rule length_mem_store)

section \<open>Counting down in a machine word\<close>

lemma unat_minus_of_nat [unix_arith]:
  fixes w :: "'a::len word"
  assumes "k \<le> unat w"
  shows "unat (w - of_nat k) = unat w - k"
proof -
  have k: "unat (of_nat k :: 'a word) = k"
    using assms unsigned_less [of w] by (metis unat_of_nat mod_less order_le_less_trans)
  with assms have "(of_nat k :: 'a word) \<le> w"
    by (simp add: word_le_nat_alt)
  with k show ?thesis by (simp add: unat_sub)
qed

lemma word_pos_Suc: "Suc n = unat w \<Longrightarrow> 0 < w"
  by (metis unat_0 nat.distinct(1) word_gt_0)

lemma sint_of_nat_small [unix_arith]:
  "n < 2 ^ 63 \<Longrightarrow> sint (of_nat n :: 64 word) = int n"
  by (simp add: signed_of_nat signed_take_bit_int_eq_self_iff)

lemma unat_of_nat_small [unix_arith]: "n < 2 ^ 63 \<Longrightarrow> unat (of_nat n :: 64 word) = n"
  by (simp add: unat_of_nat)

lemma rd_cnt_ok: "0 < length bs \<Longrightarrow> length bs < 2 ^ 63 \<Longrightarrow> (of_nat (length bs) :: size_t) \<noteq> 0"
  by (metis unat_0 unat_of_nat_small less_numeral_extra(3))

lemma of_nat_pos_word: "0 < n \<Longrightarrow> n < 2 ^ 63 \<Longrightarrow> 0 < (of_nat n :: size_t)"
  by (metis unat_0 unat_of_nat_small less_numeral_extra(3) word_gt_0)

lemma of_nat_less_word: "k < n \<Longrightarrow> n < 2 ^ 63 \<Longrightarrow> (of_nat k :: size_t) < of_nat n"
  by (simp add: word_less_nat_alt unat_of_nat_small)

text \<open>The value an \<open>int\<close> has after an integer is converted to it.\<close>

definition to_int :: "int \<Rightarrow> int" where
  "to_int x = sint (word_of_int x :: 32 word)"

lemma to_int_small [unix_arith]: "- (2 ^ 31) \<le> x \<Longrightarrow> x < 2 ^ 31 \<Longrightarrow> to_int x = x"
  by (simp add: to_int_def signed_of_int signed_take_bit_int_eq_self_iff)

text \<open>\<open>k++\<close> and \<open>k--\<close> on an \<open>int\<close>: leaving the 32 bits is undefined.\<close>

definition INT_MAX :: int where
  "INT_MAX = 2 ^ 31 - 1"

definition INT_MIN :: int where
  "INT_MIN = - (2 ^ 31)"

definition int_inc :: "int \<Rightarrow> ('s, int) prog" where
  "int_inc k = (if k < INT_MAX then sret (k + 1) else sfault)"

definition int_dec :: "int \<Rightarrow> ('s, int) prog" where
  "int_dec k = (if INT_MIN < k then sret (k - 1) else sfault)"

lemma int_step_simps [unix_simps]:
  "k < INT_MAX \<Longrightarrow> int_inc k s = (Ret (k + 1), s)"
  "INT_MIN < k \<Longrightarrow> int_dec k s = (Ret (k - 1), s)"
  by (simp_all add: int_inc_def int_dec_def sret_def)

end
