(* ===== verification/Sysio.thy ===== *)
theory Sysio
  imports CBase
begin

text \<open>
  The byte-stream system calls the program makes: \<open>read\<close>/\<open>recv\<close> and \<open>write\<close>/\<open>send\<close> on one
  descriptor.

  The kernel is outside the program, so its behaviour is an argument: a descriptor carries
  the answers the kernel will give, in order. A reading answer is a chunk of bytes that has
  arrived (delivered in as many calls as the requested sizes need), end of file, or an
  error; a writing answer is the number of bytes the kernel is ready to take, or an error. A
  call made when no answer is left has not come back (\<open>Wait\<close>). Every theorem quantifies over
  the answers, so it holds for every behaviour of the kernel, and a loop that never returns
  is one whose result is \<open>Wait\<close> for every supply of answers of some kind.

  The contract of a reading call and of a sending routine are the locales \<open>byte_source\<close> and
  \<open>sender\<close>; the first is interpreted here on \<open>sys_read\<close>.
\<close>

section \<open>Answers of the kernel\<close>

datatype errno =
  EINTR | EAGAIN | EBADF | ENOENT | EEXIST | E2BIG | EPIPE | ENOTSOCK | ECONNREFUSED | Eother nat

datatype rd = RData bytes | REof | RErr errno
datatype wr = WAccept nat | WErr errno

record conn =
  rd_ans :: "rd list"
  wr_ans :: "wr list"
  wire :: bytes

lemma rd_ans_same [simp]: "rd_ans c = es \<Longrightarrow> c\<lparr>rd_ans := es\<rparr> = c"
  by (cases c) simp

definition sys_read :: "nat \<Rightarrow> (conn, errno + bytes) prog" where
  "sys_read n c = (case rd_ans c of
      [] \<Rightarrow> (Wait, c)
    | RErr e # es \<Rightarrow> (Ret (Inl e), c\<lparr>rd_ans := es\<rparr>)
    | REof # es \<Rightarrow> (Ret (Inr []), c\<lparr>rd_ans := es\<rparr>)
    | RData bs # es \<Rightarrow>
        (if length bs \<le> n then (Ret (Inr bs), c\<lparr>rd_ans := es\<rparr>)
         else (Ret (Inr (take n bs)), c\<lparr>rd_ans := RData (drop n bs) # es\<rparr>)))"

definition sys_send :: "bytes \<Rightarrow> (conn, errno + nat) prog" where
  "sys_send data c = (case wr_ans c of
      [] \<Rightarrow> (Wait, c)
    | WErr e # ws \<Rightarrow> (Ret (Inl e), c\<lparr>wr_ans := ws\<rparr>)
    | WAccept k # ws \<Rightarrow>
        (Ret (Inr (min k (length data))),
         c\<lparr>wr_ans := ws, wire := wire c @ take k data\<rparr>))"

text \<open>Everything that will still arrive, and how many calls the answers can serve.\<close>

fun rd_bytes :: "rd list \<Rightarrow> bytes" where
  "rd_bytes [] = []"
| "rd_bytes (RData bs # es) = bs @ rd_bytes es"
| "rd_bytes (REof # es) = rd_bytes es"
| "rd_bytes (RErr e # es) = rd_bytes es"

fun rd_size :: "rd list \<Rightarrow> nat" where
  "rd_size [] = 0"
| "rd_size (RData bs # es) = Suc (length bs) + rd_size es"
| "rd_size (REof # es) = Suc (rd_size es)"
| "rd_size (RErr e # es) = Suc (rd_size es)"

lemma sys_read_simps [unix_simps]:
  "rd_ans c = [] \<Longrightarrow> sys_read n c = (Wait, c)"
  "rd_ans c = RErr e # es \<Longrightarrow> sys_read n c = (Ret (Inl e), c\<lparr>rd_ans := es\<rparr>)"
  "rd_ans c = REof # es \<Longrightarrow> sys_read n c = (Ret (Inr []), c\<lparr>rd_ans := es\<rparr>)"
  "rd_ans c = RData bs # es \<Longrightarrow> length bs \<le> n \<Longrightarrow>
     sys_read n c = (Ret (Inr bs), c\<lparr>rd_ans := es\<rparr>)"
  "rd_ans c = RData bs # es \<Longrightarrow> n < length bs \<Longrightarrow>
     sys_read n c = (Ret (Inr (take n bs)), c\<lparr>rd_ans := RData (drop n bs) # es\<rparr>)"
  by (simp_all add: sys_read_def)

lemma sys_send_simps [unix_simps]:
  "wr_ans c = [] \<Longrightarrow> sys_send d c = (Wait, c)"
  "wr_ans c = WErr e # ws \<Longrightarrow> sys_send d c = (Ret (Inl e), c\<lparr>wr_ans := ws\<rparr>)"
  "wr_ans c = WAccept k # ws \<Longrightarrow> sys_send d c =
     (Ret (Inr (min k (length d))), c\<lparr>wr_ans := ws, wire := wire c @ take k d\<rparr>)"
  by (simp_all add: sys_send_def)

lemma sys_read_cases:
  assumes "sys_read n c = (r, c')"
  obtains (wait) "r = Wait" "c' = c" "rd_ans c = []"
  | (err) e es where "r = Ret (Inl e)" "rd_ans c = RErr e # es" "c' = c\<lparr>rd_ans := es\<rparr>"
  | (data) bs where "r = Ret (Inr bs)" "length bs \<le> n"
      "rd_bytes (rd_ans c) = bs @ rd_bytes (rd_ans c')"
      "wr_ans c' = wr_ans c" "wire c' = wire c"
  using assms
  by (auto simp: sys_read_def split: list.splits rd.splits if_splits)

lemma sys_read_size:
  assumes "(Ret r, c') = sys_read n c" "r \<noteq> Inr []"
  shows "rd_size (rd_ans c') < rd_size (rd_ans c)"
  using assms by (auto simp: sys_read_def split: list.splits rd.splits if_splits)

lemma sys_send_size: "(Ret r, c') = sys_send d c \<Longrightarrow> length (wr_ans c') < length (wr_ans c)"
  by (auto simp: sys_send_def split: list.splits wr.splits)

section \<open>The contract of a reading call\<close>

text \<open>
  What the program relies on when it reads: an answer is never longer than the request, and
  the bytes that are delivered, followed by what is still to come, are what was to come
  before: nothing is lost, repeated or reordered.
\<close>

locale byte_source =
  fixes src_read :: "nat \<Rightarrow> ('s, errno + bytes) prog"
    and content :: "'s \<Rightarrow> bytes"
  assumes read_le: "src_read n s = (Ret (Inr bs), s') \<Longrightarrow> length bs \<le> n"
    and read_content: "src_read n s = (Ret (Inr bs), s') \<Longrightarrow> content s = bs @ content s'"
    and read_err: "src_read n s = (Ret (Inl e), s') \<Longrightarrow> content s' = content s"
begin

text \<open>Two reads in a row deliver adjacent pieces.\<close>

lemma read_twice:
  assumes "src_read n s = (Ret (Inr xs), s1)" "src_read m s1 = (Ret (Inr ys), s2)"
  shows "content s = xs @ ys @ content s2" "length (xs @ ys) \<le> n + m"
  using read_content [OF assms(1)] read_content [OF assms(2)]
    read_le [OF assms(1)] read_le [OF assms(2)] by auto

text \<open>A failed read between them changes nothing.\<close>

lemma read_retry:
  assumes "src_read n s = (Ret (Inl e), s1)" "src_read n s1 = (Ret (Inr ys), s2)"
  shows "content s = ys @ content s2"
  using read_err [OF assms(1)] read_content [OF assms(2)] by simp

lemma read_prefix: "src_read n s = (Ret (Inr bs), s') \<Longrightarrow> prefix bs (content s)"
  using read_content by (auto simp: prefix_def)

end

interpretation fd: byte_source sys_read "\<lambda>c. rd_bytes (rd_ans c)"
proof
  fix n c bs c'
  assume "sys_read n c = (Ret (Inr bs), c')"
  then show "length bs \<le> n" and "rd_bytes (rd_ans c) = bs @ rd_bytes (rd_ans c')"
    by (auto elim: sys_read_cases)
next
  fix n c e c'
  assume "sys_read n c = (Ret (Inl e), c')"
  then show "rd_bytes (rd_ans c') = rd_bytes (rd_ans c)"
    by (auto elim: sys_read_cases)
qed

section \<open>Reference semantics of a filling loop\<close>

text \<open>
  What a loop that wants \<open>n\<close> bytes gets: chunks are taken in order until \<open>n\<close> bytes are
  there, or an error or end of file stops it; \<open>None\<close> when the answers run out first.
\<close>

fun gather :: "nat \<Rightarrow> rd list \<Rightarrow> (bytes \<times> rd list) option" where
  "gather 0 es = Some ([], es)"
| "gather (Suc n) [] = None"
| "gather (Suc n) (RErr e # es) = Some ([], es)"
| "gather (Suc n) (REof # es) = Some ([], es)"
| "gather (Suc n) (RData bs # es) =
     (if bs = [] then Some ([], es)
      else if length bs \<le> Suc n
        then map_option (\<lambda>(ys, es'). (bs @ ys, es')) (gather (Suc n - length bs) es)
      else Some (take (Suc n) bs, RData (drop (Suc n) bs) # es))"

lemma gather_content:
  "gather n es = Some (bs, es') \<Longrightarrow> length bs \<le> n \<and> rd_bytes es = bs @ rd_bytes es'"
proof (induction n es arbitrary: bs rule: gather.induct)
  case (5 n cs es)
  then show ?case
    by (fastforce split: if_splits)
qed auto

lemma gather_complete:
  assumes "list_all (\<lambda>e. \<exists>bs. e = RData bs \<and> bs \<noteq> []) es" "n \<le> length (rd_bytes es)"
  shows "\<exists>es'. gather n es = Some (take n (rd_bytes es), es')"
  using assms
proof (induction n es rule: gather.induct)
  case (5 n cs es)
  show ?case
  proof (cases "length cs \<le> Suc n")
    case True
    have "Suc n - length cs \<le> length (rd_bytes es)"
      using 5(3) by simp
    then have "\<exists>es'. gather (Suc n - length cs) es =
        Some (take (Suc n - length cs) (rd_bytes es), es')"
      using 5(1,2) True by simp
    with True 5(2) show ?thesis by auto
  qed (use 5(2) in auto)
qed auto

section \<open>Reading character by character\<close>

text \<open>Answers that only deliver bytes, and the answers left after the first \<open>n\<close> bytes.\<close>

definition rd_clean :: "rd list \<Rightarrow> bool" where
  "rd_clean es = list_all (\<lambda>e. case e of RData bs \<Rightarrow> bs \<noteq> [] | _ \<Rightarrow> False) es"

fun rd_skip :: "nat \<Rightarrow> rd list \<Rightarrow> rd list" where
  "rd_skip 0 es = es"
| "rd_skip (Suc n) (RData [b] # es) = rd_skip n es"
| "rd_skip (Suc n) (RData (b # b' # bs) # es) = rd_skip n (RData (b' # bs) # es)"
| "rd_skip (Suc n) es = es"

lemma rd_clean_cases:
  assumes "rd_clean es" "rd_bytes es = b # bs"
  obtains es' where "es = RData [b] # es'"
  | b' xs es' where "es = RData (b # b' # xs) # es'"
proof (cases es)
  case Nil
  with assms(2) show ?thesis by simp
next
  case (Cons e es')
  with assms obtain xs where "e = RData (b # xs)"
    by (cases e) (auto simp: rd_clean_def neq_Nil_conv)
  with Cons that show ?thesis by (cases xs) auto
qed

lemma rd_skip_one:
  assumes "rd_clean es" "rd_bytes es = b # bs"
  shows "rd_clean (rd_skip (Suc 0) es)" "rd_bytes (rd_skip (Suc 0) es) = bs"
  by (rule rd_clean_cases [OF assms]; use assms in \<open>simp add: rd_clean_def\<close>)+

lemma sys_read_char:
  assumes "rd_clean (rd_ans c)" "rd_bytes (rd_ans c) = b # bs"
  shows "sys_read (Suc 0) c = (Ret (Inr [b]), c\<lparr>rd_ans := rd_skip (Suc 0) (rd_ans c)\<rparr>)"
  by (rule rd_clean_cases [OF assms]) (simp_all add: sys_read_def)

lemma rd_skip_Suc:
  assumes "rd_clean es" "rd_bytes es = b # bs"
  shows "rd_skip n (rd_skip (Suc 0) es) = rd_skip (Suc n) es"
  by (rule rd_clean_cases [OF assms]) simp_all

lemma rd_skip_bytes:
  "rd_clean es \<Longrightarrow> n \<le> length (rd_bytes es) \<Longrightarrow>
   rd_clean (rd_skip n es) \<and> rd_bytes (rd_skip n es) = drop n (rd_bytes es)"
proof (induction n arbitrary: es)
  case (Suc n)
  then obtain b bs where b: "rd_bytes es = b # bs" by (cases "rd_bytes es") auto
  with Suc.IH [of "rd_skip (Suc 0) es"] Suc.prems rd_skip_one [OF Suc.prems(1) b]
  show ?case by (simp add: rd_skip_Suc [OF Suc.prems(1) b])
qed simp

lemma rd_skip_add:
  "rd_clean es \<Longrightarrow> m + n \<le> length (rd_bytes es) \<Longrightarrow> rd_skip n (rd_skip m es) = rd_skip (m + n) es"
proof (induction m arbitrary: es)
  case (Suc m)
  then obtain b bs where b: "rd_bytes es = b # bs" by (cases "rd_bytes es") auto
  note one = rd_skip_one [OF Suc.prems(1) b]
  have "rd_skip n (rd_skip m (rd_skip (Suc 0) es)) = rd_skip (m + n) (rd_skip (Suc 0) es)"
    using Suc.IH [OF one(1)] one(2) b Suc.prems(2) by simp
  then show ?case by (simp add: rd_skip_Suc [OF Suc.prems(1) b])
qed simp

section \<open>Reference semantics of a writing loop\<close>

text \<open>
  What the kernel takes of \<open>n\<close> bytes when a loop keeps offering the rest: how many, and why
  the loop ended: everything was taken (\<open>Fed\<close>), the kernel took nothing (\<open>Closed\<close>), an error
  other than \<open>EINTR\<close> came (\<open>Failed\<close>), or no answer was left (\<open>Starved\<close>).
\<close>

datatype fed = Fed | Closed | Failed | Starved

fun feed :: "nat \<Rightarrow> wr list \<Rightarrow> nat \<times> fed \<times> wr list" where
  "feed 0 ws = (0, Fed, ws)"
| "feed (Suc n) [] = (0, Starved, [])"
| "feed (Suc n) (WErr e # ws) = (if e = EINTR then feed (Suc n) ws else (0, Failed, ws))"
| "feed (Suc n) (WAccept k # ws) =
     (if k = 0 then (0, Closed, ws)
      else (case feed (Suc n - min k (Suc n)) ws of
          (j, st, ws') \<Rightarrow> (min k (Suc n) + j, st, ws')))"

definition wr_quiet :: "wr list \<Rightarrow> bool" where
  "wr_quiet ws = list_all (\<lambda>w. \<exists>k. w = WAccept k) ws"

fun wr_room :: "wr list \<Rightarrow> nat" where
  "wr_room [] = 0"
| "wr_room (WAccept k # ws) = k + wr_room ws"
| "wr_room (WErr e # ws) = wr_room ws"

definition feed_result :: "(nat \<Rightarrow> 'r) \<Rightarrow> 'r \<Rightarrow> nat \<Rightarrow> fed \<Rightarrow> 'r cres" where
  "feed_result ok bad k st =
     (case st of Fed \<Rightarrow> Ret (ok k) | Closed \<Rightarrow> Ret (ok k) | Failed \<Rightarrow> Ret bad | Starved \<Rightarrow> Wait)"

lemma feed_le: "feed n ws = (k, st, ws') \<Longrightarrow> k \<le> n \<and> (st = Fed \<longleftrightarrow> k = n)"
proof (induction n ws arbitrary: k rule: feed.induct)
  case (4 n m ws)
  then show ?case
    by (cases "m = 0") (fastforce split: prod.splits simp: min_def)+
qed (auto split: if_splits)

lemma feed_complete:
  assumes "list_all (\<lambda>w. \<exists>k. w = WAccept k \<and> 0 < k) ws" "n \<le> wr_room ws"
  shows "\<exists>ws'. feed n ws = (n, Fed, ws')"
  using assms
proof (induction n ws rule: feed.induct)
  case (4 n k ws)
  then have "\<exists>ws'. feed (Suc n - min k (Suc n)) ws = (Suc n - min k (Suc n), Fed, ws')"
    by auto
  with 4(2) show ?case by (auto simp: min_def)
qed auto

section \<open>The contract of a writing loop\<close>

text \<open>
  \<open>loop buf n p\<close> is the loop's body with \<open>n\<close> bytes to write of which \<open>p\<close> have been taken. Its
  laws are the loop's unfolding equations for each answer of the kernel; they make it the
  reference semantics as long as no error comes (\<open>feeder\<close>), or always, when \<open>EINTR\<close> is retried
  and any other error is returned (\<open>retrying_feeder\<close>).
\<close>

locale feeder =
  fixes loop :: "bytes \<Rightarrow> nat \<Rightarrow> nat \<Rightarrow> (conn, 'r) prog"
    and ok :: "nat \<Rightarrow> 'r"
    and lim :: nat
  assumes loop_done: "n \<le> length buf \<Longrightarrow> length buf < lim \<Longrightarrow> loop buf n n c = (Ret (ok n), c)"
    and loop_starved: "p < n \<Longrightarrow> n \<le> length buf \<Longrightarrow> length buf < lim \<Longrightarrow> wr_ans c = [] \<Longrightarrow>
      loop buf n p c = (Wait, c)"
    and loop_closed: "p < n \<Longrightarrow> n \<le> length buf \<Longrightarrow> length buf < lim \<Longrightarrow>
      wr_ans c = WAccept 0 # ws \<Longrightarrow> loop buf n p c = (Ret (ok p), c\<lparr>wr_ans := ws\<rparr>)"
    and loop_taken: "p < n \<Longrightarrow> n \<le> length buf \<Longrightarrow> length buf < lim \<Longrightarrow>
      wr_ans c = WAccept k # ws \<Longrightarrow> 0 < k \<Longrightarrow> m = min k (n - p) \<Longrightarrow>
      loop buf n p c =
        loop buf n (p + m) (c\<lparr>wr_ans := ws, wire := wire c @ take m (drop p buf)\<rparr>)"
begin

text \<open>The loop against the reference, for answers of a kind \<open>good\<close> that is kept by dropping
  answers and for which the error laws hold.\<close>

lemma loop_feed_general:
  assumes tail: "\<And>w ws. good (w # ws) \<Longrightarrow> good ws"
    and eintr: "\<And>p c ws. p < n \<Longrightarrow> good (WErr EINTR # ws) \<Longrightarrow> wr_ans c = WErr EINTR # ws \<Longrightarrow>
      loop buf n p c = loop buf n p (c\<lparr>wr_ans := ws\<rparr>)"
    and failed: "\<And>p c e ws. p < n \<Longrightarrow> good (WErr e # ws) \<Longrightarrow> e \<noteq> EINTR \<Longrightarrow>
      wr_ans c = WErr e # ws \<Longrightarrow> loop buf n p c = (Ret bad, c\<lparr>wr_ans := ws\<rparr>)"
    and good: "good (wr_ans c)" and n: "n = p + m" "n \<le> length buf" "length buf < lim"
  shows "loop buf n p c = (case feed m (wr_ans c) of (k, st, ws) \<Rightarrow>
    (feed_result (\<lambda>k. ok (p + k)) bad k st,
     c\<lparr>wr_ans := ws, wire := wire c @ take k (drop p buf)\<rparr>))"
  using good n(1)
proof (induction m "wr_ans c" arbitrary: p c rule: feed.induct)
  case (1 ws)
  with n show ?case by (auto simp: loop_done feed_result_def)
next
  case (2 m)
  from 2(1) [symmetric] 2(2,3) n(2,3) show ?case by (simp add: loop_starved feed_result_def)
next
  case (3 m e ws)
  let ?c = "c\<lparr>wr_ans := ws\<rparr>"
  show ?case
  proof (cases "e = EINTR")
    case True
    with 3 have "loop buf n p c = loop buf n p ?c"
      by (intro eintr) auto
    moreover have "good ws" using 3 tail by metis
    ultimately show ?thesis
      using 3(1) [of ?c p] 3(2) [symmetric] 3(4) True by simp
  next
    case False
    with 3 have "loop buf n p c = (Ret bad, ?c)"
      by (intro failed) auto
    with False 3(2) [symmetric] show ?thesis by (simp add: feed_result_def)
  qed
next
  case (4 m k ws)
  show ?case
  proof (cases "k = 0")
    case True
    with 4(2) [symmetric] 4(4) n(2,3) show ?thesis by (simp add: loop_closed feed_result_def)
  next
    case False
    define j where "j = min k (Suc m)"
    let ?c = "c\<lparr>wr_ans := ws, wire := wire c @ take j (drop p buf)\<rparr>"
    have j: "j \<le> Suc m" by (simp add: j_def)
    have "loop buf n p c = loop buf n (p + j) ?c"
      using False 4(2) [symmetric] 4(4) n by (intro loop_taken) (auto simp: j_def)
    moreover obtain x st ws' where f: "feed (Suc m - j) ws = (x, st, ws')"
      by (metis prod_cases3)
    moreover have "good ws" using 4(2,3) tail by metis
    then have "loop buf n (p + j) ?c = (feed_result (\<lambda>k. ok (p + j + k)) bad x st,
        c\<lparr>wr_ans := ws', wire := (wire c @ take j (drop p buf)) @ take x (drop (p + j) buf)\<rparr>)"
      using 4(1) [OF False, of ?c "p + j"] 4(4) j f by (simp flip: j_def)
    moreover have "take (j + x) (drop p buf) = take j (drop p buf) @ take x (drop (p + j) buf)"
      by (simp add: take_add add.commute)
    ultimately show ?thesis
      using False 4(2) [symmetric] by (simp add: feed_result_def add.assoc flip: j_def)
  qed
qed

lemma loop_feed_quiet:
  assumes "wr_quiet (wr_ans c)" "n \<le> length buf" "length buf < lim"
  shows "loop buf n 0 c = (case feed n (wr_ans c) of (k, st, ws) \<Rightarrow>
    (feed_result ok bad k st, c\<lparr>wr_ans := ws, wire := wire c @ take k buf\<rparr>))"
  using loop_feed_general [of wr_quiet n buf bad c 0 n] assms
  by (simp add: wr_quiet_def)

end

locale retrying_feeder = feeder +
  fixes bad :: 'a
  assumes loop_eintr: "p < n \<Longrightarrow> n \<le> length buf \<Longrightarrow> length buf < lim \<Longrightarrow>
      wr_ans c = WErr EINTR # ws \<Longrightarrow> loop buf n p c = loop buf n p (c\<lparr>wr_ans := ws\<rparr>)"
    and loop_failed: "p < n \<Longrightarrow> n \<le> length buf \<Longrightarrow> length buf < lim \<Longrightarrow> e \<noteq> EINTR \<Longrightarrow>
      wr_ans c = WErr e # ws \<Longrightarrow> loop buf n p c = (Ret bad, c\<lparr>wr_ans := ws\<rparr>)"

begin

lemma loop_feed:
  assumes "n \<le> length buf" "length buf < lim"
  shows "loop buf n 0 c = (case feed n (wr_ans c) of (k, st, ws) \<Rightarrow>
    (feed_result ok bad k st, c\<lparr>wr_ans := ws, wire := wire c @ take k buf\<rparr>))"
  using loop_feed_general [of "\<lambda>_. True" n buf bad c 0 n] assms loop_eintr loop_failed
  by simp

text \<open>Safety: whatever the kernel does, the wire is extended by a prefix of the buffer.\<close>

lemma loop_wire_prefix:
  assumes "n \<le> length buf" "length buf < lim" "loop buf n 0 c = (r, c')"
  shows "\<exists>k \<le> n. wire c' = wire c @ take k buf"
  using loop_feed [OF assms(1,2), of c] assms(3) feed_le [of n "wr_ans c"]
  by (cases "feed n (wr_ans c)") auto

text \<open>Liveness: answers that take at least one byte each and \<open>n\<close> in all end the loop with
  everything on the wire.\<close>

lemma loop_completes:
  assumes "n \<le> length buf" "length buf < lim"
    and "list_all (\<lambda>w. \<exists>k. w = WAccept k \<and> 0 < k) (wr_ans c)" "n \<le> wr_room (wr_ans c)"
  shows "\<exists>ws. loop buf n 0 c = (Ret (ok n), c\<lparr>wr_ans := ws, wire := wire c @ take n buf\<rparr>)"
  using loop_feed [OF assms(1,2), of c] feed_complete [OF assms(3,4)]
  by (auto simp: feed_result_def)

end

end
