(* ===== verification/IoLoops.thy ===== *)
theory IoLoops
  imports Sysio
begin

text \<open>
  The byte loops \<open>Read_s\<close> and \<open>Write_s\<close> of inc/common.h, which inc/sock.h repeats word for word,
  and the conversions of system call results that all byte loops of the program share.

  The integer types are the code's: a \<open>size_t\<close> that receives the result \<open>-1\<close> of a system call
  is the largest 64-bit number, so the test \<open>< 0\<close> after it never succeeds. Those dead branches
  are kept in the definitions. A position in a buffer that moves by such a number is a 64-bit
  offset read as signed.
\<close>

section \<open>Results of system calls as size_t\<close>

definition rd_cnt :: "errno + bytes \<Rightarrow> size_t" where
  "rd_cnt r = (case r of Inl _ \<Rightarrow> - 1 | Inr bs \<Rightarrow> of_nat (length bs))"

definition wr_cnt :: "errno + nat \<Rightarrow> size_t" where
  "wr_cnt r = (case r of Inl _ \<Rightarrow> - 1 | Inr k \<Rightarrow> of_nat k)"

definition rd_errno :: "errno + 'a \<Rightarrow> errno option" where
  "rd_errno r = (case r of Inl e \<Rightarrow> Some e | Inr _ \<Rightarrow> None)"

definition rd_data :: "errno + bytes \<Rightarrow> bytes" where
  "rd_data r = (case r of Inl _ \<Rightarrow> [] | Inr bs \<Rightarrow> bs)"

lemma cnt_simps [unix_simps, simp]:
  "rd_cnt (Inl e) = - 1" "rd_cnt (Inr bs) = of_nat (length bs)"
  "wr_cnt (Inl e) = - 1" "wr_cnt (Inr k) = of_nat k"
  "rd_errno (Inl e) = Some e" "rd_errno (Inr x) = None"
  "rd_data (Inl e) = []" "rd_data (Inr bs) = bs"
  by (simp_all add: rd_cnt_def wr_cnt_def rd_errno_def rd_data_def)

lemma rd_cnt_nonzero: "rd_cnt r \<noteq> 0 \<Longrightarrow> r \<noteq> Inr []"
  by (auto simp: rd_cnt_def)

lemma word_nothing_below_0 [simp]: "\<not> (x :: 'a::len word) < 0"
  by (simp add: not_less)

section \<open>Read_s\<close>

function Read_s_loop ::
  "size_t \<Rightarrow> size_t \<Rightarrow> nat \<Rightarrow> bytes \<Rightarrow> (conn, size_t \<times> bytes) prog" where
  "Read_s_loop sz nleft pos buf c =
     (if 0 < nleft then
        (case sys_read (unat nleft) c of
           (Ret r, c') \<Rightarrow>
             (case r of
                Inl e \<Rightarrow> if nleft = 0 then (Ret (- 1, buf), c') else (Ret (sz - nleft, buf), c')
              | Inr bs \<Rightarrow>
                  if length bs = 0 then (Ret (sz - nleft, buf), c')
                  else (case mem_store buf (int pos) bs of
                      None \<Rightarrow> (Fault, c')
                    | Some buf' \<Rightarrow>
                        Read_s_loop sz (nleft - of_nat (length bs)) (pos + length bs) buf' c'))
         | (_, c') \<Rightarrow> (Wait, c'))
      else (Ret (sz - nleft, buf), c))"
  by pat_completeness auto
termination
  by (relation "measure (\<lambda>(sz, nleft, pos, buf, c). rd_size (rd_ans c))")
    (auto dest: sys_read_size)

declare Read_s_loop.simps [simp del]

definition Read_s :: "bytes \<Rightarrow> ssize_t \<Rightarrow> (conn, size_t \<times> bytes) prog" where
  "Read_s buf sz = Read_s_loop sz sz 0 buf"

section \<open>Write_s\<close>

function Write_s_loop ::
  "bytes \<Rightarrow> ssize_t \<Rightarrow> ssize_t \<Rightarrow> size_t \<Rightarrow> (conn, size_t) prog" where
  "Write_s_loop buf sz nleft pos c =
     (if 0 < sint nleft then
        (case mem_load buf (sint pos) (unat nleft) of
           None \<Rightarrow> (Fault, c)
         | Some data \<Rightarrow>
             (case sys_send data c of
                (Ret r, c') \<Rightarrow>
                  (let nwrite = wr_cnt r in
                   if nwrite < 0 then
                     (if nleft = 0 then (Ret (- 1), c') else (Ret (sz - nleft), c'))
                   else if nwrite = 0 then (Ret (sz - nleft), c')
                   else Write_s_loop buf sz (nleft - nwrite) (pos + nwrite) c')
              | (_, c') \<Rightarrow> (Wait, c')))
      else (Ret (sz - nleft), c))"
  by pat_completeness auto
termination
  by (relation "measure (\<lambda>(buf, sz, nleft, pos, c). length (wr_ans c))")
    (auto dest: sys_send_size)

declare Write_s_loop.simps [simp del]

definition Write_s :: "bytes \<Rightarrow> ssize_t \<Rightarrow> (conn, size_t) prog" where
  "Write_s buf sz = Write_s_loop buf sz sz 0"

section \<open>What Read_s does\<close>

lemma Read_s_loop_done: "Read_s_loop sz 0 pos buf c = (Ret (sz, buf), c)"
  by (simp add: Read_s_loop.simps [of sz 0])

lemma Read_s_loop_stop:
  assumes "0 < nleft"
  shows "rd_ans c = [] \<Longrightarrow> Read_s_loop sz nleft pos buf c = (Wait, c)"
    and "rd_ans c = RErr e # es \<Longrightarrow>
      Read_s_loop sz nleft pos buf c = (Ret (sz - nleft, buf), c\<lparr>rd_ans := es\<rparr>)"
    and "rd_ans c = REof # es \<Longrightarrow>
      Read_s_loop sz nleft pos buf c = (Ret (sz - nleft, buf), c\<lparr>rd_ans := es\<rparr>)"
    and "rd_ans c = RData [] # es \<Longrightarrow>
      Read_s_loop sz nleft pos buf c = (Ret (sz - nleft, buf), c\<lparr>rd_ans := es\<rparr>)"
  using assms by (auto simp add: Read_s_loop.simps [of sz nleft] sys_read_def)

lemma Read_s_loop_chunk:
  assumes "0 < nleft" "sys_read (unat nleft) c = (Ret (Inr bs), c')" "bs \<noteq> []"
    and "mem_store buf (int pos) bs = Some buf'"
  shows "Read_s_loop sz nleft pos buf c =
    Read_s_loop sz (nleft - of_nat (length bs)) (pos + length bs) buf' c'"
  using assms by (simp add: Read_s_loop.simps [of sz nleft])

lemma Read_s_loop_gather:
  assumes "pos + unat nleft \<le> length buf"
  shows "Read_s_loop sz nleft pos buf c =
    (case gather (unat nleft) (rd_ans c) of
       None \<Rightarrow> (Wait, c\<lparr>rd_ans := []\<rparr>)
     | Some (bs, es) \<Rightarrow>
         (Ret (sz - nleft + of_nat (length bs), take pos buf @ bs @ drop (pos + length bs) buf),
          c\<lparr>rd_ans := es\<rparr>))"
  using assms
proof (induction "unat nleft" "rd_ans c" arbitrary: nleft pos buf c rule: gather.induct)
  case 1
  then have "nleft = 0" by (metis unat_eq_0)
  then show ?case by (simp add: Read_s_loop_done)
next
  case (5 n bs es)
  have pos: "0 < nleft" using 5(2) by (rule word_pos_Suc)
  let ?k = "min (length bs) (unat nleft)"
  let ?c' = "if length bs \<le> unat nleft then c\<lparr>rd_ans := es\<rparr>
             else c\<lparr>rd_ans := RData (drop (unat nleft) bs) # es\<rparr>"
  let ?xs = "take ?k bs"
  let ?buf = "take pos buf @ ?xs @ drop (pos + ?k) buf"
  let ?nl = "nleft - of_nat ?k"
  have nl: "unat ?nl = unat nleft - ?k" by (simp add: unat_minus_of_nat)
  show ?case
  proof (cases "bs = []")
    case True
    with pos 5(2,3) [symmetric] show ?thesis by (simp add: Read_s_loop_stop)
  next
    case False
    have ne: "?xs \<noteq> []"
      using False 5(2) [symmetric] by simp
    have sr: "sys_read (unat nleft) c = (Ret (Inr ?xs), ?c')"
      using 5(3) [symmetric] by (simp add: sys_read_def)
    have st: "mem_store buf (int pos) ?xs = Some ?buf"
      using "5.prems" by (simp add: mem_store_nat)
    have step: "Read_s_loop sz nleft pos buf c = Read_s_loop sz ?nl (pos + ?k) ?buf ?c'"
      using Read_s_loop_chunk [OF pos sr ne st, of sz] by (simp add: min_def)
    show ?thesis
    proof (cases "length bs \<le> unat nleft")
      case True
      note IH = "5.hyps"(1) [OF False, of ?nl "c\<lparr>rd_ans := es\<rparr>" "pos + ?k" ?buf]
      show ?thesis
        using step IH True False nl 5(2,3) [symmetric] "5.prems"
        by (simp add: split: option.split) (auto simp: algebra_simps)
    next
      case False
      then have "?nl = 0" by simp
      with step False 5(2,3) [symmetric] \<open>bs \<noteq> []\<close> show ?thesis
        by (simp add: Read_s_loop_done min_def)
    qed
  qed
next
  case (2 n)
  from word_pos_Suc [OF 2(1)] 2(1,2) [symmetric] show ?case
    by (simp add: Read_s_loop_stop)
next
  case (3 n e es)
  from word_pos_Suc [OF 3(1)] 3(1,2) [symmetric] show ?case
    by (simp add: Read_s_loop_stop)
next
  case (4 n es)
  from word_pos_Suc [OF 4(1)] 4(1,2) [symmetric] show ?case
    by (simp add: Read_s_loop_stop)
qed

text \<open>
  C33: Read_s is the reference gathering loop: it fills the buffer chunk by chunk up to the
  size, an error or end of file, and returns the number of bytes stored.
\<close>

theorem Read_s_gather:
  assumes "unat sz \<le> length buf"
  shows "Read_s buf sz c =
    (case gather (unat sz) (rd_ans c) of
       None \<Rightarrow> (Wait, c\<lparr>rd_ans := []\<rparr>)
     | Some (bs, es) \<Rightarrow> (Ret (of_nat (length bs), bs @ drop (length bs) buf), c\<lparr>rd_ans := es\<rparr>))"
  using Read_s_loop_gather [of 0 sz buf sz c] assms
  by (simp add: Read_s_def split: option.splits)

theorem Read_s_gather_witness:
  "Read_s ''........'' 5
     \<lparr>rd_ans = [RData ''ab'', RData ''cdef'', REof], wr_ans = [], wire = []\<rparr> =
   (Ret (5, ''abcde...''), \<lparr>rd_ans = [RData ''f'', REof], wr_ans = [], wire = []\<rparr>)"
proof -
  have "gather 5 [RData ''ab'', RData ''cdef'', REof] = Some (''abcde'', [RData ''f'', REof])"
    by code_simp
  then show ?thesis by (subst Read_s_gather) simp_all
qed

section \<open>What Write_s does\<close>

lemma Write_s_step:
  assumes "p < n" "n \<le> length buf" "length buf < 2 ^ 63"
  shows "Write_s_loop buf sz (of_nat (n - p)) (of_nat p) c =
    (case sys_send (take (n - p) (drop p buf)) c of
       (Ret r, c') \<Rightarrow>
         (if wr_cnt r = 0 then (Ret (sz - of_nat (n - p)), c')
          else Write_s_loop buf sz (of_nat (n - p) - wr_cnt r) (of_nat p + wr_cnt r) c')
     | (_, c') \<Rightarrow> (Wait, c'))"
  using assms
  by (simp add: Write_s_loop.simps [of buf sz "of_nat (n - p)"] unix_arith mem_load_nat Let_def
      del: of_nat_diff split: prod.split cres.split)

interpretation write_s: feeder
  "\<lambda>buf n p. Write_s_loop buf (of_nat n) (of_nat (n - p)) (of_nat p)" of_nat "2 ^ 63"
proof
  fix n and buf :: bytes and c :: conn
  assume "n \<le> length buf" "length buf < 2 ^ 63"
  then show "Write_s_loop buf (of_nat n) (of_nat (n - n)) (of_nat n) c = (Ret (of_nat n), c)"
    by (simp add: Write_s_loop.simps [of buf _ 0])
next
  fix p n and buf :: bytes and c :: conn
  assume "p < n" "n \<le> length buf" "length buf < 2 ^ 63" "wr_ans c = []"
  then show "Write_s_loop buf (of_nat n) (of_nat (n - p)) (of_nat p) c = (Wait, c)"
    by (simp add: Write_s_step sys_send_def del: of_nat_diff)
next
  fix p n and buf :: bytes and c :: conn and ws
  assume "p < n" "n \<le> length buf" "length buf < 2 ^ 63" "wr_ans c = WAccept 0 # ws"
  then show "Write_s_loop buf (of_nat n) (of_nat (n - p)) (of_nat p) c =
      (Ret (of_nat p), c\<lparr>wr_ans := ws\<rparr>)"
    by (simp add: Write_s_step sys_send_def del: of_nat_diff) (simp add: of_nat_diff)
next
  fix p n k m and buf :: bytes and c :: conn and ws
  assume h: "p < n" "n \<le> length buf" "length buf < 2 ^ 63" "wr_ans c = WAccept k # ws" "0 < k"
    "m = min k (n - p)"
  have "of_nat m \<noteq> (0 :: 64 word)"
    using h unat_of_nat_small [of m] by (metis unat_0 diff_is_0_eq linorder_not_le min_def
        order_le_less_trans less_imp_diff_less nat_neq_iff zero_less_diff)
  moreover have "of_nat (n - (p + m)) = (of_nat (n - p) - of_nat m :: 64 word)"
    using h by simp
  moreover have "sys_send (take (n - p) (drop p buf)) c =
      (Ret (Inr m), c\<lparr>wr_ans := ws, wire := wire c @ take m (drop p buf)\<rparr>)"
    using h by (auto simp add: sys_send_def min_def)
  ultimately show "Write_s_loop buf (of_nat n) (of_nat (n - p)) (of_nat p) c =
      Write_s_loop buf (of_nat n) (of_nat (n - (p + m))) (of_nat (p + m))
        (c\<lparr>wr_ans := ws, wire := wire c @ take m (drop p buf)\<rparr>)"
    using Write_s_step [OF h(1-3), of "of_nat n" c] by (simp del: of_nat_diff)
qed

theorem Write_s_quiet:
  assumes "n \<le> length buf" "length buf < 2 ^ 63" "wr_quiet (wr_ans c)"
  shows "Write_s buf (of_nat n) c = (case feed n (wr_ans c) of (k, st, ws) \<Rightarrow>
    (feed_result of_nat (- 1) k st, c\<lparr>wr_ans := ws, wire := wire c @ take k buf\<rparr>))"
  using write_s.loop_feed_quiet [OF assms(3,1,2), of "- 1"] by (simp add: Write_s_def)

theorem Write_s_quiet_witness:
  "Write_s ''abcdef'' 5 \<lparr>rd_ans = [], wr_ans = [WAccept 2, WAccept 9], wire = []\<rparr> =
   (Ret 5, \<lparr>rd_ans = [], wr_ans = [], wire = ''abcde''\<rparr>)"
proof -
  have f: "feed 5 [WAccept 2, WAccept 9] = (5, Fed, [])" by code_simp
  from Write_s_quiet [of 5 "''abcdef''" "\<lparr>rd_ans = [], wr_ans = [WAccept 2, WAccept 9], wire = []\<rparr>"]
  show ?thesis by (simp add: wr_quiet_def feed_result_def f)
qed

text \<open>An error in the middle of a message: the position moves back by one and the byte before
  it is put on the wire a second time.\<close>

theorem Write_s_error_repeats:
  assumes "wr_ans c = WAccept k # WErr e # WAccept m # ws" "0 < k" "k < n" "n - k < m"
    and "n \<le> length buf" "length buf < 2 ^ 63"
  shows "Write_s buf (of_nat n) c =
    (Ret (of_nat n),
     c\<lparr>wr_ans := ws, wire := wire c @ take k buf @ drop (k - 1) (take n buf)\<rparr>)"
proof -
  have m: "k - 1 < n" "n - (k - 1) = min m (n - (k - 1))" using assms by linarith+
  let ?c = "c\<lparr>wr_ans := WErr e # WAccept m # ws, wire := wire c @ take k buf\<rparr>"
  have "Write_s buf (of_nat n) c =
      Write_s_loop buf (of_nat n) (of_nat (n - k)) (of_nat k) ?c"
    unfolding Write_s_def
    using write_s.loop_taken [of 0 n buf c k "WErr e # WAccept m # ws" k] assms by simp
  also have "\<dots> = Write_s_loop buf (of_nat n) (of_nat (n - (k - 1))) (of_nat (k - 1))
      (?c\<lparr>wr_ans := WAccept m # ws\<rparr>)"
    using Write_s_step [of k n buf "of_nat n" ?c] assms
    by (simp add: sys_send_def algebra_simps)
  also have "\<dots> = Write_s_loop buf (of_nat n) (of_nat (n - n)) (of_nat n)
      (c\<lparr>wr_ans := ws, wire := wire c @ take k buf @ drop (k - 1) (take n buf)\<rparr>)"
    using write_s.loop_taken [of "k - 1" n buf "?c\<lparr>wr_ans := WAccept m # ws\<rparr>" m ws "n - (k - 1)"]
      m assms by (simp add: drop_take)
  also have "\<dots> = (Ret (of_nat n),
      c\<lparr>wr_ans := ws, wire := wire c @ take k buf @ drop (k - 1) (take n buf)\<rparr>)"
    using assms by (intro write_s.loop_done)
  finally show ?thesis .
qed

theorem Write_s_error_repeats_witness:
  "Write_s ''abcdef'' 5 \<lparr>rd_ans = [], wr_ans = [WAccept 2, WErr EAGAIN, WAccept 9], wire = []\<rparr> =
   (Ret 5, \<lparr>rd_ans = [], wr_ans = [], wire = ''abbcde''\<rparr>)"
  using Write_s_error_repeats [of "\<lparr>rd_ans = [], wr_ans = [WAccept 2, WErr EAGAIN, WAccept 9],
      wire = []\<rparr>" 2 EAGAIN 9 "[]" 5 "''abcdef''"] by simp

text \<open>An error before the first byte: the loop reads in front of its buffer.\<close>

theorem Write_s_first_error_faults:
  assumes "wr_ans c = WErr e # ws" "0 < n" "n \<le> length buf" "length buf < 2 ^ 63 - 1"
  shows "Write_s buf (of_nat n) c = (Fault, c\<lparr>wr_ans := ws\<rparr>)"
proof -
  have "Write_s buf (of_nat n) c =
      Write_s_loop buf (of_nat n) (of_nat n + 1) (- 1) (c\<lparr>wr_ans := ws\<rparr>)"
    unfolding Write_s_def
    using Write_s_step [of 0 n buf "of_nat n" c] assms by (simp add: sys_send_def)
  also have "\<dots> = (Fault, c\<lparr>wr_ans := ws\<rparr>)"
    using assms sint_of_nat_small [of "Suc n"]
    by (simp add: Write_s_loop.simps [of buf _ "1 + of_nat n"] mem_load_def add.commute)
  finally show ?thesis .
qed

end
