(* ===== verification/LineReader.thy ===== *)
theory LineReader
  imports Sysio
begin

text \<open>
  The contract of a function that reads a line from a descriptor one character at a time into
  a buffer, and what follows from it. It is interpreted on \<open>http_Fgets_s\<close> (utils/http_io.c) and
  on \<open>readline\<close> (http_module/http_module.h).
\<close>

definition newline :: char where
  "newline = CHR 0x0A"

section \<open>Answers that deliver characters, followed by others\<close>

lemma sys_read_char_app:
  assumes "rd_ans c = ds @ es" "rd_clean ds" "rd_bytes ds = b # bs"
  shows "sys_read (Suc 0) c = (Ret (Inr [b]), c\<lparr>rd_ans := rd_skip (Suc 0) ds @ es\<rparr>)"
  by (rule rd_clean_cases [OF assms(2,3)]) (simp_all add: sys_read_def assms(1))

lemma rd_clean_all_skipped:
  assumes "rd_clean ds"
  shows "rd_skip (length (rd_bytes ds)) ds = []"
proof -
  have "rd_clean (rd_skip (length (rd_bytes ds)) ds)" "rd_bytes (rd_skip (length (rd_bytes ds)) ds) = []"
    using rd_skip_bytes [OF assms, of "length (rd_bytes ds)"] by simp_all
  then show ?thesis
    by (cases "rd_skip (length (rd_bytes ds)) ds")
      (auto simp: rd_clean_def split: rd.splits)
qed

section \<open>The contract\<close>

text \<open>
  \<open>loop n k ch buf\<close> has stored \<open>k\<close> of at most \<open>n\<close> characters, the last of which is \<open>ch\<close>. It ends
  by storing a NUL behind the \<open>k\<close> characters it has stored and returns \<open>res j k\<close>, where \<open>j\<close>
  counts the characters before the newline.
\<close>

locale line_reader =
  fixes loop :: "nat \<Rightarrow> nat \<Rightarrow> char \<Rightarrow> bytes \<Rightarrow> (conn, 'r \<times> bytes) prog"
    and res :: "nat \<Rightarrow> nat \<Rightarrow> 'r"
  assumes line_end: "n < 2 ^ 63 \<Longrightarrow> loop n n ch buf c =
      (case mem_store buf (int n) [NUL] of None \<Rightarrow> (Fault, c) | Some buf' \<Rightarrow> (Ret (res n n, buf'), c))"
    and line_newline: "k < n \<Longrightarrow> n < 2 ^ 63 \<Longrightarrow> Suc k < length buf \<Longrightarrow>
      sys_read (Suc 0) c = (Ret (Inr [newline]), c') \<Longrightarrow>
      loop n k ch buf c = (Ret (res k (Suc k), buf[k := newline, Suc k := NUL]), c')"
    and line_newline_last: "k < n \<Longrightarrow> n < 2 ^ 63 \<Longrightarrow> length buf = Suc k \<Longrightarrow>
      sys_read (Suc 0) c = (Ret (Inr [newline]), c') \<Longrightarrow> loop n k ch buf c = (Fault, c')"
    and line_char: "k < n \<Longrightarrow> n < 2 ^ 63 \<Longrightarrow> k < length buf \<Longrightarrow>
      sys_read (Suc 0) c = (Ret (Inr [b]), c') \<Longrightarrow> b \<noteq> newline \<Longrightarrow>
      loop n k ch buf c = loop n (Suc k) b (buf[k := b]) c'"
    and line_eof: "k < n \<Longrightarrow> n < 2 ^ 63 \<Longrightarrow> k < length buf \<Longrightarrow>
      sys_read (Suc 0) c = (Ret (Inr []), c') \<Longrightarrow>
      loop n k ch buf c = (Ret (res k k, buf[k := NUL]), c')"
begin

lemma loop_chars:
  assumes "rd_ans c = ds @ es" "rd_clean ds" "m \<le> length (rd_bytes ds)"
    and "newline \<notin> set (take m (rd_bytes ds))"
    and "k + m \<le> n" "n < 2 ^ 63" "k + m \<le> length buf"
  shows "\<exists>ch'. loop n k ch buf c =
    loop n (k + m) ch' (take k buf @ take m (rd_bytes ds) @ drop (k + m) buf)
      (c\<lparr>rd_ans := rd_skip m ds @ es\<rparr>)"
  using assms
proof (induction m arbitrary: k ch buf c ds)
  case (Suc m)
  then obtain b bs where b: "rd_bytes ds = b # bs"
    by (cases "rd_bytes ds") auto
  let ?ds = "rd_skip (Suc 0) ds"
  let ?c = "c\<lparr>rd_ans := ?ds @ es\<rparr>"
  note one = rd_skip_one [OF Suc.prems(2) b]
  have "loop n k ch buf c = loop n (Suc k) b (buf[k := b]) ?c"
    using Suc.prems b by (intro line_char sys_read_char_app) auto
  moreover obtain ch' where "loop n (Suc k) b (buf[k := b]) ?c =
      loop n (Suc k + m) ch' (take (Suc k) (buf[k := b]) @ take m bs @ drop (Suc k + m) (buf[k := b]))
        (?c\<lparr>rd_ans := rd_skip m ?ds @ es\<rparr>)"
    using Suc.IH [of ?c ?ds "Suc k" "buf[k := b]" b] Suc.prems b one by auto
  ultimately show ?case
    using Suc.prems b by (auto simp: rd_skip_Suc [OF Suc.prems(2) b] take_Suc_conv_app_nth)
qed auto

text \<open>A line that ends within the size: the line, its newline and a NUL.\<close>

lemma loop_line:
  assumes "rd_ans c = ds @ es" "rd_clean ds" "rd_bytes ds = line @ newline # rest"
    and "newline \<notin> set line" "length line < n" "n < 2 ^ 63" "length line + 2 \<le> length buf"
  shows "loop n 0 ch buf c =
    (Ret (res (length line) (Suc (length line)), line @ newline # NUL # drop (length line + 2) buf),
     c\<lparr>rd_ans := rd_skip (Suc (length line)) ds @ es\<rparr>)"
proof -
  let ?k = "length line"
  let ?ds = "rd_skip ?k ds"
  let ?c = "c\<lparr>rd_ans := ?ds @ es\<rparr>"
  have sk: "rd_clean ?ds" "rd_bytes ?ds = newline # rest"
    using rd_skip_bytes [OF assms(2), of ?k] assms(3) by simp_all
  obtain ch' where "loop n 0 ch buf c = loop n ?k ch' (line @ drop ?k buf) ?c"
    using loop_chars [of c ds es ?k 0 n buf ch] assms by auto
  also have "\<dots> = (Ret (res ?k (Suc ?k), (line @ drop ?k buf)[?k := newline, Suc ?k := NUL]),
      ?c\<lparr>rd_ans := rd_skip (Suc 0) ?ds @ es\<rparr>)"
    using assms sk sys_read_char_app [of ?c ?ds es newline rest] by (intro line_newline) auto
  also have "rd_skip (Suc 0) ?ds = rd_skip (Suc ?k) ds"
    using rd_skip_add [OF assms(2), of ?k "Suc 0"] assms(3) by simp
  also have "(line @ drop ?k buf)[?k := newline, Suc ?k := NUL] =
      line @ newline # NUL # drop (?k + 2) buf"
  proof -
    obtain x y zs where "drop ?k buf = x # y # zs"
      using assms(7) by (metis Cons_nth_drop_Suc Suc_le_lessD add_2_eq_Suc' add_leD1 le_Suc_eq
          less_Suc_eq_le)
    then show ?thesis
      by (simp add: list_update_append) (metis drop_drop drop0 drop_Suc_Cons add.commute numeral_2_eq_2)
  qed
  finally show ?thesis by simp
qed

text \<open>End of file before a newline: the characters that came and a NUL.\<close>

lemma loop_eof:
  assumes "rd_ans c = ds @ REof # es" "rd_clean ds" "newline \<notin> set (rd_bytes ds)"
    and "length (rd_bytes ds) < n" "n < 2 ^ 63" "length (rd_bytes ds) < length buf"
  shows "loop n 0 ch buf c =
    (Ret (res (length (rd_bytes ds)) (length (rd_bytes ds)),
       rd_bytes ds @ NUL # drop (Suc (length (rd_bytes ds))) buf), c\<lparr>rd_ans := es\<rparr>)"
proof -
  let ?k = "length (rd_bytes ds)"
  obtain ch' where "loop n 0 ch buf c =
      loop n ?k ch' (rd_bytes ds @ drop ?k buf) (c\<lparr>rd_ans := REof # es\<rparr>)"
    using loop_chars [of c ds "REof # es" ?k 0 n buf ch] assms rd_clean_all_skipped [OF assms(2)]
    by auto
  also have "\<dots> = (Ret (res ?k ?k, (rd_bytes ds @ drop ?k buf)[?k := NUL]), c\<lparr>rd_ans := es\<rparr>)"
    using assms line_eof [of ?k n "rd_bytes ds @ drop ?k buf" "c\<lparr>rd_ans := REof # es\<rparr>"]
    by (simp add: sys_read_def)
  also have "(rd_bytes ds @ drop ?k buf)[?k := NUL] = rd_bytes ds @ NUL # drop (Suc ?k) buf"
    using assms(6) by (simp add: upd_conv_take_nth_drop)
  finally show ?thesis .
qed

text \<open>As many characters as the size, and no newline among them: the NUL goes one past them, which
  leaves a buffer of that size.\<close>

lemma loop_full:
  assumes "rd_ans c = ds @ es" "rd_clean ds" "n \<le> length (rd_bytes ds)"
    and "newline \<notin> set (take n (rd_bytes ds))" "n < 2 ^ 63" "length buf = n"
  shows "loop n 0 ch buf c = (Fault, c\<lparr>rd_ans := rd_skip n ds @ es\<rparr>)"
proof -
  obtain ch' where "loop n 0 ch buf c =
      loop n n ch' (take n (rd_bytes ds)) (c\<lparr>rd_ans := rd_skip n ds @ es\<rparr>)"
    using loop_chars [of c ds es n 0 n buf ch] assms by auto
  with assms show ?thesis by (simp add: line_end mem_store_nat)
qed

text \<open>The newline is the last character the buffer holds: the NUL goes one past it as well.\<close>

lemma loop_newline_last:
  assumes "rd_ans c = ds @ es" "rd_clean ds" "rd_bytes ds = line @ newline # rest"
    and "newline \<notin> set line" "length line < n" "n < 2 ^ 63" "length buf = Suc (length line)"
  shows "loop n 0 ch buf c = (Fault, c\<lparr>rd_ans := rd_skip (Suc (length line)) ds @ es\<rparr>)"
proof -
  let ?k = "length line"
  let ?ds = "rd_skip ?k ds"
  let ?c = "c\<lparr>rd_ans := ?ds @ es\<rparr>"
  have sk: "rd_clean ?ds" "rd_bytes ?ds = newline # rest"
    using rd_skip_bytes [OF assms(2), of ?k] assms(3) by simp_all
  obtain ch' where "loop n 0 ch buf c = loop n ?k ch' (line @ drop ?k buf) ?c"
    using loop_chars [of c ds es ?k 0 n buf ch] assms by auto
  also have "\<dots> = (Fault, ?c\<lparr>rd_ans := rd_skip (Suc 0) ?ds @ es\<rparr>)"
    using assms sk sys_read_char_app [of ?c ?ds es newline rest] by (intro line_newline_last) auto
  also have "rd_skip (Suc 0) ?ds = rd_skip (Suc ?k) ds"
    using rd_skip_add [OF assms(2), of ?k "Suc 0"] assms(3) by simp
  finally show ?thesis by simp
qed

text \<open>A line and its newline of at least the size: the buffer of that size is overrun, and what has
  been read is the size.\<close>

lemma loop_overruns:
  assumes "rd_ans c = ds @ es" "rd_clean ds" "rd_bytes ds = line @ newline # rest"
    and "newline \<notin> set line" "n \<le> Suc (length line)" "0 < n" "n < 2 ^ 63" "length buf = n"
  shows "loop n 0 ch buf c = (Fault, c\<lparr>rd_ans := rd_skip n ds @ es\<rparr>)"
proof (cases "n = Suc (length line)")
  case True
  with loop_newline_last [OF assms(1-4)] assms(7,8) show ?thesis by simp
next
  case False
  with assms show ?thesis
    by (intro loop_full [OF assms(1,2)]) (auto dest: in_set_takeD)
qed

end

end
