(* ===== verification/HttpWire.thy ===== *)
theory HttpWire
  imports IoLoops LineReader
begin

text \<open>
  The socket helpers of http_module/http_module.h: \<open>http_send\<close>, \<open>http_rcv\<close> and \<open>readline\<close>,
  with the contract \<open>sender\<close> of a routine that puts a message on the wire, interpreted on
  \<open>http_send\<close> and on a bare \<open>send\<close>.
\<close>

section \<open>http_send\<close>

function http_send_loop :: "bytes \<Rightarrow> int \<Rightarrow> nat \<Rightarrow> (conn, int) prog" where
  "http_send_loop buf nleft cur_ptr c =
     (if 0 < nleft then
        (case mem_load buf (int cur_ptr) (nat nleft) of
           None \<Rightarrow> (Fault, c)
         | Some data \<Rightarrow>
             (case sys_send data c of
                (Ret (Inl e), c') \<Rightarrow>
                  (if e = EINTR then http_send_loop buf nleft cur_ptr c' else (Ret (- 1), c'))
              | (Ret (Inr nsend), c') \<Rightarrow>
                  (if nsend = 0 then (Ret (int cur_ptr), c')
                   else http_send_loop buf (nleft - int nsend) (cur_ptr + nsend) c')
              | (_, c') \<Rightarrow> (Wait, c')))
      else (Ret (int cur_ptr), c))"
  by pat_completeness auto
termination
  by (relation "measure (\<lambda>(buf, nleft, cur_ptr, c). length (wr_ans c))")
    (auto dest: sys_send_size)

declare http_send_loop.simps [simp del]

definition http_send :: "bytes \<Rightarrow> nat \<Rightarrow> (conn, int) prog" where
  "http_send buf len = http_send_loop buf (to_int (int len)) 0"

text \<open>\<open>send(sockfd, buf, len, 0)\<close> called directly, as \<open>error_method\<close> does.\<close>

definition raw_send :: "bytes \<Rightarrow> nat \<Rightarrow> (conn, int) prog" where
  "raw_send buf len c = (case mem_load buf 0 len of
      None \<Rightarrow> (Fault, c)
    | Some data \<Rightarrow>
        (case sys_send data c of
           (Ret (Inl e), c') \<Rightarrow> (Ret (- 1), c')
         | (Ret (Inr k), c') \<Rightarrow> (Ret (int k), c')
         | (_, c') \<Rightarrow> (Wait, c')))"

section \<open>http_rcv\<close>

text \<open>
  In \<open>if((nread=recv(fd,cur_ptr,nleft,0)<0))\<close> the comparison binds tighter than the assignment:
  \<open>nread\<close> is 1 when \<open>recv\<close> failed and 0 when it did not, and the last branch is dead.
\<close>

definition c_bool :: "bool \<Rightarrow> int" where
  "c_bool b = (if b then 1 else 0)"

definition c_true :: "int \<Rightarrow> bool" where
  "c_true x = (x \<noteq> 0)"

function http_rcv_loop :: "int \<Rightarrow> nat \<Rightarrow> bytes \<Rightarrow> (conn, int \<times> bytes) prog" where
  "http_rcv_loop nleft cur_ptr buf c =
     (if 0 < nleft then
        (case sys_read (nat nleft) c of
           (Ret r, c') \<Rightarrow>
             (case mem_store buf (int cur_ptr) (rd_data r) of
                None \<Rightarrow> (Fault, c')
              | Some buf' \<Rightarrow>
                  (let nread = c_bool (rd_errno r \<noteq> None)
                   in if c_true nread then
                        (if rd_errno r = Some EINTR then http_rcv_loop nleft cur_ptr buf' c'
                         else (Ret (- 1, buf'), c'))
                      else if nread = 0 then (Ret (int cur_ptr, buf'), c')
                      else http_rcv_loop (nleft - nread) (cur_ptr + nat nread) buf' c'))
         | (_, c') \<Rightarrow> (Wait, c'))
      else (Ret (int cur_ptr, buf), c))"
  by pat_completeness auto
termination
  by (relation "measure (\<lambda>(nleft, cur_ptr, buf, c). rd_size (rd_ans c))")
    (auto dest: sys_read_size simp: c_bool_def rd_errno_def split: if_splits sum.splits)

declare http_rcv_loop.simps [simp del]

definition http_rcv :: "bytes \<Rightarrow> nat \<Rightarrow> (conn, int \<times> bytes) prog" where
  "http_rcv buf len = http_rcv_loop (to_int (int len)) 0 buf"

section \<open>readline\<close>

definition readline_end :: "size_t \<Rightarrow> nat \<Rightarrow> bytes \<Rightarrow> (conn, ssize_t \<times> bytes) prog" where
  "readline_end i cur_ptr buf c = (case mem_store buf (int cur_ptr) [NUL] of
      None \<Rightarrow> (Fault, c)
    | Some buf' \<Rightarrow> (Ret (i - 1, buf'), c))"

function readline_loop ::
  "size_t \<Rightarrow> size_t \<Rightarrow> nat \<Rightarrow> bytes \<Rightarrow> (conn, ssize_t \<times> bytes) prog" where
  "readline_loop maxlen i cur_ptr buf c =
     (if i < maxlen then
        (case sys_read 1 c of
           (Ret r, c') \<Rightarrow>
             (let read_cnt = rd_cnt r in
              if read_cnt = 1 then
                (case mem_store buf (int cur_ptr) (rd_data r) of
                   None \<Rightarrow> (Fault, c')
                 | Some buf' \<Rightarrow>
                     if rd_data r = [newline] then readline_end i (cur_ptr + 1) buf' c'
                     else readline_loop maxlen (i + 1) (cur_ptr + 1) buf' c')
              else if read_cnt = 0 then
                (case mem_store buf (int cur_ptr) [NUL] of
                   None \<Rightarrow> (Fault, c')
                 | Some buf' \<Rightarrow> readline_end i cur_ptr buf' c')
              else if rd_errno r = Some EINTR then readline_loop maxlen (i + 1) cur_ptr buf c'
              else (Ret (- 1, buf), c'))
         | (_, c') \<Rightarrow> (Wait, c'))
      else readline_end i cur_ptr buf c)"
  by pat_completeness auto
termination
  by (relation "measure (\<lambda>(maxlen, i, cur_ptr, buf, c). rd_size (rd_ans c))")
    (auto dest!: rd_cnt_nonzero dest: sys_read_size split: if_splits)

declare readline_loop.simps [simp del]

definition readline :: "bytes \<Rightarrow> size_t \<Rightarrow> (conn, ssize_t \<times> bytes) prog" where
  "readline buf maxlen = readline_loop maxlen 0 0 buf"

section \<open>What http_send does\<close>

lemma http_send_step:
  assumes "p < n" "n \<le> length buf" "length buf < 2 ^ 31"
  shows "http_send_loop buf (int (n - p)) p c =
    (case sys_send (take (n - p) (drop p buf)) c of
       (Ret (Inl e), c') \<Rightarrow>
         (if e = EINTR then http_send_loop buf (int (n - p)) p c' else (Ret (- 1), c'))
     | (Ret (Inr k), c') \<Rightarrow>
         (if k = 0 then (Ret (int p), c')
          else http_send_loop buf (int (n - p) - int k) (p + k) c')
     | (_, c') \<Rightarrow> (Wait, c'))"
  using assms
  by (simp add: http_send_loop.simps [of buf "int (n - p)"] mem_load_nat
      del: of_nat_diff split: prod.split cres.split sum.split)

interpretation hsend: retrying_feeder
  "\<lambda>buf n p. http_send_loop buf (int (n - p)) p" int "2 ^ 31" "- 1"
proof
  fix n and buf :: bytes and c :: conn
  assume "n \<le> length buf" "length buf < 2 ^ 31"
  then show "http_send_loop buf (int (n - n)) n c = (Ret (int n), c)"
    by (simp add: http_send_loop.simps [of buf 0])
next
  fix p n k m and buf :: bytes and c :: conn and ws
  assume h: "p < n" "n \<le> length buf" "length buf < 2 ^ 31" "wr_ans c = WAccept k # ws" "0 < k"
    "m = min k (n - p)"
  have "sys_send (take (n - p) (drop p buf)) c =
      (Ret (Inr m), c\<lparr>wr_ans := ws, wire := wire c @ take m (drop p buf)\<rparr>)"
    using h by (auto simp add: sys_send_def min_def)
  moreover have "int (n - p) - int m = int (n - (p + m))" "m \<noteq> 0"
    using h by auto
  ultimately show "http_send_loop buf (int (n - p)) p c =
      http_send_loop buf (int (n - (p + m))) (p + m)
        (c\<lparr>wr_ans := ws, wire := wire c @ take m (drop p buf)\<rparr>)"
    using http_send_step [OF h(1-3), of c] by (simp del: of_nat_diff)
qed (simp_all add: http_send_step sys_send_def del: of_nat_diff)

lemma http_send_eq_feed:
  assumes "n \<le> length buf" "length buf < 2 ^ 31"
  shows "http_send buf n c = (case feed n (wr_ans c) of (k, st, ws) \<Rightarrow>
    (feed_result int (- 1) k st, c\<lparr>wr_ans := ws, wire := wire c @ take k buf\<rparr>))"
  using hsend.loop_feed [OF assms, of c] assms by (simp add: http_send_def unix_arith)

text \<open>
  C8: http_send is the reference feeding loop for every sequence of kernel answers: EINTR is
  retried, a short write is continued, another error gives -1, and the bytes on the wire are
  the prefix that was taken.
\<close>

theorem http_send_feed:
  assumes "n \<le> length buf" "length buf < 2 ^ 31"
  shows "http_send buf n c = (case feed n (wr_ans c) of (k, st, ws) \<Rightarrow>
    (feed_result int (- 1) k st, c\<lparr>wr_ans := ws, wire := wire c @ take k buf\<rparr>))"
  by (rule http_send_eq_feed) (fact assms)+

theorem http_send_feed_witness:
  "http_send ''abcdef'' 5 \<lparr>rd_ans = [], wr_ans = [WAccept 2, WErr EINTR, WAccept 9], wire = ''>''\<rparr> =
   (Ret 5, \<lparr>rd_ans = [], wr_ans = [], wire = ''>abcde''\<rparr>)"
proof -
  have f: "feed 5 [WAccept 2, WErr EINTR, WAccept 9] = (5, Fed, [])" by code_simp
  from http_send_feed [of 5 "''abcdef''"
      "\<lparr>rd_ans = [], wr_ans = [WAccept 2, WErr EINTR, WAccept 9], wire = ''>''\<rparr>"]
  show ?thesis by (simp add: feed_result_def f)
qed

section \<open>The contract of a sender\<close>

text \<open>
  What the response pages rely on: a call puts a prefix of what it is given on the wire and
  touches nothing else (\<open>sender\<close>), and all of it when the kernel is ready for it
  (\<open>full_sender\<close>).
\<close>

locale sender =
  fixes snd_buf :: "bytes \<Rightarrow> nat \<Rightarrow> (conn, int) prog"
  assumes send_prefix: "n \<le> length buf \<Longrightarrow> length buf < 2 ^ 31 \<Longrightarrow> snd_buf buf n c = (r, c') \<Longrightarrow>
      \<exists>k \<le> n. wire c' = wire c @ take k buf \<and> rd_ans c' = rd_ans c"
    and send_safe: "n \<le> length buf \<Longrightarrow> length buf < 2 ^ 31 \<Longrightarrow> snd_buf buf n c = (r, c') \<Longrightarrow>
      r = Wait \<or> (\<exists>j. r = Ret j)"

locale full_sender = sender +
  fixes ready :: "nat \<Rightarrow> conn \<Rightarrow> bool"
  assumes send_full: "ready (n + m) c \<Longrightarrow> 0 < n \<Longrightarrow> n \<le> length buf \<Longrightarrow> length buf \<le> 1024 \<Longrightarrow>
      \<exists>c'. snd_buf buf n c = (Ret (int n), c') \<and> wire c' = wire c @ take n buf
        \<and> rd_ans c' = rd_ans c \<and> ready m c'"

text \<open>A kernel that takes at least \<open>q\<close> bytes of every send, for at least \<open>n\<close> sends.\<close>

definition kernel_takes :: "nat \<Rightarrow> nat \<Rightarrow> conn \<Rightarrow> bool" where
  "kernel_takes q n c \<longleftrightarrow>
     n \<le> length (wr_ans c) \<and> list_all (\<lambda>w. case w of WAccept k \<Rightarrow> q \<le> k | WErr _ \<Rightarrow> False) (wr_ans c)"

lemma feed_positive:
  assumes "list_all (\<lambda>w. case w of WAccept k \<Rightarrow> Suc 0 \<le> k | WErr _ \<Rightarrow> False) ws"
    and "n \<le> length ws"
  shows "\<exists>j \<le> n. feed n ws = (n, Fed, drop j ws)"
  using assms
proof (induction n ws rule: feed.induct)
  case (4 n k ws)
  then have "Suc n - min k (Suc n) \<le> length ws" by (simp add: min_def) linarith
  with 4 obtain j where "j \<le> Suc n - min k (Suc n)"
      "feed (Suc n - min k (Suc n)) ws = (Suc n - min k (Suc n), Fed, drop j ws)"
    by auto
  with 4(2) show ?case
    by (intro exI [of _ "Suc j"]) (auto simp: min_def split: if_splits)
qed auto

interpretation http_send: full_sender http_send "kernel_takes 1"
proof
  fix n r and buf :: bytes and c c' :: conn
  assume h: "n \<le> length buf" "length buf < 2 ^ 31" "http_send buf n c = (r, c')"
  obtain k st ws where f: "feed n (wr_ans c) = (k, st, ws)" by (metis prod_cases3)
  with h http_send_eq_feed [OF h(1,2), of c] feed_le [OF f]
  show "\<exists>k \<le> n. wire c' = wire c @ take k buf \<and> rd_ans c' = rd_ans c"
    and "r = Wait \<or> (\<exists>j. r = Ret j)"
    by (auto simp: feed_result_def split: fed.splits)
next
  fix n m and buf :: bytes and c :: conn
  assume h: "kernel_takes 1 (n + m) c" "n \<le> length buf" "length buf \<le> 1024"
  then obtain j where "j \<le> n" "feed n (wr_ans c) = (n, Fed, drop j (wr_ans c))"
    using feed_positive [of "wr_ans c" n] by (auto simp: kernel_takes_def)
  with h http_send_eq_feed [of n buf c]
  show "\<exists>c'. http_send buf n c = (Ret (int n), c') \<and> wire c' = wire c @ take n buf
        \<and> rd_ans c' = rd_ans c \<and> kernel_takes 1 m c'"
    by (auto simp: feed_result_def kernel_takes_def list_all_iff dest: in_set_dropD)
qed

interpretation raw_send: full_sender raw_send "kernel_takes 1024"
proof
  fix n r and buf :: bytes and c c' :: conn
  assume h: "n \<le> length buf" "raw_send buf n c = (r, c')"
  then show "\<exists>k \<le> n. wire c' = wire c @ take k buf \<and> rd_ans c' = rd_ans c"
    by (auto simp: raw_send_def mem_load_def sys_send_def split: list.splits wr.splits
        intro: exI [of _ 0] exI [of _ "min _ n"])
  from h show "r = Wait \<or> (\<exists>j. r = Ret j)"
    by (auto simp: raw_send_def mem_load_def sys_send_def split: list.splits wr.splits)
next
  fix n m and buf :: bytes and c :: conn
  assume "kernel_takes 1024 (n + m) c" "0 < n" "n \<le> length buf" "length buf \<le> 1024"
  moreover from this obtain k ws where "wr_ans c = WAccept k # ws" "1024 \<le> k"
    by (cases "wr_ans c") (auto simp: kernel_takes_def split: wr.splits)
  ultimately show "\<exists>c'. raw_send buf n c = (Ret (int n), c') \<and> wire c' = wire c @ take n buf
        \<and> rd_ans c' = rd_ans c \<and> kernel_takes 1024 m c'"
    by (auto simp: raw_send_def mem_load_def sys_send_def kernel_takes_def)
qed

section \<open>What http_rcv does\<close>

text \<open>
  Interrupted calls are repeated; the first other answer ends the loop, with \<open>-1\<close> for an error
  and with 0 for end of file and for data alike.
\<close>

lemma http_rcv_eq:
  assumes "0 < n" "n < 2 ^ 31" "n \<le> length buf"
  shows "http_rcv buf n c =
    (case dropWhile (\<lambda>a. a = RErr EINTR) (rd_ans c) of
       [] \<Rightarrow> (Wait, c\<lparr>rd_ans := []\<rparr>)
     | RErr e # es \<Rightarrow> (Ret (- 1, buf), c\<lparr>rd_ans := es\<rparr>)
     | REof # es \<Rightarrow> (Ret (0, buf), c\<lparr>rd_ans := es\<rparr>)
     | RData bs # es \<Rightarrow>
         (Ret (0, take n bs @ drop (min n (length bs)) buf),
          c\<lparr>rd_ans := (if length bs \<le> n then es else RData (drop n bs) # es)\<rparr>))"
proof -
  have "http_rcv_loop (int n) 0 buf c =
    (case dropWhile (\<lambda>a. a = RErr EINTR) (rd_ans c) of
       [] \<Rightarrow> (Wait, c\<lparr>rd_ans := []\<rparr>)
     | RErr e # es \<Rightarrow> (Ret (- 1, buf), c\<lparr>rd_ans := es\<rparr>)
     | REof # es \<Rightarrow> (Ret (0, buf), c\<lparr>rd_ans := es\<rparr>)
     | RData bs # es \<Rightarrow>
         (Ret (0, take n bs @ drop (min n (length bs)) buf),
          c\<lparr>rd_ans := (if length bs \<le> n then es else RData (drop n bs) # es)\<rparr>))"
  proof (induction "rd_ans c" arbitrary: c)
    case Nil
    with assms show ?case
      by (simp add: http_rcv_loop.simps [of "int n"] sys_read_def)
  next
    case (Cons a es)
    show ?case
    proof (cases a)
      case (RErr e)
      with Cons(1) [of "c\<lparr>rd_ans := es\<rparr>"] Cons(2) [symmetric] assms show ?thesis
        by (simp add: http_rcv_loop.simps [of "int n" 0 _ c] sys_read_def c_bool_def c_true_def
            mem_store_def cong: list.case_cong rd.case_cong)
    qed (use Cons(2) [symmetric] assms in \<open>simp_all add: http_rcv_loop.simps [of "int n" 0 _ c]
        sys_read_def c_bool_def c_true_def mem_store_def min_def\<close>)
  qed
  with assms show ?thesis by (simp add: http_rcv_def unix_arith)
qed

theorem http_rcv_outcome:
  assumes "0 < n" "n < 2 ^ 31" "n \<le> length buf"
  shows "http_rcv buf n c =
    (case dropWhile (\<lambda>a. a = RErr EINTR) (rd_ans c) of
       [] \<Rightarrow> (Wait, c\<lparr>rd_ans := []\<rparr>)
     | RErr e # es \<Rightarrow> (Ret (- 1, buf), c\<lparr>rd_ans := es\<rparr>)
     | REof # es \<Rightarrow> (Ret (0, buf), c\<lparr>rd_ans := es\<rparr>)
     | RData bs # es \<Rightarrow>
         (Ret (0, take n bs @ drop (min n (length bs)) buf),
          c\<lparr>rd_ans := (if length bs \<le> n then es else RData (drop n bs) # es)\<rparr>))"
  by (rule http_rcv_eq) (fact assms)+

theorem http_rcv_outcome_witness:
  "http_rcv ''....'' 3 \<lparr>rd_ans = [RErr EINTR, RData ''ab'', RData ''cd''], wr_ans = [], wire = []\<rparr> =
   (Ret (0, ''ab..''), \<lparr>rd_ans = [RData ''cd''], wr_ans = [], wire = []\<rparr>)"
  using http_rcv_outcome [of 3 "''....''"
      "\<lparr>rd_ans = [RErr EINTR, RData ''ab'', RData ''cd''], wr_ans = [], wire = []\<rparr>"] by simp

section \<open>What readline does\<close>

interpretation readline: line_reader
  "\<lambda>n k ch. readline_loop (of_nat n) (of_nat k) k" "\<lambda>j k. of_nat j - 1 :: ssize_t"
proof
  fix n :: nat and ch and buf :: bytes and c :: conn
  show "readline_loop (of_nat n) (of_nat n) n buf c = (case mem_store buf (int n) [NUL] of
      None \<Rightarrow> (Fault, c) | Some buf' \<Rightarrow> (Ret (of_nat n - 1, buf'), c))"
    by (simp add: readline_loop.simps [of "of_nat n"] readline_end_def)
next
  fix k n :: nat and ch and buf :: bytes and c c' :: conn
  assume "k < n" "n < 2 ^ 63" "Suc k < length buf" "sys_read (Suc 0) c = (Ret (Inr [newline]), c')"
  then show "readline_loop (of_nat n) (of_nat k) k buf c =
      (Ret (of_nat k - 1, buf[k := newline, Suc k := NUL]), c')"
    using of_nat_less_word [of k n]
    by (simp add: readline_loop.simps [of "of_nat n"] readline_end_def unix_simps Let_def)
next
  fix k n :: nat and ch and buf :: bytes and c c' :: conn
  assume "k < n" "n < 2 ^ 63" "length buf = Suc k" "sys_read (Suc 0) c = (Ret (Inr [newline]), c')"
  then show "readline_loop (of_nat n) (of_nat k) k buf c = (Fault, c')"
    using of_nat_less_word [of k n] mem_store_nat [of "buf[k := newline]" "Suc k" "[NUL]"]
    by (simp add: readline_loop.simps [of "of_nat n"] readline_end_def unix_simps Let_def add.commute)
next
  fix k n :: nat and ch b and buf :: bytes and c c' :: conn
  assume "k < n" "n < 2 ^ 63" "k < length buf" "sys_read (Suc 0) c = (Ret (Inr [b]), c')" "b \<noteq> newline"
  then show "readline_loop (of_nat n) (of_nat k) k buf c =
      readline_loop (of_nat n) (of_nat (Suc k)) (Suc k) (buf[k := b]) c'"
    using of_nat_less_word [of k n]
    by (simp add: readline_loop.simps [of "of_nat n" "of_nat k"] unix_simps Let_def add.commute)
next
  fix k n :: nat and ch and buf :: bytes and c c' :: conn
  assume "k < n" "n < 2 ^ 63" "k < length buf" "sys_read (Suc 0) c = (Ret (Inr []), c')"
  then show "readline_loop (of_nat n) (of_nat k) k buf c = (Ret (of_nat k - 1, buf[k := NUL]), c')"
    using of_nat_less_word [of k n]
    by (simp add: readline_loop.simps [of "of_nat n"] readline_end_def unix_simps Let_def)
qed

lemma readline_takes_line:
  assumes "rd_ans c = ds @ es" "rd_clean ds" "rd_bytes ds = line @ newline # rest"
    and "newline \<notin> set line" "length line < n" "n < 2 ^ 63" "length line + 2 \<le> length buf"
  shows "readline buf (of_nat n) c =
    (Ret (of_nat (length line) - 1, line @ newline # NUL # drop (length line + 2) buf),
     c\<lparr>rd_ans := rd_skip (length line + 1) ds @ es\<rparr>)"
  using readline.loop_line [OF assms] by (simp add: readline_def)

theorem readline_line:
  assumes "rd_ans c = ds @ es" "rd_clean ds" "rd_bytes ds = line @ newline # rest"
    and "newline \<notin> set line" "length line < n" "n < 2 ^ 63" "length line + 2 \<le> length buf"
  shows "readline buf (of_nat n) c =
    (Ret (of_nat (length line) - 1, line @ newline # NUL # drop (length line + 2) buf),
     c\<lparr>rd_ans := rd_skip (length line + 1) ds @ es\<rparr>)"
  by (rule readline_takes_line) (fact assms)+

theorem readline_line_witness:
  "readline ''.......'' 7
     \<lparr>rd_ans = [RData ''ab'', RData (''c'' @ newline # ''d''), REof], wr_ans = [], wire = []\<rparr> =
   (Ret (2, ''abc'' @ newline # NUL # ''..''), \<lparr>rd_ans = [RData ''d'', REof], wr_ans = [], wire = []\<rparr>)"
proof -
  have k: "rd_skip 4 [RData ''ab'', RData (''c'' @ newline # ''d'')] = [RData ''d'']" by code_simp
  from readline_line [of "\<lparr>rd_ans = [RData ''ab'', RData (''c'' @ newline # ''d''), REof],
        wr_ans = [], wire = []\<rparr>" "[RData ''ab'', RData (''c'' @ newline # ''d'')]" "[REof]" "''abc''"
      "''d''" 7 "''.......''"]
  show ?thesis by (simp add: rd_clean_def newline_def k)
qed

theorem readline_eof:
  assumes "rd_ans c = ds @ REof # es" "rd_clean ds" "newline \<notin> set (rd_bytes ds)"
    and "length (rd_bytes ds) < n" "n < 2 ^ 63" "length (rd_bytes ds) < length buf"
  shows "readline buf (of_nat n) c =
    (Ret (of_nat (length (rd_bytes ds)) - 1,
       rd_bytes ds @ NUL # drop (Suc (length (rd_bytes ds))) buf), c\<lparr>rd_ans := es\<rparr>)"
  using readline.loop_eof [OF assms] by (simp add: readline_def)

lemma readline_overruns:
  assumes "rd_ans c = ds @ es" "rd_clean ds" "n \<le> length (rd_bytes ds)"
    and "newline \<notin> set (take n (rd_bytes ds))" "n < 2 ^ 63" "length buf = n"
  shows "readline buf (of_nat n) c = (Fault, c\<lparr>rd_ans := rd_skip n ds @ es\<rparr>)"
  using readline.loop_full [OF assms] by (simp add: readline_def)

lemma readline_line_overruns:
  assumes "rd_ans c = ds @ es" "rd_clean ds" "rd_bytes ds = line @ newline # rest"
    and "newline \<notin> set line" "n \<le> Suc (length line)" "0 < n" "n < 2 ^ 63" "length buf = n"
  shows "readline buf (of_nat n) c = (Fault, c\<lparr>rd_ans := rd_skip n ds @ es\<rparr>)"
  using readline.loop_overruns [OF assms] by (simp add: readline_def)

theorem readline_overflow:
  assumes "rd_ans c = ds @ es" "rd_clean ds" "n \<le> length (rd_bytes ds)"
    and "newline \<notin> set (take n (rd_bytes ds))" "n < 2 ^ 63" "length buf = n"
  shows "readline buf (of_nat n) c = (Fault, c\<lparr>rd_ans := rd_skip n ds @ es\<rparr>)"
  by (rule readline_overruns) (fact assms)+

theorem readline_overflow_witness:
  "readline ''...'' 3 \<lparr>rd_ans = [RData ''abcd''], wr_ans = [], wire = []\<rparr> =
   (Fault, \<lparr>rd_ans = [RData ''d''], wr_ans = [], wire = []\<rparr>)"
proof -
  have k: "rd_skip 3 [RData ''abcd''] = [RData ''d'']" by code_simp
  from readline_overflow [of "\<lparr>rd_ans = [RData ''abcd''], wr_ans = [], wire = []\<rparr>" "[RData ''abcd'']"
      "[]" 3 "''...''"]
  show ?thesis by (simp add: rd_clean_def newline_def k)
qed

end
