(* ===== verification/HttpRequest.thy ===== *)
theory HttpRequest
  imports HttpWire
begin

text \<open>
  \<open>accept_request\<close> of http_module/http_module.h: it reads the request line, splits it into a
  method and a URL, checks the method, builds the local path and looks it up.

  The stack arrays hold unknown bytes when the function starts; they are arguments
  (\<open>buf0\<close>, \<open>method0\<close>, \<open>url0\<close>). \<open>stat\<close> is an argument: \<open>None\<close> when it fails, otherwise whether
  the path is a directory. What is printed is not modelled.
\<close>

definition BUFFSIZE :: nat where
  "BUFFSIZE = 1024"

definition PARTSIZE :: nat where
  "PARTSIZE = 512"

definition HTTP_ERROR_NOT_FIND :: int where
  "HTTP_ERROR_NOT_FIND = 404"

definition HTTP_ERROR_METHOD :: int where
  "HTTP_ERROR_METHOD = 500"

definition HTTP_ERROR_REQUEST :: int where
  "HTTP_ERROR_REQUEST = 400"

definition HTTP_SUCCESS :: int where
  "HTTP_SUCCESS = 200"

lemmas http_codes = HTTP_ERROR_NOT_FIND_def HTTP_ERROR_METHOD_def HTTP_ERROR_REQUEST_def
  HTTP_SUCCESS_def

section \<open>The C library's character functions\<close>

text \<open>The C locale.\<close>

definition isspace :: "char \<Rightarrow> bool" where
  "isspace ch \<longleftrightarrow> ch \<in> {CHR 0x20, CHR 0x09, CHR 0x0A, CHR 0x0B, CHR 0x0C, CHR 0x0D}"

definition tolower :: "char \<Rightarrow> char" where
  "tolower ch = (let n = (of_char ch :: nat) in if 65 \<le> n \<and> n \<le> 90 then char_of (n + 32) else ch)"

text \<open>\<open>strcasecmp\<close> answers 0 for equal strings.\<close>

definition strcasecmp_differs :: "bytes \<Rightarrow> bytes \<Rightarrow> bool" where
  "strcasecmp_differs a b \<longleftrightarrow> map tolower a \<noteq> map tolower b"

section \<open>The loops of accept_request\<close>

text \<open>\<open>while (!isspace(buf[j]) && i < PARTSIZE) dst[i++] = buf[j++];\<close>\<close>

function scan_word :: "bytes \<Rightarrow> nat \<Rightarrow> bytes \<Rightarrow> nat \<Rightarrow> (nat \<times> nat \<times> bytes) cres" where
  "scan_word buf j dst i =
     (if j < length buf then
        (if \<not> isspace (buf ! j) \<and> i < PARTSIZE then
           (case mem_store dst (int i) [buf ! j] of
              None \<Rightarrow> Fault
            | Some dst' \<Rightarrow> scan_word buf (j + 1) dst' (i + 1))
         else Ret (j, i, dst))
      else Fault)"
  by pat_completeness auto
termination
  by (relation "measure (\<lambda>(buf, j, dst, i). length buf - j)") auto

declare scan_word.simps [simp del]

text \<open>\<open>while (isspace(buf[j]) && j < BUFFSIZE) j++;\<close>\<close>

function skip_space :: "bytes \<Rightarrow> nat \<Rightarrow> nat cres" where
  "skip_space buf j =
     (if j < length buf then
        (if isspace (buf ! j) \<and> j < BUFFSIZE then skip_space buf (j + 1) else Ret j)
      else Fault)"
  by pat_completeness auto
termination
  by (relation "measure (\<lambda>(buf, j). length buf - j)") auto

declare skip_space.simps [simp del]

text \<open>The reading loop repeats \<open>readline\<close> while its result, converted to \<open>int\<close>, is \<open>-1\<close>.\<close>

lemma readline_end_keeps: "readline_end i p buf c = (r, c') \<Longrightarrow> c' = c"
  by (auto simp: readline_end_def split: option.splits)

lemma readline_loop_size:
  "readline_loop maxlen i p buf c = (Ret x, c') \<Longrightarrow>
   (if i < maxlen then rd_size (rd_ans c') < rd_size (rd_ans c) else c' = c)"
proof (induction maxlen i p buf c rule: readline_loop.induct)
  case (1 maxlen i p buf c)
  show ?case
  proof (cases "i < maxlen")
    case False
    with 1 show ?thesis
      by (auto simp: readline_loop.simps [of maxlen i] dest: readline_end_keeps)
  next
    case True
    obtain r c1 where s: "sys_read 1 c = (r, c1)" by (metis prod.exhaust)
    show ?thesis
    proof (cases r)
      case (Ret y)
      show ?thesis
      proof (cases "y = Inr []")
        case True
        with s Ret have "rd_size (rd_ans c1) < rd_size (rd_ans c)"
          by (auto simp: sys_read_def split: list.splits rd.splits if_splits)
        with True s Ret \<open>i < maxlen\<close> "1.prems" show ?thesis
          by (auto simp: readline_loop.simps [of maxlen i] Let_def
              split: option.splits dest: readline_end_keeps)
      next
        case False
        have lt: "rd_size (rd_ans c1) < rd_size (rd_ans c)"
          using s Ret False sys_read_size [of y c1 1 c] by auto
        have **: "rd_size (rd_ans c') < rd_size (rd_ans c)"
          if "if j < maxlen then rd_size (rd_ans c') < rd_size (rd_ans c1) else c' = c1" for j
          using that lt by (auto split: if_splits)
        show ?thesis
          using "1.prems" s Ret \<open>i < maxlen\<close> False lt
          by (auto simp: readline_loop.simps [of maxlen i p buf c] Let_def
              split: option.splits if_splits dest!: readline_end_keeps
              dest: "1.IH" [THEN **])
      qed
    qed (use s "1.prems" True in \<open>simp_all add: readline_loop.simps [of maxlen i]\<close>)
  qed
qed

function read_line_again :: "bytes \<Rightarrow> (conn, bytes) prog" where
  "read_line_again buf c =
     (case readline buf (of_nat BUFFSIZE) c of
        (Ret (r, buf'), c') \<Rightarrow>
          (if to_int (sint r) = - 1 then read_line_again buf' c' else (Ret buf', c'))
      | (Exit, c') \<Rightarrow> (Exit, c')
      | (Wait, c') \<Rightarrow> (Wait, c')
      | (Fault, c') \<Rightarrow> (Fault, c'))"
  by pat_completeness auto
termination
  by (relation "measure (\<lambda>(buf, c). rd_size (rd_ans c))")
    (auto simp: readline_def BUFFSIZE_def dest: readline_loop_size [OF sym])

declare read_line_again.simps [simp del]

section \<open>accept_request\<close>

definition LOCAL_ROOT :: bytes where
  "LOCAL_ROOT = ''/home/jackwu/Desktop/test''"

text \<open>The method and the URL, as the contents of their arrays.\<close>

definition split_request :: "bytes \<Rightarrow> bytes \<Rightarrow> bytes \<Rightarrow> (bytes \<times> bytes) cres" where
  "split_request buf method0 url0 =
     (case scan_word buf 0 method0 0 of
        Ret (j, i, m) \<Rightarrow>
          (case mem_store m (int i) [NUL] of
             None \<Rightarrow> Fault
           | Some method \<Rightarrow>
               (case skip_space buf j of
                  Ret j' \<Rightarrow>
                    (case scan_word buf j' url0 0 of
                       Ret (_, i', u) \<Rightarrow>
                         (case mem_store u (int i') [NUL] of
                            None \<Rightarrow> Fault
                          | Some url \<Rightarrow> Ret (method, url))
                     | _ \<Rightarrow> Fault)
                | _ \<Rightarrow> Fault))
      | _ \<Rightarrow> Fault)"

text \<open>\<open>strcat\<close>: the text goes where the string in the array ends.\<close>

definition strcat :: "bytes \<Rightarrow> bytes \<Rightarrow> bytes option" where
  "strcat m txt = (case c_string m of
      None \<Rightarrow> None
    | Some s \<Rightarrow> mem_store m (int (length s)) (txt @ [NUL]))"

text \<open>From the method test on; \<open>localPath = NULL\<close> assigns to the parameter only.\<close>

definition route_request ::
  "(bytes \<Rightarrow> bool option) \<Rightarrow> bytes \<Rightarrow> bytes \<Rightarrow> bytes \<Rightarrow> (int \<times> bytes) cres" where
  "route_request stat method url localPath =
     (case (c_string method, c_string url) of
        (Some mt, Some ut) \<Rightarrow>
          (if strcasecmp_differs mt ''GET'' \<and> strcasecmp_differs mt ''POST''
           then Ret (HTTP_ERROR_METHOD, localPath)
           else (case store_string localPath (LOCAL_ROOT @ ut) of
               None \<Rightarrow> Fault
             | Some p1 \<Rightarrow>
                 (case (if last (LOCAL_ROOT @ ut) = CHR ''/'' then strcat p1 ''index.html''
                        else Some p1) of
                    None \<Rightarrow> Fault
                  | Some p2 \<Rightarrow>
                      (case c_string p2 of
                         None \<Rightarrow> Fault
                       | Some path \<Rightarrow>
                           (case stat path of
                              None \<Rightarrow> Ret (HTTP_ERROR_NOT_FIND, p2)
                            | Some isdir \<Rightarrow>
                                (case (if isdir then strcat p2 ''/index.html'' else Some p2) of
                                   None \<Rightarrow> Fault
                                 | Some p3 \<Rightarrow> Ret (HTTP_SUCCESS, p3)))))))
      | _ \<Rightarrow> Fault)"

definition accept_request ::
  "(bytes \<Rightarrow> bool option) \<Rightarrow> bytes \<Rightarrow> bytes \<Rightarrow> bytes \<Rightarrow> bytes \<Rightarrow> (conn, int \<times> bytes) prog" where
  "accept_request stat buf0 method0 url0 localPath c =
     (case read_line_again buf0 c of
        (Ret buf, c') \<Rightarrow>
          (case split_request buf method0 url0 of
             Ret (method, url) \<Rightarrow> (route_request stat method url localPath, c')
           | _ \<Rightarrow> (Fault, c'))
      | (Exit, c') \<Rightarrow> (Exit, c')
      | (Wait, c') \<Rightarrow> (Wait, c')
      | (Fault, c') \<Rightarrow> (Fault, c'))"

section \<open>What the loops do\<close>

lemma isspace_newline [simp]: "isspace newline"
  by (simp add: isspace_def newline_def)

lemma isspace_NUL [simp]: "\<not> isspace NUL"
  by (simp add: isspace_def NUL_def)

lemma scan_word_text:
  assumes "\<forall>x \<in> set w. \<not> isspace x" "isspace s" "i + length w \<le> PARTSIZE" "i + length w \<le> length dst"
  shows "scan_word (pre @ w @ s # post) (length pre) dst i =
    Ret (length pre + length w, i + length w, take i dst @ w @ drop (i + length w) dst)"
  using assms
proof (induction w arbitrary: pre dst i)
  case Nil
  then show ?case by (simp add: scan_word.simps)
next
  case (Cons x w)
  have "scan_word (pre @ (x # w) @ s # post) (length pre) dst i =
      scan_word ((pre @ [x]) @ w @ s # post) (length (pre @ [x])) (dst[i := x]) (Suc i)"
    using Cons.prems by (subst scan_word.simps) (simp add: mem_store_char nth_append)
  also have "\<dots> = Ret (length (pre @ [x]) + length w, Suc i + length w,
      take (Suc i) (dst[i := x]) @ w @ drop (Suc i + length w) (dst[i := x]))"
    using Cons.prems by (intro Cons.IH) auto
  finally show ?case
    using Cons.prems by (simp add: take_Suc_conv_app_nth)
qed

lemma skip_space_text:
  assumes "\<forall>x \<in> set w. isspace x" "\<not> isspace s" "length pre + length w < BUFFSIZE"
  shows "skip_space (pre @ w @ s # post) (length pre) = Ret (length pre + length w)"
  using assms
proof (induction w arbitrary: pre)
  case Nil
  then show ?case by (simp add: skip_space.simps)
next
  case (Cons x w)
  have "skip_space (pre @ (x # w) @ s # post) (length pre) =
      skip_space ((pre @ [x]) @ w @ s # post) (length (pre @ [x]))"
    using Cons.prems by (subst skip_space.simps) (simp add: nth_append)
  also have "\<dots> = Ret (length (pre @ [x]) + length w)"
    using Cons.prems by (intro Cons.IH) auto
  finally show ?case by simp
qed

text \<open>\<open>PARTSIZE\<close> characters that are not space fill the array; the NUL goes one past it.\<close>

lemma scan_word_full:
  assumes "\<forall>x \<in> set w. \<not> isspace x" "i + length w = PARTSIZE" "length dst = PARTSIZE" "post \<noteq> []"
  shows "\<exists>dst'. scan_word (pre @ w @ post) (length pre) dst i =
    Ret (length pre + length w, PARTSIZE, dst') \<and> length dst' = PARTSIZE"
  using assms
proof (induction w arbitrary: pre dst i)
  case Nil
  then show ?case by (simp add: scan_word.simps)
next
  case (Cons x w)
  have "scan_word (pre @ (x # w) @ post) (length pre) dst i =
      scan_word ((pre @ [x]) @ w @ post) (length (pre @ [x])) (dst[i := x]) (Suc i)"
    using Cons.prems by (subst scan_word.simps) (simp add: mem_store_char nth_append)
  with Cons.IH [of "Suc i" "dst[i := x]" "pre @ [x]"] Cons.prems show ?case
    by simp
qed

text \<open>No space up to the end of the array: the loop leaves it.\<close>

lemma scan_word_runs_out:
  assumes "\<forall>x \<in> set w. \<not> isspace x" "i + length w \<le> PARTSIZE" "i + length w \<le> length dst"
  shows "scan_word (pre @ w) (length pre) dst i = Fault"
  using assms
proof (induction w arbitrary: pre dst i)
  case Nil
  then show ?case by (simp add: scan_word.simps)
next
  case (Cons x w)
  have "scan_word (pre @ x # w) (length pre) dst i =
      scan_word ((pre @ [x]) @ w) (length (pre @ [x])) (dst[i := x]) (Suc i)"
    using Cons.prems by (subst scan_word.simps) (simp add: mem_store_char nth_append)
  with Cons.IH [of "Suc i" "dst[i := x]" "pre @ [x]"] Cons.prems show ?case
    by simp
qed

section \<open>What accept_request computes\<close>

text \<open>The words of a request line, and what the server is to answer for them.\<close>

definition request_words :: "bytes \<Rightarrow> bytes \<times> bytes" where
  "request_words line =
     (let r = dropWhile isspace (dropWhile (\<lambda>x. \<not> isspace x) line)
      in (takeWhile (\<lambda>x. \<not> isspace x) line, takeWhile (\<lambda>x. \<not> isspace x) r))"

definition serve :: "(bytes \<Rightarrow> bool option) \<Rightarrow> bytes \<Rightarrow> bytes \<Rightarrow> int \<times> bytes option" where
  "serve stat mt ut =
     (if map tolower mt \<notin> {''get'', ''post''} then (500, None)
      else (let p = LOCAL_ROOT @ ut;
                p' = (if last p = CHR ''/'' then p @ ''index.html'' else p)
            in case stat p' of
                 None \<Rightarrow> (404, Some p')
               | Some isdir \<Rightarrow> (200, Some (if isdir then p' @ ''/index.html'' else p'))))"

text \<open>An array after a string has been put at its start.\<close>

definition as_string :: "bytes \<Rightarrow> bytes \<Rightarrow> bytes" where
  "as_string m txt = txt @ NUL # drop (Suc (length txt)) m"

lemma c_string_as_string [simp]: "NUL \<notin> set txt \<Longrightarrow> c_string (as_string m txt) = Some txt"
  by (simp add: as_string_def c_string_stored)

lemma strcat_as_string:
  assumes "NUL \<notin> set a" "length a + length b < length m"
  shows "strcat (as_string m a) b = Some (as_string m (a @ b))"
  using assms mem_store_append [of a "length a" "b @ [NUL]" "NUL # drop (Suc (length a)) m"]
  by (simp add: strcat_def as_string_def c_string_stored add.commute)

lemma tolower_GET_POST:
  "strcasecmp_differs mt ''GET'' \<and> strcasecmp_differs mt ''POST'' \<longleftrightarrow>
   map tolower mt \<notin> {''get'', ''post''}"
proof -
  have "map tolower ''GET'' = ''get''" "map tolower ''POST'' = ''post''"
    by code_simp+
  then show ?thesis by (simp add: strcasecmp_differs_def)
qed

lemma LOCAL_ROOT_facts: "length LOCAL_ROOT = 25" "NUL \<notin> set LOCAL_ROOT"
  "NUL \<notin> set ''index.html''" "NUL \<notin> set ''/index.html''"
  by (simp_all add: LOCAL_ROOT_def NUL_def)

lemma route_request_serves:
  assumes "c_string method = Some mt" "c_string url = Some ut" "NUL \<notin> set ut"
    and "length ut + 46 < length lp"
  shows "route_request stat method url lp =
    (case serve stat mt ut of (code, path) \<Rightarrow>
       Ret (code, case path of None \<Rightarrow> lp | Some p \<Rightarrow> as_string lp p))"
proof (cases "map tolower mt \<in> {''get'', ''post''}")
  case False
  with assms show ?thesis
    by (simp add: route_request_def serve_def tolower_GET_POST http_codes)
next
  case True
  define p where "p = LOCAL_ROOT @ ut"
  define p' where "p' = (if last p = CHR ''/'' then p @ ''index.html'' else p)"
  have NUL: "NUL \<notin> set p" "NUL \<notin> set p'"
    using assms(3) LOCAL_ROOT_facts by (auto simp: p_def p'_def)
  have len: "length p = 25 + length ut" "length p' \<le> 35 + length ut"
    using LOCAL_ROOT_facts by (auto simp: p_def p'_def)
  have 1: "store_string lp p = Some (as_string lp p)"
    using len assms(4) by (simp add: store_string_fits as_string_def)
  have 2: "(if last p = CHR ''/'' then strcat (as_string lp p) ''index.html'' else Some (as_string lp p)) =
      Some (as_string lp p')"
    using strcat_as_string [OF NUL(1), of "''index.html''" lp] len assms(4) by (simp add: p'_def)
  have 3: "strcat (as_string lp p') ''/index.html'' = Some (as_string lp (p' @ ''/index.html''))"
    using strcat_as_string [OF NUL(2), of "''/index.html''" lp] len assms(4) by simp
  from True show ?thesis
    unfolding route_request_def assms(1,2) option.case prod.case tolower_GET_POST serve_def Let_def
      p_def [symmetric] 1 2 p'_def [symmetric] c_string_as_string [OF NUL(2)] 3
    by (auto simp: http_codes split: option.split)
qed

lemma hd_dropWhile_space: "dropWhile P xs = y # ys \<Longrightarrow> \<not> P y"
  by (metis hd_dropWhile list.distinct(1) list.sel(1))

lemma request_words_split:
  assumes "request_words line = (m, u)" "u \<noteq> []"
  obtains sp tl where "line = m @ sp @ u @ tl" "sp \<noteq> []" "\<forall>x \<in> set sp. isspace x"
    "\<forall>x \<in> set m. \<not> isspace x" "\<forall>x \<in> set u. \<not> isspace x" "tl = [] \<or> isspace (hd tl)"
proof
  let ?ns = "\<lambda>x. \<not> isspace x"
  let ?r1 = "dropWhile ?ns line"
  let ?sp = "takeWhile isspace ?r1"
  let ?r2 = "dropWhile isspace ?r1"
  let ?tl = "dropWhile ?ns ?r2"
  have m: "m = takeWhile ?ns line" and u: "u = takeWhile ?ns ?r2"
    using assms(1) by (simp_all add: request_words_def Let_def)
  show "line = m @ ?sp @ u @ ?tl" by (simp add: m u)
  show "?sp \<noteq> []"
    using assms(2) u by (cases ?r1) (auto dest: hd_dropWhile_space)
  show "\<forall>x \<in> set ?sp. isspace x" "\<forall>x \<in> set m. ?ns x" "\<forall>x \<in> set u. ?ns x"
    by (auto simp: m u dest: set_takeWhileD)
  show "?tl = [] \<or> isspace (hd ?tl)"
    using hd_dropWhile [of ?ns ?r2] by blast
qed

lemma split_request_words:
  assumes "request_words line = (m, u)" "u \<noteq> []" "length line < BUFFSIZE"
    and "length m < PARTSIZE" "length u < PARTSIZE"
    and "length method0 = PARTSIZE" "length url0 = PARTSIZE"
  shows "split_request (line @ newline # rest) method0 url0 =
    Ret (as_string method0 m, as_string url0 u)"
proof -
  obtain sp tl where l: "line = m @ sp @ u @ tl" "sp \<noteq> []" "\<forall>x \<in> set sp. isspace x"
    "\<forall>x \<in> set m. \<not> isspace x" "\<forall>x \<in> set u. \<not> isspace x" "tl = [] \<or> isspace (hd tl)"
    using request_words_split [OF assms(1,2)] .
  obtain s sp' where sp: "sp = s # sp'" using l(2) by (cases sp) auto
  obtain x u' where u: "u = x # u'" using assms(2) by (cases u) auto
  obtain e tl' where e: "tl @ newline # rest = e # tl'" "isspace e"
    using l(6) by (cases tl) auto
  have b: "line @ newline # rest = [] @ m @ s # sp' @ u @ e # tl'"
    "line @ newline # rest = m @ sp @ x # u' @ e # tl'"
    "line @ newline # rest = (m @ sp) @ u @ e # tl'"
    using l(1) sp u e(1) by auto
  have 1: "scan_word (line @ newline # rest) 0 method0 0 =
      Ret (length m, length m, m @ drop (length m) method0)"
    using scan_word_text [OF l(4), of s 0 method0 "[]" "sp' @ u @ e # tl'"] l(3) sp assms(4,6)
    by (simp add: b(1))
  have 2: "skip_space (line @ newline # rest) (length m) = Ret (length m + length sp)"
    unfolding b(2) using l(1,5) u assms(3) by (intro skip_space_text [OF l(3)]) simp_all
  have 3: "scan_word (line @ newline # rest) (length m + length sp) url0 0 =
      Ret (length m + length sp + length u, length u, u @ drop (length u) url0)"
    using scan_word_text [OF l(5), of e 0 url0 "m @ sp" tl'] e(2) assms(5,7) by (simp add: b(3))
  have st: "mem_store (w @ drop (length w) a) (int (length w)) [NUL] = Some (as_string a w)"
    if "length w < length a" for w a
    using mem_store_append [of w "length w" "[NUL]" "drop (length w) a"] that
    by (simp add: as_string_def)
  show ?thesis
    using assms(4-7) by (simp add: split_request_def 1 2 3 st)
qed

text \<open>A word of \<open>PARTSIZE\<close> characters or more overruns its array.\<close>

lemma scan_word_overruns:
  assumes "\<forall>x \<in> set w. \<not> isspace x" "PARTSIZE \<le> length w" "length dst = PARTSIZE" "post \<noteq> []"
  obtains j dst' where "scan_word (pre @ w @ post) (length pre) dst 0 = Ret (j, PARTSIZE, dst')"
    "mem_store dst' (int PARTSIZE) [NUL] = None"
proof -
  let ?a = "take PARTSIZE w" and ?b = "drop PARTSIZE w"
  have "\<forall>x \<in> set ?a. \<not> isspace x" using assms(1) by (meson in_set_takeD)
  with scan_word_full [of ?a 0 dst "?b @ post" pre] assms(2-4)
  obtain dst' where d: "scan_word (pre @ ?a @ ?b @ post) (length pre) dst 0 =
      Ret (length pre + length ?a, PARTSIZE, dst')" "length dst' = PARTSIZE" by auto
  have "pre @ ?a @ ?b @ post = pre @ w @ post" by simp
  from that [OF d(1) [unfolded this]] d(2) show thesis by (simp add: mem_store_nat)
qed

lemma split_request_method_overruns:
  assumes "\<forall>x \<in> set m. \<not> isspace x" "PARTSIZE \<le> length m" "length method0 = PARTSIZE" "post \<noteq> []"
  shows "split_request (m @ post) method0 url0 = Fault"
proof -
  obtain j d where "scan_word (m @ post) 0 method0 0 = Ret (j, PARTSIZE, d)"
    "mem_store d (int PARTSIZE) [NUL] = None"
    by (rule scan_word_overruns [OF assms, of "[]"]) simp
  then show ?thesis by (simp add: split_request_def)
qed

lemma split_request_url_overruns:
  assumes "request_words line = (m, u)" "length line < BUFFSIZE"
    and "length m < PARTSIZE" "PARTSIZE \<le> length u"
    and "length method0 = PARTSIZE" "length url0 = PARTSIZE"
  shows "split_request (line @ newline # rest) method0 url0 = Fault"
proof -
  have "u \<noteq> []" using assms(4) by (auto simp: PARTSIZE_def)
  obtain sp tl where l: "line = m @ sp @ u @ tl" "sp \<noteq> []" "\<forall>x \<in> set sp. isspace x"
    "\<forall>x \<in> set m. \<not> isspace x" "\<forall>x \<in> set u. \<not> isspace x" "tl = [] \<or> isspace (hd tl)"
    using request_words_split [OF assms(1) \<open>u \<noteq> []\<close>] .
  obtain s sp' where sp: "sp = s # sp'" using l(2) by (cases sp) auto
  obtain x u' where u: "u = x # u'" using \<open>u \<noteq> []\<close> by (cases u) auto
  have b: "line @ newline # rest = [] @ m @ s # sp' @ u @ tl @ newline # rest"
    "line @ newline # rest = m @ sp @ x # u' @ tl @ newline # rest"
    "line @ newline # rest = (m @ sp) @ u @ tl @ newline # rest"
    using l(1) sp u by auto
  have 1: "scan_word (line @ newline # rest) 0 method0 0 =
      Ret (length m, length m, m @ drop (length m) method0)"
    using scan_word_text [OF l(4), of s 0 method0 "[]" "sp' @ u @ tl @ newline # rest"] l(3) sp
      assms(3,5) by (simp add: b(1))
  have 2: "skip_space (line @ newline # rest) (length m) = Ret (length m + length sp)"
    unfolding b(2) using l(1,5) u assms(2) by (intro skip_space_text [OF l(3)]) simp_all
  obtain j d where 3: "scan_word (line @ newline # rest) (length m + length sp) url0 0 =
      Ret (j, PARTSIZE, d)" "mem_store d (int PARTSIZE) [NUL] = None"
    using scan_word_overruns [OF l(5) assms(4,6), of "tl @ newline # rest" "m @ sp"]
    unfolding b(3) by (metis append_is_Nil_conv length_append list.distinct(1))
  show ?thesis
    by (simp add: split_request_def 1 2 3 split: option.split)
qed

lemma to_int_line_length:
  "0 < n \<Longrightarrow> n < 2 ^ 31 \<Longrightarrow> to_int (sint (of_nat n - 1 :: ssize_t)) = int n - 1"
  using sint_of_nat_small [of "n - 1"] to_int_small [of "int n - 1"]
  by (simp add: of_nat_diff)

lemma read_line_again_line:
  assumes "rd_ans c = ds @ es" "rd_clean ds" "rd_bytes ds = line @ newline # rest"
    and "newline \<notin> set line" "line \<noteq> []" "length line + 2 \<le> BUFFSIZE" "length buf = BUFFSIZE"
  shows "read_line_again buf c =
    (Ret (line @ newline # NUL # drop (length line + 2) buf),
     c\<lparr>rd_ans := rd_skip (length line + 1) ds @ es\<rparr>)"
proof -
  have "BUFFSIZE < 2 ^ 31" by (simp add: BUFFSIZE_def)
  then show ?thesis
    using assms readline_takes_line [OF assms(1-4), of BUFFSIZE buf] to_int_line_length [of "length line"]
    by (subst read_line_again.simps) simp
qed

lemma read_line_again_overruns:
  assumes "rd_ans c = ds @ es" "rd_clean ds" "rd_bytes ds = line @ newline # rest"
    and "newline \<notin> set line" "BUFFSIZE \<le> Suc (length line)" "length buf = BUFFSIZE"
  shows "read_line_again buf c = (Fault, c\<lparr>rd_ans := rd_skip BUFFSIZE ds @ es\<rparr>)"
proof -
  have "0 < BUFFSIZE" "BUFFSIZE < 2 ^ 63" by (simp_all add: BUFFSIZE_def)
  from readline_line_overruns [OF assms(1-5) this assms(6)] show ?thesis
    by (simp add: read_line_again.simps [of buf])
qed

text \<open>A request line with a method and a URL that fit their arrays is answered as \<open>serve\<close> says.\<close>

theorem accept_request_serves:
  assumes "rd_ans c = ds @ es" "rd_clean ds" "rd_bytes ds = line @ newline # rest"
    and "newline \<notin> set line" "NUL \<notin> set line" "length line + 2 \<le> BUFFSIZE"
    and "request_words line = (m, u)" "u \<noteq> []" "length m < PARTSIZE" "length u < PARTSIZE"
    and "length buf0 = BUFFSIZE" "length method0 = PARTSIZE" "length url0 = PARTSIZE"
    and "length u + 46 < length localPath"
  shows "accept_request stat buf0 method0 url0 localPath c =
    (case serve stat m u of (code, path) \<Rightarrow>
       (Ret (code, case path of None \<Rightarrow> localPath | Some p \<Rightarrow> as_string localPath p),
        c\<lparr>rd_ans := rd_skip (length line + 1) ds @ es\<rparr>))"
proof -
  obtain sp tl where l: "line = m @ sp @ u @ tl"
    using request_words_split [OF assms(7,8)] by metis
  with assms(5) have NUL: "NUL \<notin> set m" "NUL \<notin> set u" by auto
  have "line \<noteq> []" using l assms(8) by auto
  note rd = read_line_again_line [OF assms(1-4) this assms(6,11)]
  have sp: "split_request (line @ newline # NUL # drop (length line + 2) buf0) method0 url0 =
      Ret (as_string method0 m, as_string url0 u)"
    using assms(6) by (intro split_request_words [OF assms(7,8) _ assms(9,10,12,13)]) simp
  show ?thesis
    unfolding accept_request_def rd prod.case cres.case sp
      route_request_serves [OF c_string_as_string [OF NUL(1)] c_string_as_string [OF NUL(2)]
        NUL(2) assms(14)]
    by (simp split: prod.split)
qed

theorem accept_request_serves_witness:
  "accept_request (\<lambda>p. if p = LOCAL_ROOT @ ''/a'' then Some True else None) (replicate 1024 NUL)
     (replicate 512 NUL) (replicate 512 NUL) (replicate 1024 NUL)
     \<lparr>rd_ans = [RData ''GET '', RData (''/a HTTP'' @ newline # ''x'')], wr_ans = [], wire = []\<rparr> =
   (Ret (200, as_string (replicate 1024 NUL) (LOCAL_ROOT @ ''/a/index.html'')),
    \<lparr>rd_ans = [RData ''x''], wr_ans = [], wire = []\<rparr>)"
proof -
  have w: "request_words ''GET /a HTTP'' = (''GET'', ''/a'')"
    and l: "map tolower ''GET'' = ''get''" by code_simp+
  from accept_request_serves [of "\<lparr>rd_ans = [RData ''GET '', RData (''/a HTTP'' @ newline # ''x'')],
      wr_ans = [], wire = []\<rparr>" "[RData ''GET '', RData (''/a HTTP'' @ newline # ''x'')]" "[]"
      "''GET /a HTTP''" "''x''" "''GET''" "''/a''" "replicate 1024 NUL" "replicate 512 NUL"
      "replicate 512 NUL" "replicate 1024 NUL" "\<lambda>p. if p = LOCAL_ROOT @ ''/a'' then Some True else None"] w l
  show ?thesis
    by (simp add: rd_clean_def newline_def NUL_def BUFFSIZE_def PARTSIZE_def serve_def)
qed

text \<open>Whatever the URL holds, it is appended to the root directory unchanged; when the path exists
  it is that path, possibly with the name of the index page behind it.\<close>

text \<open>
  C32: The path that a successful request leaves is the root directory followed by the URL
  unchanged ('..' included) and at most the index page names.
\<close>

theorem accept_request_path:
  assumes "rd_ans c = ds @ es" "rd_clean ds" "rd_bytes ds = line @ newline # rest"
    and "newline \<notin> set line" "NUL \<notin> set line" "length line + 2 \<le> BUFFSIZE"
    and "request_words line = (m, u)" "u \<noteq> []" "length m < PARTSIZE" "length u < PARTSIZE"
    and "length buf0 = BUFFSIZE" "length method0 = PARTSIZE" "length url0 = PARTSIZE"
    and "length u + 46 < length localPath"
    and "accept_request stat buf0 method0 url0 localPath c = (Ret (HTTP_SUCCESS, path'), c')"
  shows "\<exists>sfx. c_string path' = Some (LOCAL_ROOT @ u @ sfx)
    \<and> sfx \<in> {[], ''index.html'', ''/index.html'', ''index.html/index.html''}
    \<and> stat (LOCAL_ROOT @ u @ (if last u = CHR ''/'' then ''index.html'' else [])) \<noteq> None"
proof -
  obtain sp tl where l: "line = m @ sp @ u @ tl"
    using request_words_split [OF assms(7,8)] by metis
  with assms(5) have NUL: "NUL \<notin> set u" by auto
  let ?p = "LOCAL_ROOT @ u @ (if last u = CHR ''/'' then ''index.html'' else [])"
  obtain code path where sv: "serve stat m u = (code, path)" by (metis prod.exhaust)
  have r: "code = HTTP_SUCCESS" "path' = (case path of None \<Rightarrow> localPath | Some p \<Rightarrow> as_string localPath p)"
    using accept_request_serves [OF assms(1-14), of stat] sv assms(15) by auto
  have "last (LOCAL_ROOT @ u) = last u" using assms(8) by simp
  then obtain isdir where d: "stat ?p = Some isdir"
    "path = Some (?p @ (if isdir then ''/index.html'' else []))"
    using sv r(1) by (auto simp: serve_def Let_def http_codes split: if_splits option.splits)
  let ?s = "(if last u = CHR ''/'' then ''index.html'' else []) @ (if isdir then ''/index.html'' else [])"
  have "c_string path' = Some (LOCAL_ROOT @ u @ ?s)"
    using r(2) d(2) NUL LOCAL_ROOT_facts by simp
  with d(1) show ?thesis by (intro exI [of _ ?s]) simp
qed

theorem accept_request_path_witness:
  "\<exists>path'. fst (accept_request (\<lambda>_. Some False) (replicate 1024 NUL)
     (replicate 512 NUL) (replicate 512 NUL) (replicate 1024 NUL)
     \<lparr>rd_ans = [RData ''GET /../s H'', RData [newline]], wr_ans = [], wire = []\<rparr>) = Ret (200, path')
    \<and> (\<exists>sfx. c_string path' = Some (LOCAL_ROOT @ ''/../s'' @ sfx))"
proof -
  let ?c = "\<lparr>rd_ans = [RData ''GET /../s H'', RData [newline]], wr_ans = [], wire = []\<rparr>"
  let ?b = "replicate 1024 NUL" and ?m = "replicate 512 NUL"
  have w: "request_words ''GET /../s H'' = (''GET'', ''/../s'')"
    and l: "map tolower ''GET'' = ''get''" by code_simp+
  have acc: "accept_request (\<lambda>_. Some False) ?b ?m ?m ?b ?c =
      (Ret (HTTP_SUCCESS, as_string ?b (LOCAL_ROOT @ ''/../s'')),
        ?c\<lparr>rd_ans := rd_skip (length ''GET /../s H'' + 1) [RData ''GET /../s H'', RData [newline]]\<rparr>)"
    using accept_request_serves [of ?c "[RData ''GET /../s H'', RData [newline]]" "[]"
        "''GET /../s H''" "[]" "''GET''" "''/../s''" ?b ?m ?m ?b "\<lambda>_. Some False"] w l
    by (simp add: rd_clean_def newline_def NUL_def BUFFSIZE_def PARTSIZE_def serve_def http_codes)
  have n: "NUL \<notin> set ''GET /../s H''" by (simp add: NUL_def)
  have "\<exists>sfx. c_string (as_string ?b (LOCAL_ROOT @ ''/../s'')) = Some (LOCAL_ROOT @ ''/../s'' @ sfx)"
    using accept_request_path [OF _ _ _ _ n _ w _ _ _ _ _ _ _ acc, of "[RData ''GET /../s H'', RData [newline]]" "[]" "[]"]
    by (simp add: rd_clean_def BUFFSIZE_def PARTSIZE_def newline_def del: c_string_as_string) blast
  with acc show ?thesis by (simp add: http_codes)
qed

section \<open>What goes wrong\<close>

text \<open>End of file, or a failing descriptor: \<open>readline\<close> answers \<open>-1\<close> and is called again, for ever.\<close>

definition rd_dead :: "rd \<Rightarrow> bool" where
  "rd_dead a \<longleftrightarrow> a = REof \<or> (\<exists>e. a = RErr e \<and> e \<noteq> EINTR)"

lemma readline_dead:
  assumes "rd_ans c = a # es" "rd_dead a" "buf \<noteq> []"
  shows "\<exists>buf'. readline buf (of_nat BUFFSIZE) c = (Ret (- 1, buf'), c\<lparr>rd_ans := es\<rparr>) \<and> buf' \<noteq> []"
  using assms
  by (auto simp: readline_def readline_loop.simps [of _ 0] rd_dead_def sys_read_def BUFFSIZE_def
      readline_end_def mem_store_def Suc_le_eq)

text \<open>
  C31: On end of file or a failing descriptor accept_request never returns: readline answers
  -1 and is called again, for every number of such answers.
\<close>

theorem accept_request_dead_spins:
  assumes "list_all rd_dead (rd_ans c)" "buf0 \<noteq> []"
  shows "accept_request stat buf0 method0 url0 localPath c = (Wait, c\<lparr>rd_ans := []\<rparr>)"
proof -
  have "read_line_again buf0 c = (Wait, c\<lparr>rd_ans := []\<rparr>)"
    using assms
  proof (induction "rd_ans c" arbitrary: c buf0)
    case Nil
    then show ?case
      by (simp add: read_line_again.simps [of buf0] readline_def readline_loop.simps [of _ 0]
          BUFFSIZE_def sys_read_def)
  next
    case (Cons a es)
    then obtain buf' where b: "readline buf0 (of_nat BUFFSIZE) c = (Ret (- 1, buf'), c\<lparr>rd_ans := es\<rparr>)"
      "buf' \<noteq> []"
      using readline_dead [of c a es buf0] by (metis list.pred_inject(2))
    have "read_line_again buf' (c\<lparr>rd_ans := es\<rparr>) = (Wait, c\<lparr>rd_ans := []\<rparr>)"
      using Cons(1) [of "c\<lparr>rd_ans := es\<rparr>" buf'] Cons(2) [symmetric] Cons(3) b(2) by simp
    with b(1) show ?case
      by (simp add: read_line_again.simps [of buf0] unix_arith)
  qed
  then show ?thesis by (simp add: accept_request_def)
qed

theorem accept_request_dead_spins_witness:
  "accept_request (\<lambda>_. None) ''..'' [] [] [] \<lparr>rd_ans = [REof, REof, RErr EBADF], wr_ans = [], wire = []\<rparr> =
   (Wait, \<lparr>rd_ans = [], wr_ans = [], wire = []\<rparr>)"
  using accept_request_dead_spins [of "\<lparr>rd_ans = [REof, REof, RErr EBADF], wr_ans = [], wire = []\<rparr>" "''..''"]
  by (simp add: rd_dead_def)

text \<open>
  C1: Every request line with two words is answered as the abstract router says, or overruns
  an array, and the theorem says which: the buffer when the line with its newline leaves no
  room for the NUL, method or url when the word has 512 characters or more. Otherwise the
  answer is 500 for other methods than GET and POST (compared without case), 404 when stat
  fails, else 200, with the local path root ++ URL (++ index page) in the caller's array. The
  line is consumed, up to the size of the buffer.
\<close>

theorem accept_request_answers:
  assumes "rd_ans c = ds @ es" "rd_clean ds" "rd_bytes ds = line @ newline # rest"
    and "newline \<notin> set line" "NUL \<notin> set line" "request_words line = (m, u)" "u \<noteq> []"
    and "length buf0 = BUFFSIZE" "length method0 = PARTSIZE" "length url0 = PARTSIZE"
    and "length u + 46 < length localPath"
  shows "accept_request stat buf0 method0 url0 localPath c =
    (if BUFFSIZE < length line + 2 \<or> PARTSIZE \<le> length m \<or> PARTSIZE \<le> length u then Fault
     else case serve stat m u of (code, path) \<Rightarrow>
       Ret (code, case path of None \<Rightarrow> localPath | Some p \<Rightarrow> as_string localPath p),
     c\<lparr>rd_ans := rd_skip (min BUFFSIZE (length line + 1)) ds @ es\<rparr>)"
proof (cases "BUFFSIZE < length line + 2")
  case True
  with read_line_again_overruns [OF assms(1-4) _ assms(8)] show ?thesis
    by (simp add: accept_request_def min_def)
next
  case False
  then have len: "length line + 2 \<le> BUFFSIZE" by simp
  let ?buf = "line @ newline # NUL # drop (length line + 2) buf0"
  obtain sp tl where l: "line = m @ sp @ u @ tl" "\<forall>x \<in> set m. \<not> isspace x"
    using request_words_split [OF assms(6,7)] by metis
  have "line \<noteq> []" using l(1) assms(7) by auto
  note rd = read_line_again_line [OF assms(1-4) this len assms(8)]
  show ?thesis
  proof (cases "PARTSIZE \<le> length m \<or> PARTSIZE \<le> length u")
    case True
    have "split_request ?buf method0 url0 = Fault"
    proof (cases "PARTSIZE \<le> length m")
      case True
      then show ?thesis
        using split_request_method_overruns [OF l(2) True assms(9),
            of "sp @ u @ tl @ newline # NUL # drop (length line + 2) buf0"] l(1) by simp
    next
      case False
      then show ?thesis
        using split_request_url_overruns [OF assms(6) _ _ _ assms(9,10)] len True by simp
    qed
    with rd True len show ?thesis by (simp add: accept_request_def min_def)
  next
    case False
    with len accept_request_serves [OF assms(1-5) len assms(6,7) _ _ assms(8-11)] show ?thesis
      by (simp add: min_def split: prod.split)
  qed
qed

theorem accept_request_answers_witness:
  "accept_request (\<lambda>_. None) (replicate 1024 NUL) (replicate 512 NUL) (replicate 512 NUL)
     (replicate 1024 NUL) \<lparr>rd_ans = [RData (''GET '' @ replicate 512 CHR ''/'' @ [newline])],
       wr_ans = [], wire = []\<rparr> = (Fault, \<lparr>rd_ans = [], wr_ans = [], wire = []\<rparr>)"
proof -
  let ?u = "replicate 512 CHR ''/''"
  let ?l = "''GET '' @ ?u"
  let ?ds = "[RData (?l @ [newline])]"
  have clean: "rd_clean ?ds" by (simp add: rd_clean_def)
  have skip: "rd_skip 517 ?ds = []"
    using rd_clean_all_skipped [OF clean] by simp
  have ns: "\<not> isspace CHR ''/''" by (simp add: isspace_def)
  have "takeWhile (\<lambda>x. \<not> isspace x) ?l = ''GET''" "dropWhile (\<lambda>x. \<not> isspace x) ?l = '' '' @ ?u"
    "dropWhile isspace ('' '' @ ?u) = ?u" "takeWhile (\<lambda>x. \<not> isspace x) ?u = ?u"
    using ns by (simp_all add: isspace_def)
  then have w: "request_words ?l = (''GET'', ?u)" by (simp add: request_words_def)
  from accept_request_answers [of "\<lparr>rd_ans = ?ds, wr_ans = [], wire = []\<rparr>" ?ds "[]" ?l "[]"
      "''GET''" ?u "replicate 1024 NUL" "replicate 512 NUL" "replicate 512 NUL" "replicate 1024 NUL"]
    clean skip w
  show ?thesis
    by (simp add: newline_def NUL_def BUFFSIZE_def PARTSIZE_def)
qed

text \<open>A request line that is as long as the buffer overruns it.\<close>

theorem accept_request_long_line_faults:
  assumes "rd_ans c = ds @ es" "rd_clean ds" "BUFFSIZE \<le> length (rd_bytes ds)"
    and "newline \<notin> set (take BUFFSIZE (rd_bytes ds))" "length buf0 = BUFFSIZE"
  shows "accept_request stat buf0 method0 url0 localPath c =
    (Fault, c\<lparr>rd_ans := rd_skip BUFFSIZE ds @ es\<rparr>)"
proof -
  have "BUFFSIZE < 2 ^ 63" by (simp add: BUFFSIZE_def)
  from readline_overruns [OF assms(1-4) this assms(5)] show ?thesis
    by (simp add: accept_request_def read_line_again.simps [of buf0])
qed

theorem accept_request_long_line_faults_witness:
  "accept_request (\<lambda>_. None) (replicate 1024 NUL) [] [] []
     \<lparr>rd_ans = [RData (replicate 1024 CHR ''A'')], wr_ans = [], wire = []\<rparr> =
   (Fault, \<lparr>rd_ans = [], wr_ans = [], wire = []\<rparr>)"
proof -
  let ?ds = "[RData (replicate 1024 CHR ''A'')]"
  have clean: "rd_clean ?ds" by (simp add: rd_clean_def)
  have "rd_skip 1024 ?ds = []"
    using rd_clean_all_skipped [OF clean] by simp
  with accept_request_long_line_faults [of "\<lparr>rd_ans = ?ds, wr_ans = [], wire = []\<rparr>" ?ds "[]"
      "replicate 1024 NUL"] clean
  show ?thesis by (simp add: newline_def BUFFSIZE_def)
qed

text \<open>A first word of \<open>PARTSIZE\<close> characters or more overruns the array \<open>method\<close>.\<close>

theorem accept_request_long_method_faults:
  assumes "rd_ans c = ds @ es" "rd_clean ds" "rd_bytes ds = line @ newline # rest"
    and "newline \<notin> set line" "length line + 2 \<le> BUFFSIZE" "line = w @ xs"
    and "length w = PARTSIZE" "\<forall>x \<in> set w. \<not> isspace x"
    and "length buf0 = BUFFSIZE" "length method0 = PARTSIZE"
  shows "accept_request stat buf0 method0 url0 localPath c =
    (Fault, c\<lparr>rd_ans := rd_skip (length line + 1) ds @ es\<rparr>)"
proof -
  have "line \<noteq> []" using assms(6,7) by (auto simp: PARTSIZE_def)
  note rd = read_line_again_line [OF assms(1-4) this assms(5,9)]
  have "split_request (line @ newline # NUL # drop (length line + 2) buf0) method0 url0 = Fault"
    using split_request_method_overruns [OF assms(8) _ assms(10),
        of "xs @ newline # NUL # drop (length line + 2) buf0"] assms(6,7) by simp
  with rd show ?thesis by (simp add: accept_request_def)
qed

theorem accept_request_long_method_faults_witness:
  "accept_request (\<lambda>_. None) (replicate 1024 NUL) (replicate 512 NUL) (replicate 512 NUL) []
     \<lparr>rd_ans = [RData (replicate 512 CHR ''A''), RData [newline]], wr_ans = [], wire = []\<rparr> =
   (Fault, \<lparr>rd_ans = [], wr_ans = [], wire = []\<rparr>)"
proof -
  let ?w = "replicate 512 CHR ''A''"
  let ?ds = "[RData ?w, RData [newline]]"
  let ?c = "\<lparr>rd_ans = ?ds, wr_ans = [], wire = []\<rparr>"
  have clean: "rd_clean ?ds" by (simp add: rd_clean_def)
  have "rd_skip (length ?w + 1) ?ds = []"
    using rd_clean_all_skipped [OF clean] by simp
  with accept_request_long_method_faults [of ?c ?ds "[]" ?w "[]" ?w "[]" "replicate 1024 NUL"
      "replicate 512 NUL"] clean
  show ?thesis by (simp add: newline_def BUFFSIZE_def PARTSIZE_def isspace_def)
qed

text \<open>A request line of one word: the URL is looked for behind the end of the string, in what the
  stack held before. Without white space there, the array \<open>url\<close> is overrun.\<close>

theorem accept_request_no_url_faults:
  assumes "rd_ans c = ds @ es" "rd_clean ds" "rd_bytes ds = w @ newline # rest"
    and "\<forall>x \<in> set w. \<not> isspace x" "w \<noteq> []" "length w + 1 + PARTSIZE < BUFFSIZE" "length w < PARTSIZE"
    and "length buf0 = BUFFSIZE" "\<forall>x \<in> set buf0. \<not> isspace x"
    and "length method0 = PARTSIZE" "length url0 = PARTSIZE"
  shows "accept_request stat buf0 method0 url0 localPath c =
    (Fault, c\<lparr>rd_ans := rd_skip (length w + 1) ds @ es\<rparr>)"
proof -
  have nl: "newline \<notin> set w" using assms(4) by auto
  have "length w + 2 \<le> BUFFSIZE" using assms(6) by (simp add: PARTSIZE_def)
  note rd = read_line_again_line [OF assms(1-3) nl assms(5) this assms(8)]
  let ?g = "NUL # drop (length w + 2) buf0"
  let ?buf = "w @ newline # ?g"
  have "\<forall>x \<in> set ?g. \<not> isspace x"
    using assms(9) by (auto dest: in_set_dropD)
  then have g: "\<forall>x \<in> set (take PARTSIZE ?g). \<not> isspace x"
    by (meson in_set_takeD)
  have lg: "PARTSIZE < length ?g" using assms(6,8) by simp
  have 1: "scan_word ?buf 0 method0 0 = Ret (length w, length w, w @ drop (length w) method0)"
    using scan_word_text [OF assms(4), of newline 0 method0 "[]" ?g] assms(7,10) by simp
  have 2: "skip_space ?buf (length w) = Ret (length w + 1)"
    using skip_space_text [of "[newline]" NUL w "drop (length w + 2) buf0"] assms(6) by simp
  obtain u' where 3: "scan_word ((w @ [newline]) @ take PARTSIZE ?g @ drop PARTSIZE ?g)
      (length (w @ [newline])) url0 0 =
      Ret (length (w @ [newline]) + length (take PARTSIZE ?g), PARTSIZE, u')" "length u' = PARTSIZE"
    using scan_word_full [OF g, of 0 url0 "drop PARTSIZE ?g" "w @ [newline]"] assms(11) lg by auto
  then have 3: "scan_word ?buf (length w + 1) url0 0 =
      Ret (length w + 1 + length (take PARTSIZE ?g), PARTSIZE, u')" "length u' = PARTSIZE"
    by (simp_all only: append_take_drop_id) simp_all
  have "mem_store u' (int PARTSIZE) [NUL] = None"
    using 3(2) by (simp add: mem_store_nat)
  with 3 have "split_request ?buf method0 url0 = Fault"
    unfolding split_request_def 1 2 3 cres.case prod.case by (simp split: option.split)
  with rd show ?thesis by (simp add: accept_request_def)
qed

theorem accept_request_no_url_faults_witness:
  "accept_request (\<lambda>_. None) (replicate 1024 NUL) (replicate 512 NUL) (replicate 512 NUL) []
     \<lparr>rd_ans = [RData ''GET'', RData [newline]], wr_ans = [], wire = []\<rparr> =
   (Fault, \<lparr>rd_ans = [], wr_ans = [], wire = []\<rparr>)"
  using accept_request_no_url_faults [of "\<lparr>rd_ans = [RData ''GET'', RData [newline]], wr_ans = [], wire = []\<rparr>"
      "[RData ''GET'', RData [newline]]" "[]" "''GET''" "[]" "replicate 1024 NUL" "replicate 512 NUL"
      "replicate 512 NUL"]
  by (simp add: rd_clean_def BUFFSIZE_def PARTSIZE_def isspace_def NUL_def)

end
