(* ===== verification/HttpResponse.thy ===== *)
theory HttpResponse
  imports HttpRequest
begin

text \<open>
  The answering side of http_module/http_module.h: the pages (\<open>response_ok\<close> to \<open>bad_http\<close>), the
  dispatch \<open>http_module_handler_response\<close> and the request handler
  \<open>http_module_handler_request\<close>.

  A page is a sequence of texts. Each one is written into the function's stack array and sent,
  with the length of the string (\<open>strlen(buf)\<close>) or of the whole array (\<open>sizeof(buf)\<close>); results of
  the sends are not looked at. What the array held before is the argument \<open>buf0\<close>.
\<close>

definition SERVER_TYPE :: bytes where
  "SERVER_TYPE = ''httpd of file get and sent system''"

definition crlf :: bytes where
  "crlf = [CHR 0x0D, newline]"

section \<open>Sending a page\<close>

datatype extent = Strlen | Sizeof

primrec extent_len :: "extent \<Rightarrow> bytes \<Rightarrow> nat" where
  "extent_len Strlen buf = length (takeWhile (\<lambda>x. x \<noteq> NUL) buf)"
| "extent_len Sizeof buf = length buf"

definition send_piece ::
  "(bytes \<Rightarrow> nat \<Rightarrow> (conn, int) prog) \<Rightarrow> extent \<Rightarrow> bytes \<Rightarrow> bytes \<Rightarrow> (conn, bytes) prog" where
  "send_piece snd_buf ext txt buf = (case store_string buf txt of
      None \<Rightarrow> sfault
    | Some buf' \<Rightarrow> sbind (snd_buf buf' (extent_len ext buf')) (\<lambda>_. sret buf'))"

primrec send_pieces ::
  "(bytes \<Rightarrow> nat \<Rightarrow> (conn, int) prog) \<Rightarrow> extent \<Rightarrow> bytes list \<Rightarrow> bytes \<Rightarrow> (conn, bytes) prog" where
  "send_pieces snd_buf ext [] buf = sret buf"
| "send_pieces snd_buf ext (t # ts) buf =
     sbind (send_piece snd_buf ext t buf) (send_pieces snd_buf ext ts)"

section \<open>The pages\<close>

definition response_ok_text :: "bytes list" where
  "response_ok_text =
    [''HTTP/1.0 200 OK'' @ crlf, SERVER_TYPE, ''Content-Type: text/html'' @ crlf, crlf]"

definition response_ok :: "bytes \<Rightarrow> (conn, bytes) prog" where
  "response_ok = send_pieces http_send Strlen response_ok_text"

definition unknow_text :: "bytes list" where
  "unknow_text =
    [''HTTP/1.0 404 NOT FOUND'' @ crlf, SERVER_TYPE, ''Content-Type: text/html'' @ crlf, crlf,
     ''<HTML><TITLE>Not Found</TITLE>'' @ crlf, ''<BODY><P>The server could not fulfill'' @ crlf,
     ''your request because the resource specified'' @ crlf,
     ''is unavailable or nonexistent.'' @ crlf, ''</BODY></HTML>'' @ crlf]"

definition unknow :: "bytes \<Rightarrow> (conn, bytes) prog" where
  "unknow = send_pieces http_send Strlen unknow_text"

definition error_method_text :: "bytes list" where
  "error_method_text =
    [''HTTP/1.0 501 Method Not Implemented'' @ crlf, SERVER_TYPE,
     ''Content-Type: text/html'' @ crlf, crlf, ''<HTML><HEAD><TITLE>Method Not Implemented'' @ crlf,
     ''</TITLE></HEAD>'' @ crlf, ''<BODY><P>HTTP request method not supported.'' @ crlf,
     ''</BODY></HTML>'' @ crlf]"

definition error_method :: "bytes \<Rightarrow> (conn, bytes) prog" where
  "error_method = send_pieces raw_send Strlen error_method_text"

definition bad_request_text :: "bytes list" where
  "bad_request_text =
    [''HTTP/1.0 400 BAD REQUEST'' @ crlf, ''Content-type: text/html'' @ crlf, crlf,
     ''<P>Your browser sent a bad request, '', ''such as a POST without a Content-Length.'' @ crlf]"

definition bad_request :: "bytes \<Rightarrow> (conn, bytes) prog" where
  "bad_request = send_pieces http_send Sizeof bad_request_text"

definition Conti_request_text :: "bytes list" where
  "Conti_request_text =
    [''HTTP/1.0 100 REQUEST not full'' @ crlf, ''Content-type: text/html'' @ crlf, crlf,
     ''<P>Your browser sent a missing data, '', ''such as a POST without a Content-Length.'' @ crlf]"

definition Conti_request :: "bytes \<Rightarrow> (conn, bytes) prog" where
  "Conti_request = send_pieces http_send Sizeof Conti_request_text"

definition wrong_path_text :: "bytes list" where
  "wrong_path_text =
    [''HTTP/1.0 303 BAD PATH'' @ crlf, ''Content-type: text/html'' @ crlf, crlf,
     ''<P>Your browser sent a wrong localpath, '',
     ''such as a POST without a Content-Length.'' @ crlf]"

definition wrong_path :: "bytes \<Rightarrow> (conn, bytes) prog" where
  "wrong_path = send_pieces http_send Sizeof wrong_path_text"

definition toolongUrl_text :: "bytes list" where
  "toolongUrl_text =
    [''HTTP/1.0 411 BAD REQUEST'' @ crlf, ''Content-type: text/html'' @ crlf, crlf,
     ''<P>Your browser sent a so long request that cant read full, '',
     ''such as a POST without a Content-Length.'' @ crlf]"

definition toolongUrl :: "bytes \<Rightarrow> (conn, bytes) prog" where
  "toolongUrl = send_pieces http_send Sizeof toolongUrl_text"

definition bad_http_text :: "bytes list" where
  "bad_http_text =
    [''HTTP/1.0 505 BAD REQUEST'' @ crlf, ''Content-type: text/html'' @ crlf, crlf,
     ''<P>Your http is not fit, '', ''such as a POST without a Content-Length.'' @ crlf]"

definition bad_http :: "bytes \<Rightarrow> (conn, bytes) prog" where
  "bad_http = send_pieces http_send Sizeof bad_http_text"

section \<open>What the pages put on the wire\<close>

definition piece_ok :: "bytes \<Rightarrow> bool" where
  "piece_ok t \<longleftrightarrow> t \<noteq> [] \<and> NUL \<notin> set t \<and> length t < 1024"

text \<open>With \<open>sizeof\<close>, every text is followed by a NUL and what the array holds behind it.\<close>

primrec frames :: "bytes list \<Rightarrow> bytes \<Rightarrow> bytes" where
  "frames [] buf = []"
| "frames (t # ts) buf = as_string buf t @ frames ts (as_string buf t)"

lemma length_as_string [simp]: "length txt < length m \<Longrightarrow> length (as_string m txt) = length m"
  by (simp add: as_string_def)

lemma extent_len_Strlen: "NUL \<notin> set t \<Longrightarrow> extent_len Strlen (as_string buf t) = length t"
  by (simp add: as_string_def takeWhile_append)

lemma send_piece_ok:
  assumes "piece_ok t" "length buf = 1024"
  shows "send_piece snd_buf ext t buf =
    sbind (snd_buf (as_string buf t) (case ext of Strlen \<Rightarrow> length t | Sizeof \<Rightarrow> 1024))
      (\<lambda>_. sret (as_string buf t))"
  using assms by (simp add: send_piece_def store_string_fits piece_ok_def as_string_def [symmetric]
      extent_len_Strlen del: extent_len.simps(1) split: extent.split)

context full_sender
begin

lemma pieces_strlen:
  assumes "ready (length (concat ts)) c" "list_all piece_ok ts" "length buf = 1024"
  shows "\<exists>buf' c'. send_pieces snd_buf Strlen ts buf c = (Ret buf', c')
    \<and> wire c' = wire c @ concat ts \<and> rd_ans c' = rd_ans c"
  using assms
proof (induction ts arbitrary: buf c)
  case Nil
  then show ?case by (simp add: sret_def)
next
  case (Cons t ts)
  have t: "0 < length t" "length t < length buf" using Cons.prems by (auto simp: piece_ok_def)
  obtain c1 where c1: "snd_buf (as_string buf t) (length t) c = (Ret (int (length t)), c1)"
    "wire c1 = wire c @ t" "rd_ans c1 = rd_ans c" "ready (length (concat ts)) c1"
    using send_full [of "length t" "length (concat ts)" c "as_string buf t"] Cons.prems(1,3) t
    by (auto simp: as_string_def)
  have "send_pieces snd_buf Strlen (t # ts) buf c = send_pieces snd_buf Strlen ts (as_string buf t) c1"
    using Cons.prems c1(1) by (simp add: send_piece_ok sbind_def sret_def)
  moreover have "length (as_string buf t) = 1024" using t Cons.prems(3) by simp
  ultimately show ?case
    using Cons.IH [OF c1(4), of "as_string buf t"] c1(2,3) Cons.prems(2) by simp
qed

lemma pieces_sizeof:
  assumes "ready (length ts * 1024) c" "list_all piece_ok ts" "length buf = 1024"
  shows "\<exists>buf' c'. send_pieces snd_buf Sizeof ts buf c = (Ret buf', c')
    \<and> wire c' = wire c @ frames ts buf \<and> rd_ans c' = rd_ans c"
  using assms
proof (induction ts arbitrary: buf c)
  case Nil
  then show ?case by (simp add: sret_def)
next
  case (Cons t ts)
  have t: "length (as_string buf t) = 1024" using Cons.prems by (auto simp: piece_ok_def)
  obtain c1 where c1: "snd_buf (as_string buf t) 1024 c = (Ret 1024, c1)"
    "wire c1 = wire c @ as_string buf t" "rd_ans c1 = rd_ans c" "ready (length ts * 1024) c1"
    using send_full [of 1024 "length ts * 1024" c "as_string buf t"] Cons.prems(1) t by auto
  have "send_pieces snd_buf Sizeof (t # ts) buf c = send_pieces snd_buf Sizeof ts (as_string buf t) c1"
    using Cons.prems c1(1) by (simp add: send_piece_ok sbind_def sret_def)
  then show ?case
    using Cons.IH [OF c1(4) _ t] c1(2,3) Cons.prems(2) by simp
qed

end

context sender
begin

text \<open>Whatever the kernel does, a page does not leave its array, and each text contributes a
  prefix of what was to be sent for it.\<close>

lemma pieces_safe:
  assumes "list_all piece_ok ts" "length buf = 1024" "send_pieces snd_buf Strlen ts buf c = (r, c')"
  shows "(r = Wait \<or> (\<exists>buf'. r = Ret buf' \<and> length buf' = 1024)) \<and> rd_ans c' = rd_ans c
    \<and> (\<exists>xs. wire c' = wire c @ concat xs \<and> length xs \<le> length ts
          \<and> list_all2 prefix xs (take (length xs) ts))"
  using assms
proof (induction ts arbitrary: buf c)
  case Nil
  then show ?case by (auto simp: sret_def)
next
  case (Cons t ts)
  have t: "length (as_string buf t) = 1024" "length t < 1024"
    using Cons.prems by (auto simp: piece_ok_def)
  obtain q c1 where q: "snd_buf (as_string buf t) (length t) c = (q, c1)"
    by (metis prod.exhaust)
  have "length t \<le> length (as_string buf t)" "length (as_string buf t) < 2 ^ 31"
    using t by simp_all
  from send_prefix [OF this q] send_safe [OF this q] obtain k where
    k: "k \<le> length t" "wire c1 = wire c @ take k (as_string buf t)" "rd_ans c1 = rd_ans c"
    and qr: "q = Wait \<or> (\<exists>j. q = Ret j)" by auto
  have w: "wire c1 = wire c @ take k t" "prefix (take k t) t"
    using k by (simp_all add: as_string_def take_is_prefix)
  show ?case
  proof (cases q)
    case (Ret j)
    then have "send_pieces snd_buf Strlen ts (as_string buf t) c1 = (r, c')"
      using Cons.prems q by (simp add: send_piece_ok sbind_def sret_def)
    from Cons.IH [OF _ t(1) this] Cons.prems(1) obtain xs where
      IH: "r = Wait \<or> (\<exists>buf'. r = Ret buf' \<and> length buf' = 1024)" "rd_ans c' = rd_ans c1"
      "wire c' = wire c1 @ concat xs" "length xs \<le> length ts" "list_all2 prefix xs (take (length xs) ts)"
      by auto
    with w k(3) show ?thesis by (auto intro!: exI [of _ "take k t # xs"])
  next
    case Wait
    then have "r = Wait" "c' = c1"
      using Cons.prems q by (simp_all add: send_piece_ok sbind_def)
    with w k(3) show ?thesis by (auto intro!: exI [of _ "[take k t]"])
  qed (use qr in auto)
qed

end

section \<open>http_module_handler_response\<close>

text \<open>
  The handler works on two descriptors: the client's and the one of the file it opens. \<open>fdopens\<close>
  counts the calls of \<open>fdopen\<close> and \<open>closed\<close> lists the descriptors closed, in order.
\<close>

record server_st =
  client :: conn
  filec :: conn
  fdopens :: nat
  closed :: "int list"

definition on_client :: "(conn, 'a) prog \<Rightarrow> (server_st, 'a) prog" where
  "on_client m s = (case m (client s) of (r, c') \<Rightarrow> (r, s\<lparr>client := c'\<rparr>))"

definition on_file :: "(conn, 'a) prog \<Rightarrow> (server_st, 'a) prog" where
  "on_file m s = (case m (filec s) of (r, c') \<Rightarrow> (r, s\<lparr>filec := c'\<rparr>))"

definition close_fd :: "int \<Rightarrow> (server_st, unit) prog" where
  "close_fd fd = smod (\<lambda>s. s\<lparr>closed := closed s @ [fd]\<rparr>)"

lemma http_rcv_loop_size:
  "http_rcv_loop n p buf c = (Ret x, c') \<Longrightarrow> 0 < n \<Longrightarrow> rd_size (rd_ans c') < rd_size (rd_ans c)"
proof (induction n p buf c rule: http_rcv_loop.induct)
  case (1 n p buf c)
  obtain r c1 where s: "sys_read (nat n) c = (r, c1)" by (metis prod.exhaust)
  show ?case
  proof (cases r)
    case (Ret y)
    have lt: "rd_size (rd_ans c1) < rd_size (rd_ans c)"
      using s Ret \<open>0 < n\<close> by (auto simp: sys_read_def split: list.splits rd.splits if_splits)
    obtain b where b: "mem_store buf (int p) (rd_data y) = Some b"
      using "1.prems" s Ret by (auto simp: http_rcv_loop.simps [of n] split: option.splits)
    show ?thesis
    proof (cases "rd_errno y = Some EINTR")
      case True
      with "1.prems" s Ret b have "http_rcv_loop n p b c1 = (Ret x, c')"
        by (simp add: http_rcv_loop.simps [of n p buf] c_bool_def c_true_def)
      with "1.IH"(1) [OF _ s [symmetric] Ret b refl _ True] "1.prems"(2) True lt show ?thesis
        by (simp add: c_bool_def c_true_def)
    next
      case False
      with "1.prems" s Ret b lt show ?thesis
        by (auto simp: http_rcv_loop.simps [of n p buf] c_bool_def c_true_def Let_def split: if_splits)
    qed
  qed (use 1 s in \<open>simp_all add: http_rcv_loop.simps [of n]\<close>)
qed

text \<open>\<open>while (read_cnt = http_rcv(fd,buf,BUFFSIZE) == -1) continue;\<close> --- here \<open>read_cnt\<close> is the
  truth value of the comparison.\<close>

function rcv_again :: "bytes \<Rightarrow> (conn, bytes) prog" where
  "rcv_again buf c =
     (case http_rcv buf BUFFSIZE c of
        (Ret (r, buf'), c') \<Rightarrow>
          (let read_cnt = c_bool (r = - 1)
           in if c_true read_cnt then rcv_again buf' c' else (Ret buf', c'))
      | (Exit, c') \<Rightarrow> (Exit, c')
      | (Wait, c') \<Rightarrow> (Wait, c')
      | (Fault, c') \<Rightarrow> (Fault, c'))"
  by pat_completeness auto
termination
  by (relation "measure (\<lambda>(buf, c). rd_size (rd_ans c))")
    (auto simp: http_rcv_def BUFFSIZE_def unix_arith dest!: http_rcv_loop_size [OF sym])

declare rcv_again.simps [simp del]

lemma rcv_again_size:
  "rcv_again buf c = (Ret x, c') \<Longrightarrow> rd_size (rd_ans c') < rd_size (rd_ans c)"
proof (induction buf c rule: rcv_again.induct)
  case (1 buf c)
  obtain q c1 where q: "http_rcv buf BUFFSIZE c = (q, c1)" by (metis prod.exhaust)
  show ?case
  proof (cases q)
    case (Ret y)
    obtain r b where y: "y = (r, b)" by (metis prod.exhaust)
    have lt: "rd_size (rd_ans c1) < rd_size (rd_ans c)"
      using q Ret by (auto simp: http_rcv_def BUFFSIZE_def unix_arith dest: http_rcv_loop_size)
    show ?thesis
    proof (cases "r = - 1")
      case True
      with 1 q Ret y show ?thesis
        by (auto simp: rcv_again.simps [of buf] Let_def c_bool_def c_true_def
            intro: less_trans [OF _ lt])
    next
      case False
      with 1 q Ret y lt show ?thesis
        by (auto simp: rcv_again.simps [of buf] Let_def c_bool_def c_true_def)
    qed
  qed (use 1 q in \<open>simp_all add: rcv_again.simps [of buf]\<close>)
qed

text \<open>\<open>while ((write_cnt = http_send(clientfd,buf,BUFFSIZE)) == -1) continue;\<close>\<close>

lemma http_send_loop_failed:
  "http_send_loop buf n p c = (Ret (- 1), c') \<Longrightarrow> length (wr_ans c') < length (wr_ans c)"
proof (induction buf n p c rule: http_send_loop.induct)
  case (1 buf n p c)
  show ?case
  proof (cases "0 < n")
    case True
    obtain d where d: "mem_load buf (int p) (nat n) = Some d"
      using 1(3) True by (auto simp: http_send_loop.simps [of buf n] split: option.splits)
    obtain q c1 where q: "sys_send d c = (q, c1)" by (metis prod.exhaust)
    show ?thesis
    proof (cases q)
      case (Ret y)
      have lt: "length (wr_ans c1) < length (wr_ans c)"
        using sys_send_size [of y c1 d c] q Ret by simp
      show ?thesis
        using 1 True d q Ret lt
        by (auto simp: http_send_loop.simps [of buf n p c] split: sum.splits if_splits
            intro: less_trans [OF _ lt])
    qed (use 1(3) True d q in \<open>simp_all add: http_send_loop.simps [of buf n]\<close>)
  qed (use 1(3) in \<open>simp add: http_send_loop.simps [of buf n]\<close>)
qed

function send_again :: "bytes \<Rightarrow> (conn, unit) prog" where
  "send_again buf c =
     (case http_send buf BUFFSIZE c of
        (Ret write_cnt, c') \<Rightarrow>
          (if write_cnt = - 1 then send_again buf c' else (Ret (), c'))
      | (Exit, c') \<Rightarrow> (Exit, c')
      | (Wait, c') \<Rightarrow> (Wait, c')
      | (Fault, c') \<Rightarrow> (Fault, c'))"
  by pat_completeness auto
termination
  by (relation "measure (\<lambda>(buf, c). length (wr_ans c))")
    (auto simp: http_send_def dest!: http_send_loop_failed [OF sym])

declare send_again.simps [simp del]

text \<open>
  The copying loop. Every round opens a new stream on the descriptor, which has not met the end of
  the file, so \<open>feof\<close> is false for it; when \<open>fdopen\<close> fails, \<open>feof\<close> is applied to \<open>NULL\<close>.
  \<open>fdopen fd k\<close> says whether the \<open>k\<close>-th call succeeds.
\<close>

function file_loop :: "(int \<Rightarrow> nat \<Rightarrow> bool) \<Rightarrow> int \<Rightarrow> bytes \<Rightarrow> (server_st, unit) prog" where
  "file_loop fdopen fd buf s =
     (if \<not> fdopen fd (fdopens s) then (Fault, s\<lparr>fdopens := fdopens s + 1\<rparr>)
      else
        (case on_file (rcv_again buf) (s\<lparr>fdopens := fdopens s + 1\<rparr>) of
           (Ret buf', s1) \<Rightarrow>
             (case on_client (send_again buf') s1 of
                (Ret _, s2) \<Rightarrow> file_loop fdopen fd buf' s2
              | (Exit, s2) \<Rightarrow> (Exit, s2)
              | (Wait, s2) \<Rightarrow> (Wait, s2)
              | (Fault, s2) \<Rightarrow> (Fault, s2))
         | (Exit, s1) \<Rightarrow> (Exit, s1)
         | (Wait, s1) \<Rightarrow> (Wait, s1)
         | (Fault, s1) \<Rightarrow> (Fault, s1)))"
  by pat_completeness auto
termination
  by (relation "measure (\<lambda>(fdopen, fd, buf, s). rd_size (rd_ans (filec s)))")
    (auto simp: on_file_def on_client_def split: prod.splits dest: rcv_again_size)

declare file_loop.simps [simp del]

definition http_module_handler_response ::
  "(bytes \<Rightarrow> int) \<Rightarrow> (int \<Rightarrow> nat \<Rightarrow> bool) \<Rightarrow> bytes \<Rightarrow> int \<Rightarrow> bytes \<Rightarrow> int \<Rightarrow> int \<Rightarrow> (server_st, unit) prog"
where
  "http_module_handler_response open_file fdopen buf0 fd0 filename clientfd flag =
     sbind
       (if flag = HTTP_SUCCESS then
          (let fd = open_file filename
           in sseq (on_client (response_ok buf0))
                (sseq (file_loop fdopen fd (replicate BUFFSIZE NUL)) (sret fd)))
        else if flag = HTTP_ERROR_NOT_FIND then sseq (on_client (unknow buf0)) (sret fd0)
        else if flag = HTTP_ERROR_METHOD then sseq (on_client (error_method buf0)) (sret fd0)
        else if flag = HTTP_ERROR_REQUEST then sseq (on_client (wrong_path buf0)) (sret fd0)
        else sret fd0)
       (\<lambda>fd. sseq (close_fd fd) (close_fd clientfd))"

section \<open>http_module_handler_request\<close>

text \<open>\<open>accept_request\<close> reads the client's descriptor; \<open>filename\<close> is a zeroed array.\<close>

definition http_module_handler_request ::
  "(bytes \<Rightarrow> bool option) \<Rightarrow> (bytes \<Rightarrow> int) \<Rightarrow> (int \<Rightarrow> nat \<Rightarrow> bool) \<Rightarrow>
   bytes \<Rightarrow> bytes \<Rightarrow> bytes \<Rightarrow> int \<Rightarrow> int \<Rightarrow> (server_st, unit) prog" where
  "http_module_handler_request stat open_file fdopen buf0 method0 url0 fd0 clientfd =
     sbind (on_client (accept_request stat buf0 method0 url0 (replicate BUFFSIZE NUL)))
       (\<lambda>(ret_errno, filename).
          case c_string filename of
            None \<Rightarrow> sfault
          | Some name \<Rightarrow>
              if ret_errno = HTTP_ERROR_METHOD then
                http_module_handler_response open_file fdopen buf0 fd0 name clientfd HTTP_ERROR_METHOD
              else if ret_errno = HTTP_SUCCESS then
                http_module_handler_response open_file fdopen buf0 fd0 name clientfd HTTP_SUCCESS
              else if ret_errno = HTTP_ERROR_NOT_FIND then
                http_module_handler_response open_file fdopen buf0 fd0 name clientfd HTTP_ERROR_NOT_FIND
              else if ret_errno = HTTP_ERROR_REQUEST then
                http_module_handler_response open_file fdopen buf0 fd0 name clientfd HTTP_ERROR_REQUEST
              else sret ())"

section \<open>What the pages do\<close>

lemmas page_text_defs = response_ok_text_def unknow_text_def error_method_text_def
  bad_request_text_def Conti_request_text_def wrong_path_text_def toolongUrl_text_def
  bad_http_text_def

lemma piece_ok_chars [simp]: "newline \<noteq> NUL" "CHR 0x0D \<noteq> NUL" "NUL \<noteq> newline" "NUL \<noteq> CHR 0x0D"
  by (simp_all add: newline_def NUL_def)

lemma NUL_literal: "NUL = CHR 0x00"
  by (rule NUL_def)

lemma texts_ok:
  "list_all piece_ok response_ok_text" "list_all piece_ok unknow_text"
  "list_all piece_ok error_method_text" "list_all piece_ok bad_request_text"
  "list_all piece_ok Conti_request_text" "list_all piece_ok wrong_path_text"
  "list_all piece_ok toolongUrl_text" "list_all piece_ok bad_http_text"
  by (simp_all add: page_text_defs piece_ok_def crlf_def SERVER_TYPE_def NUL_def newline_def)

text \<open>The pages that are sent with \<open>strlen\<close>, against every behaviour of the kernel: they stay in
  their array and each of their texts contributes a prefix of itself to the wire.\<close>

text \<open>
  C35: Against every behaviour of the kernel the strlen pages never leave their array, and
  each of their texts puts a prefix of itself on the wire, in order.
\<close>

theorem pages_stay_in_bounds:
  assumes "(page, ts) \<in> {(response_ok, response_ok_text), (unknow, unknow_text),
      (error_method, error_method_text)}" "length buf0 = BUFFSIZE" "page buf0 c = (r, c')"
  shows "r \<noteq> Fault \<and> (\<exists>xs. wire c' = wire c @ concat xs \<and> length xs \<le> length ts
    \<and> list_all2 prefix xs (take (length xs) ts))"
proof -
  consider "send_pieces http_send Strlen ts buf0 c = (r, c')" | "send_pieces raw_send Strlen ts buf0 c = (r, c')"
    using assms(1,3) by (auto simp: response_ok_def unknow_def error_method_def)
  moreover have ts: "list_all piece_ok ts" using assms(1) texts_ok by auto
  moreover have b: "length buf0 = 1024" using assms(2) by (simp add: BUFFSIZE_def)
  ultimately show ?thesis
    using http_send.pieces_safe [OF ts b] raw_send.pieces_safe [OF ts b] by cases fastforce+
qed

theorem pages_stay_in_bounds_witness:
  "case response_ok (replicate 1024 NUL) \<lparr>rd_ans = [], wr_ans = [WAccept 4, WErr EPIPE, WAccept 2], wire = []\<rparr> of
     (r, c') \<Rightarrow> r \<noteq> Fault \<and> (\<exists>xs. wire c' = concat xs \<and> length xs \<le> length response_ok_text
       \<and> list_all2 prefix xs (take (length xs) response_ok_text))"
proof -
  let ?c = "\<lparr>rd_ans = [], wr_ans = [WAccept 4, WErr EPIPE, WAccept 2], wire = []\<rparr>"
  obtain r c' where "response_ok (replicate 1024 NUL) ?c = (r, c')" by (metis prod.exhaust)
  with pages_stay_in_bounds [of response_ok response_ok_text "replicate 1024 NUL" ?c r c'] show ?thesis
    by (simp add: BUFFSIZE_def)
qed

text \<open>The pages that are sent with \<open>sizeof\<close>: 1024 bytes for each text, most of them what the stack
  held before.\<close>

theorem pages_send_stack_bytes:
  assumes "(page, t, ts) \<in> {(bad_request, ''HTTP/1.0 400 BAD REQUEST'', bad_request_text),
      (Conti_request, ''HTTP/1.0 100 REQUEST not full'', Conti_request_text),
      (wrong_path, ''HTTP/1.0 303 BAD PATH'', wrong_path_text),
      (toolongUrl, ''HTTP/1.0 411 BAD REQUEST'', toolongUrl_text),
      (bad_http, ''HTTP/1.0 505 BAD REQUEST'', bad_http_text)}"
    and "length buf0 = BUFFSIZE" "kernel_takes 1 (5 * BUFFSIZE) c"
  shows "\<exists>buf c' rest. page buf0 c = (Ret buf, c')
    \<and> wire c' = wire c @ t @ crlf @ NUL # drop (length t + 3) buf0 @ rest
    \<and> length (wire c') = length (wire c) + 5 * BUFFSIZE"
proof -
  have len: "length ts = 5" "list_all piece_ok ts" "page = send_pieces http_send Sizeof ts"
    "\<exists>ts'. ts = (t @ crlf) # ts'"
    using assms(1) texts_ok
    by (auto simp: bad_request_def Conti_request_def wrong_path_def toolongUrl_def bad_http_def)
      (auto simp: page_text_defs crlf_def)
  have b: "length buf0 = 1024" using assms(2) by (simp add: BUFFSIZE_def)
  have frames_len: "length (frames ts b) = length ts * 1024"
    if "list_all piece_ok ts" "length b = 1024" for ts b
    using that by (induction ts arbitrary: b) (auto simp: piece_ok_def)
  obtain ts' where "ts = (t @ crlf) # ts'" using len(4) by blast
  then have "frames ts buf0 =
      t @ crlf @ NUL # drop (length t + 3) buf0 @ frames ts' (as_string buf0 (t @ crlf))"
    by (simp add: as_string_def crlf_def numeral_eq_Suc)
  with http_send.pieces_sizeof [OF _ len(2) b, of c] len(1,3) assms(3) frames_len [OF len(2) b]
  show ?thesis by (auto simp: BUFFSIZE_def)
qed

theorem pages_send_stack_bytes_witness:
  "\<exists>buf c' rest. wrong_path (replicate 1024 CHR ''k'')
       \<lparr>rd_ans = [], wr_ans = replicate 5120 (WAccept 1), wire = []\<rparr> = (Ret buf, c')
     \<and> wire c' = ''HTTP/1.0 303 BAD PATH'' @ crlf @ NUL # replicate 1000 CHR ''k'' @ rest"
  using pages_send_stack_bytes [of wrong_path "''HTTP/1.0 303 BAD PATH''" wrong_path_text
      "replicate 1024 CHR ''k''" "\<lparr>rd_ans = [], wr_ans = replicate 5120 (WAccept 1), wire = []\<rparr>"]
  by (simp add: BUFFSIZE_def kernel_takes_def list_all_iff) blast

section \<open>What the handlers do\<close>

lemma on_client_eq: "m (client s) = (r, c') \<Longrightarrow> on_client m s = (r, s\<lparr>client := c'\<rparr>)"
  by (simp add: on_client_def)

text \<open>The 404 page and the 501 page, and what is closed.\<close>

theorem handler_not_found:
  assumes "length buf0 = BUFFSIZE" "kernel_takes 1 (length (concat unknow_text)) (client s)"
  shows "\<exists>c'. http_module_handler_response open_file fdopen buf0 fd0 name clientfd
        HTTP_ERROR_NOT_FIND s = (Ret (), s\<lparr>client := c', closed := closed s @ [fd0, clientfd]\<rparr>)
    \<and> wire c' = wire (client s) @ concat unknow_text"
proof -
  have b: "length buf0 = 1024" using assms(1) by (simp add: BUFFSIZE_def)
  obtain b' c' where c': "unknow buf0 (client s) = (Ret b', c')"
    "wire c' = wire (client s) @ concat unknow_text"
    using http_send.pieces_strlen [OF assms(2) texts_ok(2) b] by (auto simp: unknow_def)
  then show ?thesis
    by (intro exI [of _ c']) (simp add: http_module_handler_response_def http_codes on_client_eq
        sseq_def sbind_def unix_simps close_fd_def)
qed

theorem handler_not_found_witness:
  "\<exists>c'. http_module_handler_response (\<lambda>_. - 1) (\<lambda>_ _. False) (replicate 1024 NUL) 0 [] 7
        HTTP_ERROR_NOT_FIND
        \<lparr>client = \<lparr>rd_ans = [], wr_ans = replicate 1000 (WAccept 1), wire = []\<rparr>,
         filec = \<lparr>rd_ans = [], wr_ans = [], wire = []\<rparr>, fdopens = 0, closed = []\<rparr> =
      (Ret (), \<lparr>client = c', filec = \<lparr>rd_ans = [], wr_ans = [], wire = []\<rparr>, fdopens = 0,
               closed = [0, 7]\<rparr>)
    \<and> wire c' = concat unknow_text"
proof -
  have "length (concat unknow_text) \<le> 1000"
    by (simp add: unknow_text_def crlf_def SERVER_TYPE_def)
  then have "kernel_takes 1 (length (concat unknow_text))
      \<lparr>rd_ans = [], wr_ans = replicate 1000 (WAccept 1), wire = []\<rparr>"
    by (simp add: kernel_takes_def list_all_iff)
  with handler_not_found [of "replicate 1024 NUL" "\<lparr>client = \<lparr>rd_ans = [],
        wr_ans = replicate 1000 (WAccept 1), wire = []\<rparr>,
      filec = \<lparr>rd_ans = [], wr_ans = [], wire = []\<rparr>, fdopens = 0, closed = []\<rparr>" "\<lambda>_. - 1" "\<lambda>_ _. False" 0 "[]" 7]
  show ?thesis by (simp add: BUFFSIZE_def)
qed

lemma handler_bad_method:
  assumes "length buf0 = BUFFSIZE" "kernel_takes BUFFSIZE (length (concat error_method_text)) (client s)"
  shows "\<exists>c'. http_module_handler_response open_file fdopen buf0 fd0 name clientfd
        HTTP_ERROR_METHOD s = (Ret (), s\<lparr>client := c', closed := closed s @ [fd0, clientfd]\<rparr>)
    \<and> wire c' = wire (client s) @ concat error_method_text"
proof -
  have b: "length buf0 = 1024" and k: "kernel_takes 1024 (length (concat error_method_text)) (client s)"
    using assms by (simp_all add: BUFFSIZE_def)
  obtain b' c' where c': "error_method buf0 (client s) = (Ret b', c')"
    "wire c' = wire (client s) @ concat error_method_text"
    using raw_send.pieces_strlen [OF k texts_ok(3) b] by (auto simp: error_method_def)
  then show ?thesis
    by (intro exI [of _ c']) (simp add: http_module_handler_response_def http_codes on_client_eq
        sseq_def sbind_def unix_simps close_fd_def)
qed

text \<open>The copying loop has no way out: for every file, every client and every \<open>fdopen\<close> the handler
  of a successful request does not return, and closes nothing.\<close>

lemma file_loop_stuck:
  "file_loop fdopen fd buf s = (r, s') \<Longrightarrow> r \<noteq> Ret () \<and> closed s' = closed s"
proof (induction fdopen fd buf s rule: file_loop.induct)
  case (1 fdopen fd buf s)
  show ?case
  proof (cases "fdopen fd (fdopens s)")
    case True
    obtain q s1 where q: "on_file (rcv_again buf) (s\<lparr>fdopens := fdopens s + 1\<rparr>) = (q, s1)"
      by (metis prod.exhaust)
    have s1: "closed s1 = closed s" using q by (auto simp: on_file_def split: prod.splits)
    show ?thesis
    proof (cases q)
      case (Ret b)
      obtain q2 s2 where q2: "on_client (send_again b) s1 = (q2, s2)" by (metis prod.exhaust)
      have s2: "closed s2 = closed s" using q2 s1 by (auto simp: on_client_def split: prod.splits)
      show ?thesis
      proof (cases q2)
        case [simp]: (Ret u)
        have "file_loop fdopen fd b s2 = (r, s')"
          using 1(2) True q \<open>q = Ret b\<close> q2 by (simp add: file_loop.simps [of fdopen fd buf])
        with 1(1) [OF _ q [symmetric] \<open>q = Ret b\<close> q2 [symmetric]] True s2 show ?thesis by simp
      qed (use 1(2) True q Ret q2 s2 in \<open>simp_all add: file_loop.simps [of fdopen fd buf] eq_commute [of r]\<close>)
    qed (use 1(2) True q s1 in \<open>simp_all add: file_loop.simps [of fdopen fd buf] eq_commute [of r]\<close>)
  next
    case False
    with 1(2) show ?thesis by (auto simp: file_loop.simps [of fdopen fd buf])
  qed
qed

text \<open>
  C4: The handler of a successful request never returns, for every file, client, fdopen and
  kernel behaviour: the copying loop has no exit, and neither descriptor is ever closed.
\<close>

theorem handler_success_never_returns:
  "case http_module_handler_response open_file fdopen buf0 fd0 name clientfd HTTP_SUCCESS s of
     (r, s') \<Rightarrow> \<not> returned r \<and> closed s' = closed s"
proof -
  obtain q c1 where q: "response_ok buf0 (client s) = (q, c1)" by (metis prod.exhaust)
  obtain r s' where r: "file_loop fdopen (open_file name) (replicate BUFFSIZE NUL) (s\<lparr>client := c1\<rparr>) = (r, s')"
    by (metis prod.exhaust)
  show ?thesis
    using file_loop_stuck [OF r] r on_client_eq [of "response_ok buf0" s, OF q]
    by (cases q; cases r) (simp_all add: http_module_handler_response_def sseq_def sbind_def Let_def)
qed

text \<open>\<open>recv\<close> on a file that is not a socket fails: then only the header reaches the client.\<close>

lemma rcv_again_errors:
  assumes "list_all (\<lambda>a. \<exists>e. a = RErr e) (rd_ans c)" "length buf = BUFFSIZE"
  shows "rcv_again buf c = (Wait, c\<lparr>rd_ans := []\<rparr>)"
  using assms
proof (induction "length (rd_ans c)" arbitrary: c rule: less_induct)
  case less
  let ?r = "dropWhile (\<lambda>a. a = RErr EINTR) (rd_ans c)"
  note out = http_rcv_eq [of BUFFSIZE buf c]
  show ?case
  proof (cases ?r)
    case Nil
    with out less.prems(2) show ?thesis
      by (subst rcv_again.simps) (simp add: BUFFSIZE_def)
  next
    case (Cons a es)
    have sub: "set ?r \<subseteq> set (rd_ans c)" "length ?r \<le> length (rd_ans c)"
      by (auto dest: set_dropWhileD simp: length_dropWhile_le)
    with Cons less.prems(1) obtain e where a: "a = RErr e" by (auto simp: list_all_iff)
    have "list_all (\<lambda>a. \<exists>e. a = RErr e) es"
      using sub(1) Cons less.prems(1) by (auto simp: list_all_iff)
    then have "rcv_again buf (c\<lparr>rd_ans := es\<rparr>) = (Wait, c\<lparr>rd_ans := []\<rparr>)"
      using less.hyps [of "c\<lparr>rd_ans := es\<rparr>"] less.prems(2) sub(2) Cons by simp
    with out Cons a less.prems(2) show ?thesis
      by (subst rcv_again.simps) (simp add: BUFFSIZE_def c_bool_def c_true_def)
  qed
qed

lemma handler_success_header:
  assumes "length buf0 = BUFFSIZE" "kernel_takes 1 (length (concat response_ok_text)) (client s)"
    and "list_all (\<lambda>a. \<exists>e. a = RErr e) (rd_ans (filec s))" "fdopen (open_file name) (fdopens s)"
  shows "\<exists>s'. http_module_handler_response open_file fdopen buf0 fd0 name clientfd HTTP_SUCCESS s =
      (Wait, s') \<and> wire (client s') = wire (client s) @ concat response_ok_text \<and> closed s' = closed s"
proof -
  have b: "length buf0 = 1024" using assms(1) by (simp add: BUFFSIZE_def)
  obtain b' c' where c': "response_ok buf0 (client s) = (Ret b', c')"
    "wire c' = wire (client s) @ concat response_ok_text"
    using http_send.pieces_strlen [OF assms(2) texts_ok(1) b] by (auto simp: response_ok_def)
  have "file_loop fdopen (open_file name) (replicate BUFFSIZE NUL) (s\<lparr>client := c'\<rparr>) =
      (Wait, s\<lparr>client := c', fdopens := fdopens s + 1, filec := (filec s)\<lparr>rd_ans := []\<rparr>\<rparr>)"
    using rcv_again_errors [OF assms(3), of "replicate BUFFSIZE NUL"] assms(4)
    by (subst file_loop.simps) (simp add: on_file_def)
  with c' show ?thesis
    by (simp add: http_module_handler_response_def on_client_eq sseq_def sbind_def Let_def)
qed

text \<open>
  C11: When recv on the opened file fails (it is not a socket), the client gets the header of
  the page and nothing of the file, and the handler stays in its loop.
\<close>

theorem handler_success_sends_header_only:
  assumes "length buf0 = BUFFSIZE" "kernel_takes 1 (length (concat response_ok_text)) (client s)"
    and "list_all (\<lambda>a. \<exists>e. a = RErr e) (rd_ans (filec s))" "fdopen (open_file name) (fdopens s)"
  shows "\<exists>s'. http_module_handler_response open_file fdopen buf0 fd0 name clientfd HTTP_SUCCESS s =
      (Wait, s') \<and> wire (client s') = wire (client s) @ concat response_ok_text"
  using handler_success_header [where open_file = open_file and name = name and fdopen = fdopen and s = s, OF assms] by blast

theorem handler_success_sends_header_only_witness:
  "\<exists>s'. http_module_handler_response (\<lambda>_. 5) (\<lambda>fd _. 0 \<le> fd) (replicate 1024 NUL) 0 ''f'' 7 HTTP_SUCCESS
        \<lparr>client = \<lparr>rd_ans = [], wr_ans = replicate 1000 (WAccept 1), wire = []\<rparr>,
         filec = \<lparr>rd_ans = [RErr ENOTSOCK, RErr ENOTSOCK], wr_ans = [], wire = []\<rparr>,
         fdopens = 0, closed = []\<rparr> = (Wait, s') \<and> wire (client s') = concat response_ok_text"
proof -
  have "length (concat response_ok_text) \<le> 1000"
    by (simp add: response_ok_text_def crlf_def SERVER_TYPE_def)
  then have "kernel_takes 1 (length (concat response_ok_text))
      \<lparr>rd_ans = [], wr_ans = replicate 1000 (WAccept 1), wire = []\<rparr>"
    by (simp add: kernel_takes_def list_all_iff)
  with handler_success_sends_header_only [of "replicate 1024 NUL" "\<lparr>client = \<lparr>rd_ans = [],
        wr_ans = replicate 1000 (WAccept 1), wire = []\<rparr>,
      filec = \<lparr>rd_ans = [RErr ENOTSOCK, RErr ENOTSOCK], wr_ans = [], wire = []\<rparr>, fdopens = 0,
      closed = []\<rparr>" "\<lambda>fd _. 0 \<le> fd" "\<lambda>_. 5" "''f''" 0 7]
  show ?thesis by (simp add: BUFFSIZE_def)
qed

text \<open>A file that cannot be opened: the header is sent, then \<open>feof(NULL)\<close>.\<close>

theorem handler_success_unreadable_faults:
  assumes "length buf0 = BUFFSIZE" "kernel_takes 1 (length (concat response_ok_text)) (client s)"
    and "open_file name = - 1" "\<not> fdopen (- 1) (fdopens s)"
  shows "\<exists>s'. http_module_handler_response open_file fdopen buf0 fd0 name clientfd HTTP_SUCCESS s =
      (Fault, s') \<and> wire (client s') = wire (client s) @ concat response_ok_text"
proof -
  have b: "length buf0 = 1024" using assms(1) by (simp add: BUFFSIZE_def)
  obtain b' c' where c': "response_ok buf0 (client s) = (Ret b', c')"
    "wire c' = wire (client s) @ concat response_ok_text"
    using http_send.pieces_strlen [OF assms(2) texts_ok(1) b] by (auto simp: response_ok_def)
  then show ?thesis using assms(3,4)
    by (simp add: http_module_handler_response_def on_client_eq sseq_def sbind_def Let_def
        file_loop.simps [of fdopen "- 1"])
qed

theorem handler_success_unreadable_faults_witness:
  "\<exists>s'. http_module_handler_response (\<lambda>_. - 1) (\<lambda>fd _. 0 \<le> fd) (replicate 1024 NUL) 0 ''f'' 7 HTTP_SUCCESS
        \<lparr>client = \<lparr>rd_ans = [], wr_ans = replicate 1000 (WAccept 1), wire = []\<rparr>,
         filec = \<lparr>rd_ans = [], wr_ans = [], wire = []\<rparr>,
         fdopens = 0, closed = []\<rparr> = (Fault, s') \<and> wire (client s') = concat response_ok_text"
proof -
  have "length (concat response_ok_text) \<le> 1000"
    by (simp add: response_ok_text_def crlf_def SERVER_TYPE_def)
  then have "kernel_takes 1 (length (concat response_ok_text))
      \<lparr>rd_ans = [], wr_ans = replicate 1000 (WAccept 1), wire = []\<rparr>"
    by (simp add: kernel_takes_def list_all_iff)
  with handler_success_unreadable_faults [of "replicate 1024 NUL" "\<lparr>client = \<lparr>rd_ans = [],
        wr_ans = replicate 1000 (WAccept 1), wire = []\<rparr>,
      filec = \<lparr>rd_ans = [], wr_ans = [], wire = []\<rparr>, fdopens = 0,
      closed = []\<rparr>" "\<lambda>_. - 1" "''f''" "\<lambda>fd _. 0 \<le> fd" 0 7]
  show ?thesis by (simp add: BUFFSIZE_def)
qed

end
