(* ===== verification/Epoll.thy ===== *)
theory Epoll
  imports HttpResponse
begin

text \<open>
  The event loop of a worker process: inc/http_io_base.h with its wrappers in inc/http_epoll.h and
  \<open>Epoll_create\<close>, \<open>Epoll_ctl\<close>, \<open>Epoll_wait\<close> of inc/epoll_inc.h.

  The state has the descriptors that are open, those of them whose open file description another
  process holds too (\<open>shared\<close>), the interest list of the epoll instance with the event mask of each, the
  streams behind the descriptors, and the globals \<open>flag_x\<close> and \<open>epollfd\<close>. \<open>epoll_ctl\<close> and \<open>close\<close> are as
  their manual pages say: an entry of the interest list belongs to a descriptor and its open file
  description, and closing the descriptor removes it only when nobody else holds the description. An
  entry that outlives its descriptor is in \<open>stale\<close>; no call can name it. What \<open>epoll_wait\<close> answers is an
  argument.
\<close>

unbundle bit_operations_syntax

definition EPOLLIN :: c_int where
  "EPOLLIN = 0x001"

definition EPOLLOUT :: c_int where
  "EPOLLOUT = 0x004"

definition EPOLLEVENTS :: nat where
  "EPOLLEVENTS = 100"

definition MAXSIZE :: nat where
  "MAXSIZE = 1024"

record ep_st =
  open_fds :: "int list"
  shared :: "int list"
  stale :: "(int \<times> c_int) list"
  interest :: "int \<Rightarrow> c_int option"
  conns :: "int \<Rightarrow> conn"
  file_st :: conn
  fdopen_cnt :: nat
  flag_x :: int
  epollfd :: int

text \<open>What the handler of a request takes from outside: \<open>stat\<close>, \<open>open\<close>, \<open>fdopen\<close>, the bytes its
  stack arrays and the uninitialised \<open>fd\<close> hold, and how often a failing \<open>fdopen\<close> is tried.\<close>

record http_env =
  e_stat :: "bytes \<Rightarrow> bool option"
  e_open :: "bytes \<Rightarrow> int"
  e_fdopen :: "int \<Rightarrow> nat \<Rightarrow> bool"
  e_buf0 :: bytes
  e_method0 :: bytes
  e_url0 :: bytes
  e_fd0 :: int
  e_tries :: nat

section \<open>The kernel's event table\<close>

datatype ctl_op = EPOLL_CTL_ADD | EPOLL_CTL_MOD | EPOLL_CTL_DEL

definition epoll_ctl :: "ctl_op \<Rightarrow> int \<Rightarrow> c_int \<Rightarrow> ep_st \<Rightarrow> (errno option) \<times> ep_st" where
  "epoll_ctl op fd ev s =
     (if fd \<notin> set (open_fds s) then (Some EBADF, s)
      else (case op of
          EPOLL_CTL_ADD \<Rightarrow>
            (if interest s fd \<noteq> None then (Some EEXIST, s)
             else (None, s\<lparr>interest := (interest s)(fd \<mapsto> ev)\<rparr>))
        | EPOLL_CTL_MOD \<Rightarrow>
            (if interest s fd = None then (Some ENOENT, s)
             else (None, s\<lparr>interest := (interest s)(fd \<mapsto> ev)\<rparr>))
        | EPOLL_CTL_DEL \<Rightarrow>
            (if interest s fd = None then (Some ENOENT, s)
             else (None, s\<lparr>interest := (interest s)(fd := None)\<rparr>))))"

text \<open>Closing the last descriptor of an open file description removes it from the interest list.\<close>

definition sys_close :: "int \<Rightarrow> (ep_st, unit) prog" where
  "sys_close fd = smod (\<lambda>s. s\<lparr>open_fds := removeAll fd (open_fds s), shared := removeAll fd (shared s),
     stale := (case interest s fd of
         None \<Rightarrow> stale s
       | Some ev \<Rightarrow> if fd \<in> set (shared s) then (fd, ev) # stale s else stale s),
     interest := (interest s)(fd := None)\<rparr>)"

definition Epoll_create :: "int \<Rightarrow> (ep_st, int) prog" where
  "Epoll_create fd = (if fd < 0 then sexit else sret fd)"

definition Epoll_ctl :: "ctl_op \<Rightarrow> int \<Rightarrow> c_int \<Rightarrow> (ep_st, int) prog" where
  "Epoll_ctl op fd ev s = (case epoll_ctl op fd ev s of
      (None, s') \<Rightarrow> (Ret 0, s')
    | (Some e, s') \<Rightarrow> (Exit, s'))"

section \<open>The operations on events\<close>

text \<open>\<open>add_event\<close> does not look at the result of \<open>epoll_ctl\<close>.\<close>

definition add_event :: "int \<Rightarrow> c_int \<Rightarrow> (ep_st, unit) prog" where
  "add_event fd st s = (Ret (), snd (epoll_ctl EPOLL_CTL_ADD fd st s))"

definition delete_event :: "int \<Rightarrow> c_int \<Rightarrow> (ep_st, unit) prog" where
  "delete_event fd st = sseq (Epoll_ctl EPOLL_CTL_DEL fd st) (sret ())"

definition modify_event :: "int \<Rightarrow> c_int \<Rightarrow> (ep_st, unit) prog" where
  "modify_event fd st = sseq (Epoll_ctl EPOLL_CTL_MOD fd st) (sret ())"

section \<open>Reading and writing\<close>

primrec fdopen_spin :: "(int \<Rightarrow> nat \<Rightarrow> bool) \<Rightarrow> int \<Rightarrow> nat \<Rightarrow> nat \<Rightarrow> nat option" where
  "fdopen_spin fdopen fd 0 k = None"
| "fdopen_spin fdopen fd (Suc n) k = (if fdopen fd k then Some (Suc k) else fdopen_spin fdopen fd n (Suc k))"

text \<open>The handler runs on the stream of its descriptor; then what it closed is closed here.\<close>

definition do_read :: "http_env \<Rightarrow> int \<Rightarrow> (ep_st, unit) prog" where
  "do_read env fd s =
     (case fdopen_spin (e_fdopen env) fd (e_tries env) (fdopen_cnt s) of
        None \<Rightarrow> (Wait, s)
      | Some k \<Rightarrow>
          (case http_module_handler_request (e_stat env) (e_open env) (e_fdopen env) (e_buf0 env)
                  (e_method0 env) (e_url0 env) (e_fd0 env) fd
                  \<lparr>client = conns s fd, filec = file_st s, fdopens = k, closed = []\<rparr> of
             (r, h) \<Rightarrow>
               (r, snd (fold (\<lambda>f rs. sys_close f (snd rs)) (closed h)
                    (Ret (), s\<lparr>conns := (conns s)(fd := client h), file_st := filec h,
                               fdopen_cnt := fdopens h\<rparr>)))))"

text \<open>The \<open>memset\<close> at the end belongs to both branches.\<close>

definition do_write :: "int \<Rightarrow> bytes \<Rightarrow> (ep_st, bytes) prog" where
  "do_write fd buf s = (case c_string buf of
      None \<Rightarrow> (Fault, s)
    | Some txt \<Rightarrow>
        (case sys_send txt (conns s fd) of
           (Ret r, c') \<Rightarrow>
             sseq (case r of
                 Inl e \<Rightarrow> sseq (sys_close fd) (delete_event fd EPOLLOUT)
               | Inr n \<Rightarrow> modify_event fd EPOLLIN)
               (sret (replicate MAXSIZE NUL)) (s\<lparr>conns := (conns s)(fd := c')\<rparr>)
         | (_, c') \<Rightarrow> (Wait, s\<lparr>conns := (conns s)(fd := c')\<rparr>)))"

section \<open>The loops\<close>

primrec handle_events :: "http_env \<Rightarrow> (int \<times> c_int) list \<Rightarrow> bytes \<Rightarrow> (ep_st, bytes) prog" where
  "handle_events env [] buf = sret buf"
| "handle_events env (ev # evs) buf =
     sbind (if (snd ev AND EPOLLIN) \<noteq> 0 then sseq (do_read env (fst ev)) (sret buf)
            else if (snd ev AND EPOLLOUT) \<noteq> 0 then do_write (fst ev) buf
            else sret buf)
       (handle_events env evs)"

text \<open>One answer of \<open>epoll_wait\<close> per round; \<open>Epoll_wait\<close> exits on an error.\<close>

primrec epoll_rounds ::
  "http_env \<Rightarrow> (errno + (int \<times> c_int) list) list \<Rightarrow> bytes \<Rightarrow> (ep_st, unit) prog" where
  "epoll_rounds env [] buf = (\<lambda>s. (Wait, s))"
| "epoll_rounds env (w # ws) buf = (case w of
      Inl e \<Rightarrow> sexit
    | Inr evs \<Rightarrow> sbind (handle_events env (take EPOLLEVENTS evs) buf) (epoll_rounds env ws))"

definition do_epoll ::
  "http_env \<Rightarrow> int \<Rightarrow> (errno + (int \<times> c_int) list) list \<Rightarrow> int \<Rightarrow> (ep_st, unit) prog" where
  "do_epoll env create_ans waits listenfd =
     sseq (sbind (sget flag_x) (\<lambda>k.
            if k = 0 then sbind (Epoll_create create_ans) (\<lambda>fd. smod (\<lambda>s. s\<lparr>epollfd := fd\<rparr>))
            else sret ()))
       (sseq (smod (\<lambda>s. s\<lparr>flag_x := flag_x s + 1\<rparr>))
         (sseq (add_event listenfd EPOLLIN)
           (epoll_rounds env waits (replicate MAXSIZE NUL))))"

text \<open>What a new connection needs; \<open>clifd\<close> is what \<open>accept\<close> answers. The only call is commented out.\<close>

definition handle_accpet :: "int \<Rightarrow> (ep_st, unit) prog" where
  "handle_accpet clifd =
     (if clifd = - 1 then sret ()
      else sseq (smod (\<lambda>s. s\<lparr>open_fds := clifd # open_fds s\<rparr>)) (add_event clifd EPOLLIN))"

text \<open>The names under which other files call these functions.\<close>

definition http_do_epoll ::
  "http_env \<Rightarrow> int \<Rightarrow> (errno + (int \<times> c_int) list) list \<Rightarrow> int \<Rightarrow> (ep_st, unit) prog" where
  "http_do_epoll = do_epoll"

definition http_handle_events :: "http_env \<Rightarrow> (int \<times> c_int) list \<Rightarrow> bytes \<Rightarrow> (ep_st, bytes) prog" where
  "http_handle_events = handle_events"

definition http_handle_accpet :: "int \<Rightarrow> (ep_st, unit) prog" where
  "http_handle_accpet = handle_accpet"

definition http_do_read :: "http_env \<Rightarrow> int \<Rightarrow> (ep_st, unit) prog" where
  "http_do_read = do_read"

definition http_do_write :: "int \<Rightarrow> bytes \<Rightarrow> (ep_st, bytes) prog" where
  "http_do_write = do_write"

definition http_add_event :: "int \<Rightarrow> c_int \<Rightarrow> (ep_st, unit) prog" where
  "http_add_event = add_event"

definition http_modify_event :: "int \<Rightarrow> c_int \<Rightarrow> (ep_st, unit) prog" where
  "http_modify_event = modify_event"

definition http_delete_event :: "int \<Rightarrow> c_int \<Rightarrow> (ep_st, unit) prog" where
  "http_delete_event = delete_event"

text \<open>inc/http_epoll.h.\<close>

definition Open_epoll ::
  "http_env \<Rightarrow> int \<Rightarrow> (errno + (int \<times> c_int) list) list \<Rightarrow> int \<Rightarrow> (ep_st, unit) prog" where
  "Open_epoll = http_do_epoll"

definition Add_event :: "int \<Rightarrow> c_int \<Rightarrow> (ep_st, unit) prog" where
  "Add_event = http_add_event"

definition Modify_event :: "int \<Rightarrow> c_int \<Rightarrow> (ep_st, unit) prog" where
  "Modify_event = http_modify_event"

definition Delete_event :: "int \<Rightarrow> c_int \<Rightarrow> (ep_st, unit) prog" where
  "Delete_event = http_delete_event"

lemmas http_names = http_do_epoll_def http_handle_events_def http_handle_accpet_def http_do_read_def
  http_do_write_def http_add_event_def http_modify_event_def http_delete_event_def Open_epoll_def
  Add_event_def Modify_event_def Delete_event_def

section \<open>The loop has no way out\<close>

lemma sbind_not_Ret: "(\<And>a s'. \<not> returned (fst (f a s'))) \<Longrightarrow> \<not> returned (fst (sbind m f s))"
  by (auto simp: sbind_def split: prod.split cres.split)

lemma epoll_rounds_stuck: "\<not> returned (fst (epoll_rounds env ws buf s))"
proof (induction ws arbitrary: buf s)
  case (Cons w ws)
  then show ?case
    by (cases w) (simp_all add: sexit_def sbind_not_Ret)
qed simp

lemma do_epoll_stuck: "\<not> returned (fst (do_epoll env create_ans waits listenfd s))"
  unfolding do_epoll_def sseq_def by (intro sbind_not_Ret epoll_rounds_stuck)

theorem do_epoll_never_returns: "\<not> returned (fst (do_epoll env create_ans waits listenfd s))"
  by (rule do_epoll_stuck)

section \<open>Writing\<close>

text \<open>A failed write closes the descriptor first and then asks \<open>epoll\<close> to forget it, which fails:
  the process exits.\<close>

theorem do_write_error_exits:
  assumes "c_string buf = Some txt" "wr_ans (conns s fd) = WErr e # ws"
  shows "\<exists>s'. do_write fd buf s = (Exit, s') \<and> fd \<notin> set (open_fds s')"
  using assms
  by (auto simp: do_write_def sys_send_def sseq_def sbind_def sys_close_def smod_def delete_event_def
      Epoll_ctl_def epoll_ctl_def)

theorem do_write_sends:
  assumes "c_string buf = Some txt" "wr_ans (conns s fd) = WAccept k # ws"
    and "fd \<in> set (open_fds s)" "interest s fd \<noteq> None"
  shows "\<exists>s'. do_write fd buf s = (Ret (replicate MAXSIZE NUL), s')
    \<and> wire (conns s' fd) = wire (conns s fd) @ take k txt \<and> interest s' fd = Some EPOLLIN
    \<and> open_fds s' = open_fds s"
  using assms
  by (auto simp: do_write_def sys_send_def sseq_def sbind_def modify_event_def
      Epoll_ctl_def epoll_ctl_def sret_def)

theorem do_write_sends_witness:
  "\<exists>s'. do_write 3 (''abc'' @ [NUL]) \<lparr>open_fds = [3], shared = [], stale = [], interest = [3 \<mapsto> 1],
     conns = (\<lambda>_. \<lparr>rd_ans = [], wr_ans = [WAccept 2], wire = []\<rparr>),
     file_st = \<lparr>rd_ans = [], wr_ans = [], wire = []\<rparr>, fdopen_cnt = 0, flag_x = 0, epollfd = 0\<rparr> = (Ret (replicate MAXSIZE NUL), s')
    \<and> wire (conns s' 3) = ''ab'' \<and> interest s' 3 = Some EPOLLIN \<and> open_fds s' = [3]"
  using do_write_sends [of "''abc'' @ [NUL]" "''abc''" "\<lparr>open_fds = [3], shared = [], stale = [], interest = [3 \<mapsto> 1],
     conns = (\<lambda>_. \<lparr>rd_ans = [], wr_ans = [WAccept 2], wire = []\<rparr>),
     file_st = \<lparr>rd_ans = [], wr_ans = [], wire = []\<rparr>, fdopen_cnt = 0, flag_x = 0, epollfd = 0\<rparr>" 3 2 "[]"]
  by (simp add: c_string_def NUL_def)

section \<open>A stale registration stays\<close>

text \<open>The contract of an operation on the event state: however it ends, it takes no stale registration
  back.\<close>

locale keeps_stale =
  fixes op :: "(ep_st, 'a) prog"
  assumes keeps: "suffix (stale s) (stale (snd (op s)))"
begin

lemma then_keeps:
  assumes "\<And>a s. suffix (stale s) (stale (snd (f a s)))"
  shows "suffix (stale s) (stale (snd (sbind op f s)))"
proof -
  obtain r s' where r: "op s = (r, s')" by (metis prod.exhaust)
  with keeps [of s] have "suffix (stale s) (stale s')" by simp
  with r assms [of s'] show ?thesis
    by (cases r) (auto simp: sbind_def intro: suffix_order.trans)
qed

lemma seq_keeps:
  assumes "\<And>s. suffix (stale s) (stale (snd (g s)))"
  shows "suffix (stale s) (stale (snd (sseq op g s)))"
  using then_keeps [of "\<lambda>_. g"] assms by (simp add: sseq_def)

end

lemma sret_keeps: "suffix (stale s) (stale (snd (sret a s)))"
  by (simp add: sret_def)

interpretation add_event: keeps_stale "add_event fd st" for fd st
  by unfold_locales (simp add: add_event_def epoll_ctl_def split: ctl_op.split)

interpretation Epoll_ctl: keeps_stale "Epoll_ctl op fd st" for op fd st
  by unfold_locales (auto simp: Epoll_ctl_def epoll_ctl_def split: prod.split option.split ctl_op.split)

interpretation sys_close: keeps_stale "sys_close fd" for fd
  by unfold_locales (auto simp: sys_close_def smod_def suffix_Cons split: option.split)

interpretation do_read: keeps_stale "do_read env fd" for env fd
proof
  fix s
  have cl: "suffix (stale (snd rs)) (stale (snd (fold (\<lambda>f rs. sys_close f (snd rs)) fs rs)))"
    for fs and rs :: "unit cres \<times> ep_st"
  proof (induction fs arbitrary: rs)
    case (Cons f fs)
    from sys_close.keeps [of "snd rs" f] Cons.IH [of "sys_close f (snd rs)"] show ?case
      by (auto intro: suffix_order.trans)
  qed simp
  show "suffix (stale s) (stale (snd (do_read env fd s)))"
    unfolding do_read_def
    by (auto split: option.split prod.split intro: suffix_order.trans [OF _ cl])
qed

interpretation do_write: keeps_stale "do_write fd buf" for fd buf
proof
  fix s :: ep_st
  have "keeps_stale (case r of Inl e \<Rightarrow> sseq (sys_close fd) (delete_event fd EPOLLOUT)
      | Inr n \<Rightarrow> modify_event fd EPOLLIN)" for r :: "errno + nat"
  proof
    fix s :: ep_st
    show "suffix (stale s) (stale (snd ((case r of Inl e \<Rightarrow> sseq (sys_close fd) (delete_event fd EPOLLOUT)
        | Inr n \<Rightarrow> modify_event fd EPOLLIN) s)))"
      unfolding delete_event_def modify_event_def
      by (cases r) (simp_all add: sys_close.seq_keeps Epoll_ctl.seq_keeps sret_keeps)
  qed
  note w = keeps_stale.seq_keeps [OF this, OF sret_keeps, of "s\<lparr>conns := c\<rparr>" for c, simplified]
  show "suffix (stale s) (stale (snd (do_write fd buf s)))"
    unfolding do_write_def
    by (auto split: option.split prod.split cres.split simp del: sum.case simp: w)
qed

interpretation handle_events: keeps_stale "handle_events env evs buf" for env evs buf
proof
  fix s show "suffix (stale s) (stale (snd (handle_events env evs buf s)))"
  proof (induction evs arbitrary: buf s)
    case (Cons ev evs)
    have "keeps_stale (if (snd ev AND EPOLLIN) \<noteq> 0 then sseq (do_read env (fst ev)) (sret buf)
        else if (snd ev AND EPOLLOUT) \<noteq> 0 then do_write (fst ev) buf else sret buf)"
      by unfold_locales (auto intro: do_read.seq_keeps do_write.keeps sret_keeps)
    with Cons show ?case by (simp add: keeps_stale.then_keeps)
  qed (simp add: sret_def)
qed

interpretation epoll_rounds: keeps_stale "epoll_rounds env ws buf" for env ws buf
proof
  fix s show "suffix (stale s) (stale (snd (epoll_rounds env ws buf s)))"
  proof (induction ws arbitrary: buf s)
    case (Cons w ws)
    then show ?case by (cases w) (auto simp: sexit_def intro: handle_events.then_keeps)
  qed simp
qed

section \<open>The life of a registration\<close>

text \<open>An event is added, changed and deleted again.\<close>

theorem event_life_cycle:
  assumes "fd \<in> set (open_fds s)" "interest s fd = None"
  shows "\<exists>s1 s2. Add_event fd st s = (Ret (), s1) \<and> interest s1 = (interest s)(fd \<mapsto> st)
    \<and> Modify_event fd st' s1 = (Ret (), s2) \<and> interest s2 = (interest s)(fd \<mapsto> st')
    \<and> Delete_event fd st'' s2 = (Ret (), s)"
  using assms
  by (auto simp: http_names add_event_def modify_event_def delete_event_def Epoll_ctl_def epoll_ctl_def
      sseq_def sbind_def sret_def fun_upd_idem)

theorem event_life_cycle_witness:
  "\<exists>s1 s2. Add_event 3 EPOLLIN \<lparr>open_fds = [3], shared = [], stale = [], interest = Map.empty,
     conns = (\<lambda>_. \<lparr>rd_ans = [], wr_ans = [], wire = []\<rparr>), file_st = \<lparr>rd_ans = [], wr_ans = [], wire = []\<rparr>,
     fdopen_cnt = 0, flag_x = 0, epollfd = 0\<rparr> = (Ret (), s1) \<and> interest s1 = [3 \<mapsto> EPOLLIN]
    \<and> Modify_event 3 EPOLLOUT s1 = (Ret (), s2) \<and> interest s2 = [3 \<mapsto> EPOLLOUT]"
  using event_life_cycle [of 3 "\<lparr>open_fds = [3], shared = [], stale = [], interest = Map.empty,
     conns = (\<lambda>_. \<lparr>rd_ans = [], wr_ans = [], wire = []\<rparr>), file_st = \<lparr>rd_ans = [], wr_ans = [], wire = []\<rparr>,
     fdopen_cnt = 0, flag_x = 0, epollfd = 0\<rparr>" EPOLLIN EPOLLOUT EPOLLIN] by auto

text \<open>A connection that \<open>handle_accpet\<close> takes is watched for reading, unless its descriptor already is.\<close>

theorem handle_accpet_watches:
  assumes "clifd \<noteq> - 1" "interest s clifd = None"
  shows "\<exists>s'. handle_accpet clifd s = (Ret (), s') \<and> interest s' = (interest s)(clifd \<mapsto> EPOLLIN)
    \<and> open_fds s' = clifd # open_fds s"
  using assms by (simp add: handle_accpet_def add_event_def epoll_ctl_def sseq_def sbind_def smod_def)

theorem handle_accpet_watches_witness:
  "\<exists>s'. handle_accpet 5 \<lparr>open_fds = [3], shared = [], stale = [], interest = [3 \<mapsto> EPOLLIN],
     conns = (\<lambda>_. \<lparr>rd_ans = [], wr_ans = [], wire = []\<rparr>), file_st = \<lparr>rd_ans = [], wr_ans = [], wire = []\<rparr>,
     fdopen_cnt = 0, flag_x = 0, epollfd = 0\<rparr> = (Ret (), s')
    \<and> interest s' = [3 \<mapsto> EPOLLIN, 5 \<mapsto> EPOLLIN] \<and> open_fds s' = [5, 3]"
  using handle_accpet_watches [of 5 "\<lparr>open_fds = [3], shared = [], stale = [], interest = [3 \<mapsto> EPOLLIN],
     conns = (\<lambda>_. \<lparr>rd_ans = [], wr_ans = [], wire = []\<rparr>), file_st = \<lparr>rd_ans = [], wr_ans = [], wire = []\<rparr>,
     fdopen_cnt = 0, flag_x = 0, epollfd = 0\<rparr>"] by simp

end
