(* ===== verification/FdPass.thy ===== *)
theory FdPass
  imports Sysio
begin

text \<open>
  Descriptor passing over a Unix socket: \<open>Sock_fd_write\<close> and \<open>Sock_fd_read\<close> of inc/sock.h.

  One end of the socket is a record: the answers \<open>sendmsg\<close> will give, the messages it has taken,
  and the messages or errors \<open>recvmsg\<close> will give (an empty message without ancillary data is end
  of file). A message is its data and at most one ancillary header; \<open>CMSG_LEN(sizeof(int))\<close> is
  20 on the 64-bit ABI. What the kernel does between the two ends is \<open>delivers\<close>: data and header
  arrive as sent, with the descriptor translated to a number of the receiving process.
\<close>

definition CMSG_LEN_INT :: nat where
  "CMSG_LEN_INT = 20"

definition SOL_SOCKET :: int where
  "SOL_SOCKET = 1"

definition SCM_RIGHTS :: int where
  "SCM_RIGHTS = 1"

record cmsghdr =
  cmsg_len :: nat
  cmsg_level :: int
  cmsg_type :: int
  cmsg_data :: int

record msghdr =
  msg_iov :: bytes
  msg_control :: "cmsghdr option"

record unix_end =
  snd_ans :: "wr list"
  sent :: "msghdr list"
  inbox :: "(errno + msghdr) list"

section \<open>Sending\<close>

definition control_for :: "int \<Rightarrow> cmsghdr option" where
  "control_for fd =
     (if fd \<noteq> - 1
      then Some \<lparr>cmsg_len = CMSG_LEN_INT, cmsg_level = SOL_SOCKET, cmsg_type = SCM_RIGHTS, cmsg_data = fd\<rparr>
      else None)"

text \<open>A stream socket that takes nothing queues no message.\<close>

definition Sock_fd_write :: "bytes \<Rightarrow> nat \<Rightarrow> int \<Rightarrow> (unix_end, int) prog" where
  "Sock_fd_write buf buflen fd u = (case mem_load buf 0 buflen of
      None \<Rightarrow> (Fault, u)
    | Some data \<Rightarrow>
        (case snd_ans u of
           [] \<Rightarrow> (Wait, u)
         | WErr e # ws \<Rightarrow> (Ret (- 1), u\<lparr>snd_ans := ws\<rparr>)
         | WAccept k # ws \<Rightarrow>
             (let n = min k buflen
              in (Ret (int n),
                  u\<lparr>snd_ans := ws,
                    sent := sent u @
                      (if n = 0 then [] else [\<lparr>msg_iov = take n data, msg_control = control_for fd\<rparr>])\<rparr>))))"

section \<open>Receiving\<close>

text \<open>With a pointer for the descriptor (\<open>want_fd\<close>) \<open>recvmsg\<close> is called, otherwise \<open>read\<close>. The
  result is the size, the buffer and what is stored through the pointer.\<close>

definition Sock_fd_read :: "bytes \<Rightarrow> nat \<Rightarrow> bool \<Rightarrow> (unix_end, int \<times> bytes \<times> int option) prog" where
  "Sock_fd_read buf bufsize want_fd u = (case inbox u of
      [] \<Rightarrow> (Wait, u)
    | Inl e # ms \<Rightarrow> (Exit, u\<lparr>inbox := ms\<rparr>)
    | Inr m # ms \<Rightarrow>
        (let data = take bufsize (msg_iov m); u' = u\<lparr>inbox := ms\<rparr>
         in case mem_store buf 0 data of
              None \<Rightarrow> (Fault, u')
            | Some buf' \<Rightarrow>
                (if want_fd then
                   (case msg_control m of
                      Some cm \<Rightarrow>
                        (if cmsg_len cm = CMSG_LEN_INT then
                           (if cmsg_level cm \<noteq> SOL_SOCKET then (Exit, u')
                            else if cmsg_type cm \<noteq> SCM_RIGHTS then (Exit, u')
                            else (Ret (int (length data), buf', Some (cmsg_data cm)), u'))
                         else (Ret (int (length data), buf', Some (- 1)), u'))
                    | None \<Rightarrow> (Ret (int (length data), buf', Some (- 1)), u'))
                 else (Ret (int (length data), buf', None), u'))))"

section \<open>The channel\<close>

definition delivers :: "(int \<Rightarrow> int) \<Rightarrow> msghdr list \<Rightarrow> (errno + msghdr) list" where
  "delivers dupfd ms =
     map (\<lambda>m. Inr (m\<lparr>msg_control := map_option (\<lambda>cm. cm\<lparr>cmsg_data := dupfd (cmsg_data cm)\<rparr>) (msg_control m)\<rparr>)) ms"

lemma Sock_fd_write_taken:
  assumes "snd_ans u = WAccept k # ws" "0 < n" "n \<le> k" "n \<le> length buf"
  shows "Sock_fd_write buf n fd u =
    (Ret (int n), u\<lparr>snd_ans := ws, sent := sent u @ [\<lparr>msg_iov = take n buf, msg_control = control_for fd\<rparr>]\<rparr>)"
  using assms by (simp add: Sock_fd_write_def mem_load_def min_def)

lemma Sock_fd_write_error:
  assumes "snd_ans u = WErr e # ws" "n \<le> length buf"
  shows "Sock_fd_write buf n fd u = (Ret (- 1), u\<lparr>snd_ans := ws\<rparr>)"
  using assms by (simp add: Sock_fd_write_def mem_load_def)

text \<open>What is written on one end is read on the other: the bytes, and a descriptor that refers to
  the same file; \<open>-1\<close> stands for no descriptor on both ends.\<close>

text \<open>
  C6: What Sock_fd_write sends Sock_fd_read receives: the bytes, in the reader's buffer, and
  the descriptor as the kernel translates it; -1 stands for none on both ends.
\<close>

theorem Sock_fd_roundtrip:
  assumes "snd_ans u = WAccept k # ws" "0 < n" "n \<le> k" "n \<le> length buf" "n \<le> length rbuf"
    and "Sock_fd_write buf n fd u = (r, u')" "sent u = []"
    and "inbox v = delivers dupfd (sent u') @ rest"
  shows "r = Ret (int n) \<and> Sock_fd_read rbuf n True v =
      (Ret (int n, take n buf @ drop n rbuf, Some (if fd = - 1 then - 1 else dupfd fd)), v\<lparr>inbox := rest\<rparr>)"
  using assms Sock_fd_write_taken [OF assms(1-4), of fd]
  by (auto simp: Sock_fd_read_def delivers_def control_for_def mem_store_def min_def CMSG_LEN_INT_def
      SOL_SOCKET_def SCM_RIGHTS_def)

theorem Sock_fd_roundtrip_witness:
  "\<exists>u'. Sock_fd_write ''ab'' 2 7 \<lparr>snd_ans = [WAccept 2], sent = [], inbox = []\<rparr> = (Ret 2, u')
    \<and> Sock_fd_read ''..'' 2 True \<lparr>snd_ans = [], sent = [], inbox = delivers (\<lambda>fd. fd + 10) (sent u')\<rparr> =
      (Ret (2, ''ab'', Some 17), \<lparr>snd_ans = [], sent = [], inbox = []\<rparr>)"
proof -
  obtain r u' where w: "Sock_fd_write ''ab'' 2 7 \<lparr>snd_ans = [WAccept 2], sent = [], inbox = []\<rparr> = (r, u')"
    by (metis prod.exhaust)
  show ?thesis
    using Sock_fd_roundtrip [of "\<lparr>snd_ans = [WAccept 2], sent = [], inbox = []\<rparr>" 2 "[]" 2 "''ab''" "''..''" 7 r u'
        "\<lparr>snd_ans = [], sent = [], inbox = delivers (\<lambda>fd. fd + 10) (sent u')\<rparr>" "\<lambda>fd. fd + 10" "[]"] w
    by simp
qed

text \<open>Reading never answers a negative size: an error ends the process.\<close>

lemma Sock_fd_read_result:
  assumes "Sock_fd_read buf n w u = (Ret (sz, buf', fd), u')"
  shows "0 \<le> sz" "inbox u' = tl (inbox u)" "inbox u \<noteq> []" "sent u' = sent u" "snd_ans u' = snd_ans u"
  using assms
  by (auto simp: Sock_fd_read_def Let_def split: list.splits sum.splits option.splits if_splits)

end
