(* ===== verification/Slist.thy ===== *)
theory Slist
  imports CBase
begin

text \<open>
  The singly-linked list of inc/list.h (the \<open>SLIST\<close> macros, with the counter \<open>n_proc\<close> the
  program adds to the head), on a heap of nodes.

  A pointer is \<open>None\<close> (\<open>NULL\<close>) or the address of a node. Addresses are handed out in increasing
  order by \<open>malloc\<close>, so at most \<open>brk\<close> nodes exist; a traversal that takes more steps than that has
  met a node twice and goes on for ever. That is the fuel of \<open>SLIST_FOREACH\<close>: running out of it is
  \<open>Wait\<close>. The counter is an \<open>int\<close>; counting it out of its 32 bits is a fault.
\<close>

type_synonym ptr = "nat option"

record 'd slnode =
  sl_data :: 'd
  sle_next :: ptr

record 'd slist =
  n_proc :: int
  slh_first :: ptr
  brk :: nat
  cells :: "nat \<Rightarrow> 'd slnode option"

section \<open>Access through pointers\<close>

definition node_at :: "ptr \<Rightarrow> ('d slist, 'd slnode) prog" where
  "node_at p s = (case Option.bind p (cells s) of None \<Rightarrow> (Fault, s) | Some n \<Rightarrow> (Ret n, s))"

definition node_upd :: "ptr \<Rightarrow> ('d slnode \<Rightarrow> 'd slnode) \<Rightarrow> ('d slist, unit) prog" where
  "node_upd p f = sbind (node_at p) (\<lambda>n. smod (\<lambda>s. s\<lparr>cells := (cells s)(the p \<mapsto> f n)\<rparr>))"

definition set_next :: "ptr \<Rightarrow> ptr \<Rightarrow> ('d slist, unit) prog" where
  "set_next p q = node_upd p (\<lambda>n. n\<lparr>sle_next := q\<rparr>)"

definition set_first :: "ptr \<Rightarrow> ('d slist, unit) prog" where
  "set_first p = smod (\<lambda>s. s\<lparr>slh_first := p\<rparr>)"

definition malloc_node :: "'d slnode \<Rightarrow> ('d slist, ptr) prog" where
  "malloc_node n s = (Ret (Some (brk s)), s\<lparr>brk := Suc (brk s), cells := (cells s)(brk s \<mapsto> n)\<rparr>)"

definition free_node :: "ptr \<Rightarrow> ('d slist, unit) prog" where
  "free_node p s = (case Option.bind p (cells s) of
      None \<Rightarrow> (if p = None then (Ret (), s) else (Fault, s))
    | Some _ \<Rightarrow> (Ret (), s\<lparr>cells := (cells s)(the p := None)\<rparr>))"

section \<open>The macros\<close>

definition SLIST_EMPTY :: "'d slist \<Rightarrow> bool" where
  "SLIST_EMPTY s \<longleftrightarrow> slh_first s = None"

definition SLIST_FIRST :: "'d slist \<Rightarrow> ptr" where
  "SLIST_FIRST s = slh_first s"

definition SLIST_NEXT :: "ptr \<Rightarrow> ('d slist, ptr) prog" where
  "SLIST_NEXT p = sbind (node_at p) (\<lambda>n. sret (sle_next n))"

definition SLIST_HEAD_INITIALIZER :: "nat \<Rightarrow> (nat \<Rightarrow> 'd slnode option) \<Rightarrow> 'd slist" where
  "SLIST_HEAD_INITIALIZER b cs = \<lparr>n_proc = 0, slh_first = None, brk = b, cells = cs\<rparr>"

definition SLIST_INIT :: "('d slist, unit) prog" where
  "SLIST_INIT = smod (\<lambda>s. s\<lparr>n_proc := 0, slh_first := None\<rparr>)"

definition SLIST_INSERT_AFTER :: "ptr \<Rightarrow> ptr \<Rightarrow> ('d slist, unit) prog" where
  "SLIST_INSERT_AFTER slistelm elm =
     sbind (SLIST_NEXT slistelm) (\<lambda>q. sseq (set_next elm q) (set_next slistelm elm))"

definition SLIST_INSERT_HEAD :: "ptr \<Rightarrow> ('d slist, unit) prog" where
  "SLIST_INSERT_HEAD elm = sbind (sget slh_first) (\<lambda>q. sseq (set_next elm q) (set_first elm))"

definition SLIST_REMOVE_HEAD :: "('d slist, unit) prog" where
  "SLIST_REMOVE_HEAD = sbind (sbind (sget slh_first) SLIST_NEXT) set_first"

text \<open>\<open>while (curelm->next != elm) curelm = curelm->next;\<close>\<close>

primrec find_before :: "nat \<Rightarrow> ptr \<Rightarrow> ptr \<Rightarrow> ('d slist, ptr) prog" where
  "find_before 0 elm cur = (\<lambda>s. (Wait, s))"
| "find_before (Suc k) elm cur =
     sbind (SLIST_NEXT cur) (\<lambda>q. if q \<noteq> elm then find_before k elm q else sret cur)"

definition SLIST_REMOVE :: "ptr \<Rightarrow> ('d slist, unit) prog" where
  "SLIST_REMOVE elm =
     sbind (sget slh_first) (\<lambda>first.
       if first = elm then SLIST_REMOVE_HEAD
       else sbind (sbind (sget brk) (\<lambda>k. find_before (Suc k) elm first)) (\<lambda>curelm.
         sbind (sbind (SLIST_NEXT curelm) SLIST_NEXT) (set_next curelm)))"

text \<open>
  \<open>SLIST_FOREACH\<close> with a body that may \<open>break\<close> or return (\<open>True\<close>) and that carries a local
  value; the next pointer is read after the body.
\<close>

primrec foreach_from ::
  "nat \<Rightarrow> (ptr \<Rightarrow> 'v \<Rightarrow> ('d slist, bool \<times> 'v) prog) \<Rightarrow> ptr \<Rightarrow> 'v \<Rightarrow> ('d slist, 'v) prog" where
  "foreach_from 0 body p v = (if p = None then sret v else (\<lambda>s. (Wait, s)))"
| "foreach_from (Suc k) body p v =
     (if p = None then sret v
      else sbind (body p v) (\<lambda>(stop, v').
        if stop then sret v' else sbind (SLIST_NEXT p) (\<lambda>q. foreach_from k body q v')))"

definition SLIST_FOREACH ::
  "(ptr \<Rightarrow> 'v \<Rightarrow> ('d slist, bool \<times> 'v) prog) \<Rightarrow> 'v \<Rightarrow> ('d slist, 'v) prog" where
  "SLIST_FOREACH body v =
     sbind (sget brk) (\<lambda>k. sbind (sget slh_first) (\<lambda>p. foreach_from k body p v))"

section \<open>The list in the heap\<close>

primrec chain :: "(nat \<Rightarrow> 'd slnode option) \<Rightarrow> ptr \<Rightarrow> nat list \<Rightarrow> ptr \<Rightarrow> bool" where
  "chain h p [] q \<longleftrightarrow> p = q"
| "chain h p (x # xs) q \<longleftrightarrow> p = Some x \<and> (\<exists>n. h x = Some n \<and> chain h (sle_next n) xs q)"

definition slist_ok :: "'d slist \<Rightarrow> nat list \<Rightarrow> bool" where
  "slist_ok s xs \<longleftrightarrow> chain (cells s) (slh_first s) xs None \<and> (\<forall>a. cells s a \<noteq> None \<longrightarrow> a < brk s)"

text \<open>The payloads in order: the abstract value of the list.\<close>

definition data_at :: "'d slist \<Rightarrow> nat \<Rightarrow> 'd" where
  "data_at s x = (case cells s x of Some n \<Rightarrow> sl_data n | None \<Rightarrow> undefined)"

definition slist_abs :: "'d slist \<Rightarrow> nat list \<Rightarrow> 'd list" where
  "slist_abs s xs = map (data_at s) xs"

lemma chain_append: "chain h p (xs @ ys) q \<longleftrightarrow> (\<exists>r. chain h p xs r \<and> chain h r ys q)"
  by (induction xs arbitrary: p) auto

lemma chain_alloc: "chain h p xs q \<Longrightarrow> x \<in> set xs \<Longrightarrow> h x \<noteq> None"
  by (induction xs arbitrary: p) auto

lemma chain_determ: "chain h p xs None \<Longrightarrow> chain h p ys None \<Longrightarrow> xs = ys"
proof (induction xs arbitrary: p ys)
  case Nil
  then show ?case by (cases ys) auto
next
  case (Cons x xs)
  then show ?case by (cases ys) auto
qed

lemma chain_distinct: "chain h p xs None \<Longrightarrow> distinct xs"
proof (induction xs arbitrary: p)
  case (Cons x xs)
  then obtain n where n: "h x = Some n" "chain h (sle_next n) xs None" "p = Some x" by auto
  have "x \<notin> set xs"
  proof
    assume "x \<in> set xs"
    then obtain ys zs where xs: "xs = ys @ x # zs" by (meson split_list)
    then have "chain h (Some x) (x # zs) None"
      using n(2) by (auto simp: chain_append)
    moreover have "chain h (Some x) (x # xs) None" using n by auto
    ultimately have "x # zs = x # xs" by (rule chain_determ)
    with xs show False by simp
  qed
  with Cons.IH [OF n(2)] show ?case by simp
qed simp

lemma chain_upd_other [simp]: "a \<notin> set xs \<Longrightarrow> chain (h(a := v)) p xs q = chain h p xs q"
  by (induction xs arbitrary: p) auto

lemma chain_upd_data:
  assumes "h a = Some n" "sle_next n' = sle_next n"
  shows "chain (h(a \<mapsto> n')) p xs q = chain h p xs q"
  using assms by (induction xs arbitrary: p) auto

lemma slist_ok_distinct: "slist_ok s xs \<Longrightarrow> distinct xs"
  by (auto simp: slist_ok_def dest: chain_distinct)

lemma slist_ok_bound: "slist_ok s xs \<Longrightarrow> x \<in> set xs \<Longrightarrow> x < brk s"
  by (auto simp: slist_ok_def dest: chain_alloc)

lemma slist_ok_length: "slist_ok s xs \<Longrightarrow> length xs \<le> brk s"
proof -
  assume ok: "slist_ok s xs"
  then have "set xs \<subseteq> {..<brk s}" by (auto dest: slist_ok_bound)
  then have "card (set xs) \<le> card {..<brk s}" by (rule card_mono [rotated]) simp
  with slist_ok_distinct [OF ok] show ?thesis by (simp add: distinct_card)
qed

section \<open>What the macros do to the list\<close>

lemma access_simps [unix_simps]:
  "cells s x = Some n \<Longrightarrow> node_at (Some x) s = (Ret n, s)"
  "cells s x = Some n \<Longrightarrow> SLIST_NEXT (Some x) s = (Ret (sle_next n), s)"
  "cells s x = Some n \<Longrightarrow> node_upd (Some x) f s = (Ret (), s\<lparr>cells := (cells s)(x \<mapsto> f n)\<rparr>)"
  "cells s x = Some n \<Longrightarrow>
     set_next (Some x) q s = (Ret (), s\<lparr>cells := (cells s)(x \<mapsto> n\<lparr>sle_next := q\<rparr>)\<rparr>)"
  "cells s x = Some n \<Longrightarrow> free_node (Some x) s = (Ret (), s\<lparr>cells := (cells s)(x := None)\<rparr>)"
  "set_first q s = (Ret (), s\<lparr>slh_first := q\<rparr>)"
  "node_at None s = (Fault, s)" "SLIST_NEXT None s = (Fault, s)" "set_next None q s = (Fault, s)"
  by (simp_all add: node_at_def SLIST_NEXT_def set_next_def node_upd_def set_first_def
      free_node_def sbind_def sseq_def sret_def smod_def)

lemma data_at_other [simp]:
  "x \<noteq> a \<Longrightarrow> data_at (s\<lparr>cells := (cells s)(a := v)\<rparr>) x = data_at s x"
  by (simp add: data_at_def)

lemma slist_abs_other [simp]:
  "a \<notin> set xs \<Longrightarrow> slist_abs (s\<lparr>cells := (cells s)(a := v)\<rparr>) xs = slist_abs s xs"
  by (auto simp: slist_abs_def data_at_def)

lemma slist_abs_first [simp]: "slist_abs (s\<lparr>slh_first := q\<rparr>) xs = slist_abs s xs"
  by (simp add: slist_abs_def data_at_def)

lemma SLIST_INIT_ok:
  "\<forall>a. cells s a \<noteq> None \<longrightarrow> a < brk s \<Longrightarrow>
   \<exists>s'. SLIST_INIT s = (Ret (), s') \<and> slist_ok s' [] \<and> n_proc s' = 0"
  by (simp add: SLIST_INIT_def slist_ok_def smod_def)

lemma SLIST_INSERT_HEAD_ok:
  assumes "slist_ok s xs" "cells s a = Some n" "a \<notin> set xs"
  shows "\<exists>s'. SLIST_INSERT_HEAD (Some a) s = (Ret (), s') \<and> slist_ok s' (a # xs)
    \<and> slist_abs s' (a # xs) = sl_data n # slist_abs s xs \<and> n_proc s' = n_proc s \<and> brk s' = brk s"
  using assms
  by (auto simp: SLIST_INSERT_HEAD_def sbind_def sseq_def unix_simps slist_ok_def slist_abs_def
      data_at_def)

lemma chain_next:
  "chain h p (ys @ x # zs) q \<Longrightarrow> \<exists>n r. h x = Some n \<and> chain h (sle_next n) zs q"
  by (auto simp: chain_append)

lemma chain_relink:
  assumes "chain h p (ys @ x # zs) q" "h x = Some n" "x \<notin> set ys" "x \<notin> set ws"
    and "chain h r ws q" "sle_next n' = r"
  shows "chain (h(x \<mapsto> n')) p (ys @ x # ws) q"
  using assms by (auto simp: chain_append)

lemma SLIST_INSERT_AFTER_ok:
  assumes "slist_ok s (ys @ x # zs)" "cells s a = Some n" "a \<notin> set (ys @ x # zs)"
  shows "\<exists>s'. SLIST_INSERT_AFTER (Some x) (Some a) s = (Ret (), s') \<and> slist_ok s' (ys @ x # a # zs)
    \<and> slist_abs s' (ys @ x # a # zs) = slist_abs s (ys @ [x]) @ sl_data n # slist_abs s zs
    \<and> n_proc s' = n_proc s"
proof -
  from assms(1) obtain nx where nx: "cells s x = Some nx" "chain (cells s) (sle_next nx) zs None"
    by (auto simp: slist_ok_def chain_append)
  have d: "x \<notin> set ys" "x \<notin> set zs" "x \<noteq> a" "a \<notin> set ys" "a \<notin> set zs"
    using slist_ok_distinct [OF assms(1)] assms(3) by auto
  have ch: "chain (cells s) (slh_first s) ys (Some x)"
    using assms(1) by (auto simp: slist_ok_def chain_append)
  let ?h = "(cells s)(a \<mapsto> n\<lparr>sle_next := sle_next nx\<rparr>, x \<mapsto> nx\<lparr>sle_next := Some a\<rparr>)"
  have "SLIST_INSERT_AFTER (Some x) (Some a) s = (Ret (), s\<lparr>cells := ?h\<rparr>)"
    using nx(1) assms(2) d by (simp add: SLIST_INSERT_AFTER_def sbind_def sseq_def unix_simps)
  moreover have "slist_ok (s\<lparr>cells := ?h\<rparr>) (ys @ x # a # zs)"
    using ch nx d assms(1,2) by (auto simp: slist_ok_def chain_append)
  moreover have "slist_abs (s\<lparr>cells := ?h\<rparr>) (ys @ x # a # zs) =
      slist_abs s (ys @ [x]) @ sl_data n # slist_abs s zs"
    using d nx(1) by (auto simp: slist_abs_def data_at_def)
  ultimately show ?thesis by auto
qed

lemma SLIST_REMOVE_HEAD_ok:
  assumes "slist_ok s (x # xs)"
  shows "\<exists>s'. SLIST_REMOVE_HEAD s = (Ret (), s') \<and> slist_ok s' xs \<and> cells s' = cells s
    \<and> slist_abs s' xs = tl (slist_abs s (x # xs)) \<and> n_proc s' = n_proc s"
  using assms
  by (auto simp: SLIST_REMOVE_HEAD_def sbind_def unix_simps slist_ok_def slist_abs_def data_at_def)

lemma SLIST_REMOVE_HEAD_empty: "slh_first s = None \<Longrightarrow> SLIST_REMOVE_HEAD s = (Fault, s)"
  by (simp add: SLIST_REMOVE_HEAD_def sbind_def unix_simps)

lemma find_before_ok:
  assumes "chain (cells s) p (w # ys @ x # zs) None" "x \<notin> set ys" "length ys < k"
  shows "find_before k (Some x) p s = (Ret (Some (last (w # ys))), s)"
  using assms
proof (induction ys arbitrary: p w k)
  case Nil
  then show ?case by (cases k) (auto simp: sbind_def unix_simps)
next
  case (Cons y ys)
  then obtain k' n where k: "k = Suc k'" "cells s w = Some n" "p = Some w"
    "chain (cells s) (sle_next n) (y # ys @ x # zs) None"
    by (cases k) auto
  moreover from k(4) Cons.prems(2) have "sle_next n \<noteq> Some x" by auto
  ultimately show ?case
    using Cons.IH [OF k(4)] Cons.prems(2,3) by (simp add: sbind_def unix_simps)
qed

lemma find_before_absent:
  assumes "chain (cells s) p xs None" "a \<notin> set xs" "length xs \<le> k"
  shows "fst (find_before (Suc k) (Some a) p s) = Fault"
  using assms
proof (induction xs arbitrary: p k)
  case (Cons x xs)
  then obtain k' n where k: "k = Suc k'" "cells s x = Some n" "p = Some x"
    "chain (cells s) (sle_next n) xs None"
    by (cases k) auto
  moreover from k(4) Cons.prems(2) have "sle_next n \<noteq> Some a" by (cases xs) auto
  ultimately show ?case
    using Cons.IH [OF k(4), of k'] Cons.prems(2,3)
    by (simp add: sbind_def unix_simps del: find_before.simps) (simp add: sbind_def unix_simps)
qed (simp add: sbind_def unix_simps)

text \<open>\<open>SLIST_REMOVE\<close> takes the element out wherever it is; for an element that is not in the list it
  follows \<open>NULL\<close>.\<close>

lemma SLIST_REMOVE_ok:
  assumes "slist_ok s (ys @ x # zs)"
  shows "\<exists>s'. SLIST_REMOVE (Some x) s = (Ret (), s') \<and> slist_ok s' (ys @ zs)
    \<and> slist_abs s' (ys @ zs) = slist_abs s ys @ slist_abs s zs \<and> n_proc s' = n_proc s"
proof (cases ys)
  case Nil
  with SLIST_REMOVE_HEAD_ok [of s x zs] assms show ?thesis
    by (auto simp: SLIST_REMOVE_def sbind_def unix_simps slist_ok_def slist_abs_def)
next
  case (Cons w ws)
  have d: "distinct (ys @ x # zs)" using assms by (rule slist_ok_distinct)
  have ch: "chain (cells s) (slh_first s) (w # ws @ x # zs) None"
    using assms Cons by (simp add: slist_ok_def)
  have first: "slh_first s = Some w" "w \<noteq> x" using ch d Cons by auto
  have "length ws < Suc (brk s)"
    using slist_ok_length [OF assms] Cons by simp
  from find_before_ok [OF ch _ this] d Cons
  have fb: "find_before (Suc (brk s)) (Some x) (slh_first s) s = (Ret (Some (last (w # ws))), s)"
    by simp
  obtain vs v where v: "ys = vs @ [v]" using Cons by (metis list.distinct(1) rev_exhaust)
  then have lv: "last (w # ws) = v" using Cons by (metis last_snoc)
  have dv: "v \<notin> set vs" "v \<notin> set zs" "v \<noteq> x" using d v by auto
  obtain nv nx where n: "cells s v = Some nv" "sle_next nv = Some x" "cells s x = Some nx"
    "chain (cells s) (slh_first s) vs (Some v)" "chain (cells s) (sle_next nx) zs None"
    using assms v by (auto simp: slist_ok_def chain_append)
  let ?s = "s\<lparr>cells := (cells s)(v \<mapsto> nv\<lparr>sle_next := sle_next nx\<rparr>)\<rparr>"
  have "SLIST_REMOVE (Some x) s = (Ret (), ?s)"
    using fb [unfolded lv] first n
    by (simp add: SLIST_REMOVE_def sbind_def unix_simps del: find_before.simps)
  moreover have "slist_ok ?s (ys @ zs)"
    using n dv assms v by (auto simp: slist_ok_def chain_append)
  moreover have "slist_abs ?s (ys @ zs) = slist_abs s ys @ slist_abs s zs"
    using n(1) by (auto simp: slist_abs_def data_at_def)
  ultimately show ?thesis by auto
qed

lemma SLIST_REMOVE_absent:
  assumes "slist_ok s xs" "a \<notin> set xs"
  shows "fst (SLIST_REMOVE (Some a) s) = Fault"
proof -
  have "slh_first s \<noteq> Some a" using assms by (cases xs) (auto simp: slist_ok_def)
  moreover have "fst (find_before (Suc (brk s)) (Some a) (slh_first s) s) = Fault"
    using assms slist_ok_length [OF assms(1)]
    by (intro find_before_absent [of _ _ xs]) (auto simp: slist_ok_def)
  ultimately show ?thesis
    by (auto simp: SLIST_REMOVE_def sbind_def unix_simps split: prod.splits simp del: find_before.simps)
qed

section \<open>Loops that change payloads\<close>

text \<open>
  The contract of a loop body that changes the payload of the node it is at, the counter of the
  head and its local value, and nothing else; the loop is then a walk over the abstract list. The
  counter only goes up, as long as it stays an \<open>int\<close>.
\<close>

primrec walk ::
  "(nat \<Rightarrow> 'd \<Rightarrow> 'v \<Rightarrow> bool \<times> 'v \<times> 'd \<times> int) \<Rightarrow> (nat \<times> 'd) list \<Rightarrow> 'v \<Rightarrow> 'v \<times> 'd list \<times> int" where
  "walk step [] v = (v, [], 0)"
| "walk step (xd # xds) v = (case step (fst xd) (snd xd) v of (stop, v', d', m) \<Rightarrow>
     (if stop then (v', d' # map snd xds, m)
      else (case walk step xds v' of (v'', ds', k) \<Rightarrow> (v'', d' # ds', m + k))))"

locale payload_loop =
  fixes body :: "ptr \<Rightarrow> 'v \<Rightarrow> ('d slist, bool \<times> 'v) prog"
    and step :: "nat \<Rightarrow> 'd \<Rightarrow> 'v \<Rightarrow> bool \<times> 'v \<times> 'd \<times> int"
  assumes step_up: "step x d v = (stop, v', d', m) \<Longrightarrow> 0 \<le> m"
    and body_step: "cells s x = Some n \<Longrightarrow> step x (sl_data n) v = (stop, v', d', m) \<Longrightarrow>
    m = 0 \<or> n_proc s + m \<le> INT_MAX \<Longrightarrow>
    body (Some x) v s = (Ret (stop, v'),
      s\<lparr>cells := (cells s)(x \<mapsto> n\<lparr>sl_data := d'\<rparr>), n_proc := n_proc s + m\<rparr>)"
begin

lemma walk_up: "walk step xds v = (v', ds, m) \<Longrightarrow> 0 \<le> m"
proof (induction xds arbitrary: v ds m)
  case (Cons xd xds)
  obtain stop v1 d1 m1 where st: "step (fst xd) (snd xd) v = (stop, v1, d1, m1)" by (metis prod_cases4)
  with Cons step_up [OF st] show ?case
    by (fastforce split: if_splits prod.splits)
qed simp

lemma foreach_from_walk:
  assumes "chain (cells s) p xs None" "length xs \<le> k" "walk step (zip xs (slist_abs s xs)) v = (v', ds, m)"
    and "m = 0 \<or> n_proc s + m \<le> INT_MAX"
  shows "\<exists>s'. foreach_from k body p v s = (Ret v', s') \<and> slist_abs s' xs = ds
    \<and> n_proc s' = n_proc s + m \<and> brk s' = brk s \<and> slh_first s' = slh_first s
    \<and> (\<forall>a. (cells s' a = None) = (cells s a = None)) \<and> (\<forall>a. a \<notin> set xs \<longrightarrow> cells s' a = cells s a)
    \<and> chain (cells s') p xs None"
  using assms
proof (induction xs arbitrary: p k v s ds m)
  case Nil
  then show ?case by (cases k) (auto simp: sret_def slist_abs_def)
next
  case (Cons x xs)
  from Cons.prems obtain n k' where n: "p = Some x" "cells s x = Some n" "k = Suc k'"
    "chain (cells s) (sle_next n) xs None" "length xs \<le> k'"
    by (cases k) auto
  have x: "x \<notin> set xs" using chain_distinct [OF Cons.prems(1)] by simp
  obtain stop v1 d1 m1 where st: "step x (sl_data n) v = (stop, v1, d1, m1)"
    by (metis prod_cases4)
  let ?s = "s\<lparr>cells := (cells s)(x \<mapsto> n\<lparr>sl_data := d1\<rparr>), n_proc := n_proc s + m1\<rparr>"
  have dx: "data_at s x = sl_data n" using n(2) by (simp add: data_at_def)
  have abs1: "slist_abs ?s xs = slist_abs s xs" "data_at ?s x = d1"
    using x by (auto simp: slist_abs_def data_at_def)
  have ch1: "chain (cells ?s) (sle_next n) xs None" using n(4) x by simp
  show ?case
  proof (cases stop)
    case True
    have "m1 = m" using Cons.prems(3) st dx True by (simp add: slist_abs_def)
    then show ?thesis
      using Cons.prems(3,4) n st dx abs1 x True
      by (auto simp: body_step [OF n(2) st] sbind_def sret_def slist_abs_def)
  next
    case False
    obtain ds2 m2 where w: "walk step (zip xs (slist_abs ?s xs)) v1 = (v', ds2, m2)"
      "ds = d1 # ds2" "m = m1 + m2"
      using Cons.prems(3) st dx False unfolding abs1(1)
      by (auto simp: slist_abs_def split: prod.splits)
    have up: "m1 = 0 \<or> n_proc s + m1 \<le> INT_MAX" "m2 = 0 \<or> n_proc ?s + m2 \<le> INT_MAX"
      using Cons.prems(4) w(3) step_up [OF st] walk_up [OF w(1)] by auto
    obtain s' where s': "foreach_from k' body (sle_next n) v1 ?s = (Ret v', s')"
      "slist_abs s' xs = ds2" "n_proc s' = n_proc ?s + m2" "brk s' = brk ?s" "slh_first s' = slh_first ?s"
      "\<forall>a. (cells s' a = None) = (cells ?s a = None)" "\<forall>a. a \<notin> set xs \<longrightarrow> cells s' a = cells ?s a"
      "chain (cells s') (sle_next n) xs None"
      using Cons.IH [OF ch1 n(5) w(1) up(2)] by blast
    have cx: "cells s' x = Some (n\<lparr>sl_data := d1\<rparr>)" using s'(7) x by simp
    have "foreach_from k body p v s = (Ret v', s')"
      using False s'(1) n by (simp add: body_step [OF n(2) st up(1)] sbind_def unix_simps)
    moreover have "slist_abs s' (x # xs) = ds"
      using s'(2) cx w(2) by (simp add: slist_abs_def data_at_def)
    ultimately show ?thesis
      using s' cx n(1,2) w(3) by auto
  qed
qed

theorem foreach_walk:
  assumes "slist_ok s xs" "walk step (zip xs (slist_abs s xs)) v = (v', ds, m)"
    and "m = 0 \<or> n_proc s + m \<le> INT_MAX"
  shows "\<exists>s'. SLIST_FOREACH body v s = (Ret v', s') \<and> slist_ok s' xs \<and> slist_abs s' xs = ds
    \<and> n_proc s' = n_proc s + m \<and> brk s' = brk s"
  using foreach_from_walk [OF _ _ assms(2,3), of "slh_first s" "brk s"] assms(1) slist_ok_length [OF assms(1)]
  by (fastforce simp: SLIST_FOREACH_def sbind_def unix_simps slist_ok_def)

end

end
