(* ===== verification/ProcPool.thy ===== *)
theory ProcPool
  imports Slist
begin

text \<open>
  The processor pool of inc/http_task.h: a singly-linked list of \<open>processor_t\<close> nodes with the
  counter \<open>n_proc\<close>, and its operations. The counter and the fields of a processor are of type \<open>int\<close>:
  counting them out of their 32 bits is a fault. \<open>malloc_ok\<close> says which allocations succeed. The list of
  addresses \<open>xs\<close> in the theorems is the pool's ghost view; its payloads are \<open>slist_abs s xs\<close>.
\<close>

definition NPROC_MAX_NUM :: nat where
  "NPROC_MAX_NUM = 10"

definition MAX_FD_NUM :: int where
  "MAX_FD_NUM = 200"

record processor_t =
  pid :: int
  nleft :: int
  status :: int

type_synonym pool = "processor_t slist"

section \<open>Operations\<close>

text \<open>\<open>getrlimit\<close> answers the hard limit or fails; the result is the local structure's limit, which
  is not given back to the system.\<close>

definition open_max_fd :: "int option \<Rightarrow> int cres" where
  "open_max_fd rlim = (case rlim of None \<Rightarrow> Exit
    | Some rlim_max \<Rightarrow> Ret (if MAX_FD_NUM < rlim_max then MAX_FD_NUM else rlim_max))"

text \<open>The link of a new node is not initialised; every caller sets it at once.\<close>

definition proc_alloc :: "(nat \<Rightarrow> bool) \<Rightarrow> (pool, ptr) prog" where
  "proc_alloc malloc_ok s =
     (if malloc_ok (brk s)
      then malloc_node \<lparr>sl_data = \<lparr>pid = - 1, nleft = MAX_FD_NUM, status = 0\<rparr>, sle_next = None\<rparr> s
      else (Exit, s))"

primrec create_loop :: "(nat \<Rightarrow> bool) \<Rightarrow> nat \<Rightarrow> (pool, unit) prog" where
  "create_loop malloc_ok 0 = sret ()"
| "create_loop malloc_ok (Suc k) =
     sseq (sbind (proc_alloc malloc_ok) SLIST_INSERT_HEAD) (create_loop malloc_ok k)"

definition create_proc_pool :: "(nat \<Rightarrow> bool) \<Rightarrow> (pool, unit) prog" where
  "create_proc_pool malloc_ok = create_loop malloc_ok NPROC_MAX_NUM"

definition insert_obj_body :: "int \<Rightarrow> ptr \<Rightarrow> unit \<Rightarrow> (pool, bool \<times> unit) prog" where
  "insert_obj_body p item u =
     sbind (node_at item) (\<lambda>n.
       if pid (sl_data n) = - 1 then
         sseq (node_upd item (\<lambda>n. n\<lparr>sl_data := (sl_data n)\<lparr>pid := p\<rparr>\<rparr>))
           (sbind (sbind (sget n_proc) int_inc) (\<lambda>k. sseq (smod (\<lambda>s. s\<lparr>n_proc := k\<rparr>)) (sret (True, ()))))
       else sret (False, ()))"

definition insert_pool_obj :: "int \<Rightarrow> (pool, unit) prog" where
  "insert_pool_obj p = SLIST_FOREACH (insert_obj_body p) ()"

definition delete_obj_body :: "int \<Rightarrow> ptr \<Rightarrow> ptr \<Rightarrow> (pool, bool \<times> ptr) prog" where
  "delete_obj_body p item pre =
     sbind (node_at item) (\<lambda>n.
       if pid (sl_data n) = p then
         sbind (sget SLIST_FIRST) (\<lambda>first.
           sseq (if item = first then sbind (SLIST_NEXT item) set_first
                 else sbind (SLIST_NEXT item) (set_next pre))
             (sseq (free_node item) (sret (True, pre))))
       else sret (False, item))"

definition delete_pool_obj :: "int \<Rightarrow> (pool, unit) prog" where
  "delete_pool_obj p =
     sseq (sbind (sget SLIST_FIRST) (SLIST_FOREACH (delete_obj_body p)))
       (sbind (sbind (sget n_proc) int_dec) (\<lambda>k. smod (\<lambda>s. s\<lparr>n_proc := k\<rparr>)))"

definition insert_pool :: "(nat \<Rightarrow> bool) \<Rightarrow> int \<Rightarrow> (pool, unit) prog" where
  "insert_pool malloc_ok p =
     sbind (sget n_proc) (\<lambda>k.
       if k < int NPROC_MAX_NUM then
         sbind (proc_alloc malloc_ok) (\<lambda>item.
           sseq (node_upd item (\<lambda>n. n\<lparr>sl_data := (sl_data n)\<lparr>pid := p\<rparr>\<rparr>)) (SLIST_INSERT_HEAD item))
       else sret ())"

text \<open>\<open>if (item->pid = pid && item->status == 1)\<close> assigns the value of the conjunction to \<open>pid\<close>.\<close>

definition cross_body :: "int \<Rightarrow> ptr \<Rightarrow> int \<Rightarrow> (pool, bool \<times> int) prog" where
  "cross_body p item res =
     sbind (node_at item) (\<lambda>n.
       let v = (if p \<noteq> 0 \<and> status (sl_data n) = 1 then 1 else 0 :: int)
       in sseq (node_upd item (\<lambda>n. n\<lparr>sl_data := (sl_data n)\<lparr>pid := v\<rparr>\<rparr>))
            (if v \<noteq> 0 then sret (True, 0) else sret (False, res)))"

definition cross_ok :: "int \<Rightarrow> (pool, int) prog" where
  "cross_ok p = SLIST_FOREACH (cross_body p) (- 1)"

text \<open>The loop of \<open>notice_child\<close> keeps the maximum, the chosen \<open>pid\<close> and the chosen node.\<close>

definition notice_body :: "ptr \<Rightarrow> int \<times> int \<times> ptr \<Rightarrow> (pool, bool \<times> int \<times> int \<times> ptr) prog" where
  "notice_body item v =
     sbind (node_at item) (\<lambda>n. case v of (mx, p, pre) \<Rightarrow>
       if nleft (sl_data n) \<ge> mx then sret (False, nleft (sl_data n), pid (sl_data n), item)
       else sret (False, mx, p, pre))"

text \<open>\<open>pid0\<close> is what the uninitialised local \<open>pid\<close> holds.\<close>

definition notice_child :: "int \<Rightarrow> (pool, int) prog" where
  "notice_child pid0 =
     sbind (sbind (sget SLIST_FIRST) node_at) (\<lambda>n0.
     sbind (SLIST_FOREACH notice_body (nleft (sl_data n0), pid0, None)) (\<lambda>(mx, p, pre).
     sseq (sbind (sbind (node_at pre) (\<lambda>n. int_dec (nleft (sl_data n)))) (\<lambda>k.
            node_upd pre (\<lambda>n. n\<lparr>sl_data := (sl_data n)\<lparr>nleft := k\<rparr>\<rparr>)))
       (sret p)))"

text \<open>The result is the list of the calls of \<open>kill\<close>, each with a process id and a signal.\<close>

definition SIGINT :: int where
  "SIGINT = 2"

definition kill_body :: "ptr \<Rightarrow> (int \<times> int) list \<Rightarrow> (pool, bool \<times> (int \<times> int) list) prog" where
  "kill_body item ks = sbind (node_at item) (\<lambda>n. sret (False, ks @ [(pid (sl_data n), SIGINT)]))"

definition tell_chld_exit :: "(pool, (int \<times> int) list) prog" where
  "tell_chld_exit = SLIST_FOREACH kill_body []"

definition status_body :: "int \<Rightarrow> ptr \<Rightarrow> unit \<Rightarrow> (pool, bool \<times> unit) prog" where
  "status_body p item u =
     sbind (node_at item) (\<lambda>n.
       if pid (sl_data n) = p then
         sseq (node_upd item (\<lambda>n. n\<lparr>sl_data := (sl_data n)\<lparr>status := 1\<rparr>\<rparr>)) (sret (False, ()))
       else sret (False, ()))"

definition set_status_ok :: "int \<Rightarrow> (pool, unit) prog" where
  "set_status_ok p = SLIST_FOREACH (status_body p) ()"

section \<open>The loops as walks\<close>

lemma upd_same [simp]: "cells s x = Some n \<Longrightarrow> s\<lparr>cells := (cells s)(x \<mapsto> n)\<rparr> = s"
  by (cases s) (auto simp: fun_upd_def fun_eq_iff)

interpretation insert_obj: payload_loop "insert_obj_body p"
  "\<lambda>_ d u. if pid d = - 1 then (True, (), d\<lparr>pid := p\<rparr>, 1) else (False, (), d, 0)" for p
  by unfold_locales
    (auto simp: insert_obj_body_def sbind_def sseq_def unix_simps split: if_splits)

interpretation cross: payload_loop "cross_body p"
  "\<lambda>_ d res. if p \<noteq> 0 \<and> status d = 1 then (True, 0, d\<lparr>pid := 1\<rparr>, 0)
             else (False, res, d\<lparr>pid := 0\<rparr>, 0)" for p
  by unfold_locales
    (auto simp: cross_body_def sbind_def sseq_def unix_simps Let_def split: if_splits)

definition notice_step ::
  "nat \<Rightarrow> processor_t \<Rightarrow> int \<times> int \<times> ptr \<Rightarrow> bool \<times> (int \<times> int \<times> ptr) \<times> processor_t \<times> int" where
  "notice_step x d v =
     (False, if nleft d \<ge> fst v then (nleft d, pid d, Some x) else v, d, 0)"

interpretation notice: payload_loop notice_body notice_step
  by unfold_locales
    (auto simp: notice_body_def notice_step_def sbind_def unix_simps split: if_splits prod.splits)

interpretation kill: payload_loop kill_body "\<lambda>_ d ks. (False, ks @ [(pid d, SIGINT)], d, 0)"
  by unfold_locales (auto simp: kill_body_def sbind_def unix_simps)

interpretation status_ok: payload_loop "status_body p"
  "\<lambda>_ d u. if pid d = p then (False, (), d\<lparr>status := 1\<rparr>, 0) else (False, (), d, 0)" for p
  by unfold_locales
    (auto simp: status_body_def sbind_def sseq_def unix_simps split: if_splits)

section \<open>Specifications on the list of processors\<close>

primrec assign_idle :: "int \<Rightarrow> processor_t list \<Rightarrow> processor_t list" where
  "assign_idle p [] = []"
| "assign_idle p (d # ds) = (if pid d = - 1 then d\<lparr>pid := p\<rparr> # ds else d # assign_idle p ds)"

primrec drop_pid :: "int \<Rightarrow> processor_t list \<Rightarrow> processor_t list" where
  "drop_pid p [] = []"
| "drop_pid p (d # ds) = (if pid d = p then ds else d # drop_pid p ds)"

definition has_pid :: "int \<Rightarrow> processor_t list \<Rightarrow> bool" where
  "has_pid p ds \<longleftrightarrow> (\<exists>d \<in> set ds. pid d = p)"

definition fresh_processor :: processor_t where
  "fresh_processor = \<lparr>pid = - 1, nleft = 200, status = 0\<rparr>"

text \<open>The last of the processors with the largest \<open>nleft\<close>.\<close>

definition is_last_max :: "processor_t list \<Rightarrow> nat \<Rightarrow> bool" where
  "is_last_max ds j \<longleftrightarrow> j < length ds \<and> (\<forall>i < length ds. nleft (ds ! i) \<le> nleft (ds ! j))
     \<and> (\<forall>i. j < i \<and> i < length ds \<longrightarrow> nleft (ds ! i) < nleft (ds ! j))"

definition balanced :: "processor_t list \<Rightarrow> bool" where
  "balanced ds \<longleftrightarrow> (\<forall>a \<in> set ds. \<forall>b \<in> set ds. nleft a \<le> nleft b + 1)"

section \<open>Creating the pool\<close>

lemma proc_alloc_ok:
  assumes "slist_ok s xs" "malloc_ok (brk s)"
  shows "\<exists>s'. proc_alloc malloc_ok s = (Ret (Some (brk s)), s') \<and> slist_ok s' xs
    \<and> cells s' (brk s) = Some \<lparr>sl_data = fresh_processor, sle_next = None\<rparr> \<and> brk s \<notin> set xs
    \<and> slist_abs s' xs = slist_abs s xs \<and> n_proc s' = n_proc s \<and> brk s' = Suc (brk s)"
proof -
  have "brk s \<notin> set xs" using slist_ok_bound [OF assms(1)] by blast
  then show ?thesis
    using assms by (auto simp: proc_alloc_def malloc_node_def slist_ok_def slist_abs_def data_at_def
        fresh_processor_def MAX_FD_NUM_def less_Suc_eq)
qed

lemma create_loop_ok:
  assumes "slist_ok s xs" "\<forall>a. malloc_ok a"
  shows "\<exists>s' ys. create_loop malloc_ok k s = (Ret (), s') \<and> slist_ok s' (ys @ xs)
    \<and> slist_abs s' (ys @ xs) = replicate k fresh_processor @ slist_abs s xs
    \<and> length ys = k \<and> n_proc s' = n_proc s"
  using assms(1)
proof (induction k arbitrary: s xs)
  case 0
  then show ?case by (auto simp: sret_def)
next
  case (Suc k)
  obtain s1 where s1: "proc_alloc malloc_ok s = (Ret (Some (brk s)), s1)" "slist_ok s1 xs"
    "cells s1 (brk s) = Some \<lparr>sl_data = fresh_processor, sle_next = None\<rparr>" "brk s \<notin> set xs"
    "slist_abs s1 xs = slist_abs s xs" "n_proc s1 = n_proc s"
    using proc_alloc_ok [OF Suc.prems, of malloc_ok] assms(2) by blast
  obtain s2 where s2: "SLIST_INSERT_HEAD (Some (brk s)) s1 = (Ret (), s2)" "slist_ok s2 (brk s # xs)"
    "slist_abs s2 (brk s # xs) = fresh_processor # slist_abs s1 xs" "n_proc s2 = n_proc s1"
    using SLIST_INSERT_HEAD_ok [OF s1(2,3,4)] by auto
  from Suc.IH [OF s2(2)] obtain s' ys where "create_loop malloc_ok k s2 = (Ret (), s')"
    "slist_ok s' (ys @ brk s # xs)" "length ys = k" "n_proc s' = n_proc s2"
    "slist_abs s' (ys @ brk s # xs) = replicate k fresh_processor @ slist_abs s2 (brk s # xs)"
    by blast
  then show ?case
    using s1 s2 by (intro exI [of _ s'] exI [of _ "ys @ [brk s]"])
      (simp add: sseq_def sbind_def replicate_append_same [symmetric])
qed

text \<open>A new pool has ten idle processors.\<close>

theorem create_proc_pool_idle:
  assumes "slist_ok s []" "\<forall>a. malloc_ok a"
  shows "\<exists>s' xs. create_proc_pool malloc_ok s = (Ret (), s') \<and> slist_ok s' xs
    \<and> slist_abs s' xs = replicate 10 fresh_processor \<and> n_proc s' = n_proc s"
  using create_loop_ok [OF assms, of 10]
  by (auto simp: create_proc_pool_def NPROC_MAX_NUM_def slist_abs_def)

theorem create_proc_pool_idle_witness:
  "\<exists>s' xs. create_proc_pool (\<lambda>_. True) \<lparr>n_proc = 0, slh_first = None, brk = 0, cells = Map.empty\<rparr> = (Ret (), s') \<and> slist_ok s' xs
    \<and> slist_abs s' xs = replicate 10 fresh_processor \<and> n_proc s' = 0"
  using create_proc_pool_idle [of "\<lparr>n_proc = 0, slh_first = None, brk = 0, cells = Map.empty\<rparr>" "\<lambda>_. True"] by (simp add: slist_ok_def)

section \<open>Assigning, deleting, inserting\<close>

lemma insert_obj_walk:
  "length xs = length ds \<Longrightarrow>
   walk (\<lambda>_ d u. if pid d = - 1 then (True, (), d\<lparr>pid := p\<rparr>, 1) else (False, (), d, 0)) (zip xs ds) () =
   ((), assign_idle p ds, if has_pid (- 1) ds then 1 else 0)"
  by (induction xs ds rule: list_induct2) (auto simp: has_pid_def)

lemma length_slist_abs [simp]: "length (slist_abs s xs) = length xs"
  by (simp add: slist_abs_def)

lemma insert_pool_obj_eq:
  assumes "slist_ok s xs" "has_pid (- 1) (slist_abs s xs) \<Longrightarrow> n_proc s < INT_MAX"
  shows "\<exists>s'. insert_pool_obj p s = (Ret (), s') \<and> slist_ok s' xs
    \<and> slist_abs s' xs = assign_idle p (slist_abs s xs)
    \<and> n_proc s' = n_proc s + (if has_pid (- 1) (slist_abs s xs) then 1 else 0)"
  using insert_obj.foreach_walk [OF assms(1) insert_obj_walk, of p] assms(2)
  by (auto simp: insert_pool_obj_def)

theorem insert_pool_obj_assigns:
  assumes "slist_ok s xs" "has_pid (- 1) (slist_abs s xs) \<Longrightarrow> n_proc s < INT_MAX"
  shows "\<exists>s'. insert_pool_obj p s = (Ret (), s') \<and> slist_ok s' xs
    \<and> slist_abs s' xs = assign_idle p (slist_abs s xs)
    \<and> n_proc s' = n_proc s + (if has_pid (- 1) (slist_abs s xs) then 1 else 0)"
  by (rule insert_pool_obj_eq) (fact assms)+

theorem insert_pool_obj_assigns_witness:
  "\<exists>s'. insert_pool_obj 9 \<lparr>n_proc = 2, slh_first = Some 1, brk = 2, cells =
     [0 \<mapsto> \<lparr>sl_data = \<lparr>pid = 7, nleft = 5, status = 0\<rparr>, sle_next = None\<rparr>,
      1 \<mapsto> \<lparr>sl_data = \<lparr>pid = - 1, nleft = 5, status = 0\<rparr>, sle_next = Some 0\<rparr>]\<rparr> = (Ret (), s') \<and> n_proc s' = 3
    \<and> map pid (slist_abs s' [1, 0]) = [9, 7]"
proof -
  have "slist_ok \<lparr>n_proc = 2, slh_first = Some 1, brk = 2, cells =
     [0 \<mapsto> \<lparr>sl_data = \<lparr>pid = 7, nleft = 5, status = 0\<rparr>, sle_next = None\<rparr>,
      1 \<mapsto> \<lparr>sl_data = \<lparr>pid = - 1, nleft = 5, status = 0\<rparr>, sle_next = Some 0\<rparr>]\<rparr> [1, 0]" by (simp add: slist_ok_def)
  from insert_pool_obj_assigns [OF this, of 9] show ?thesis
    by (auto simp: slist_abs_def data_at_def has_pid_def INT_MAX_def)
qed

text \<open>\<open>delete_pool_obj\<close> takes the node out of the list and frees it.\<close>

lemma delete_loop_ok:
  assumes "slist_ok s (ys @ zs)" "length zs \<le> k"
    and "\<forall>y \<in> set ys. pid (data_at s y) \<noteq> p"
    and "chain (cells s) q zs None"
    and "pre = (if ys = [] then slh_first s else Some (last ys))"
  shows "\<exists>s' ws pre'. foreach_from k (delete_obj_body p) q pre s = (Ret pre', s')
    \<and> slist_ok s' (ys @ ws) \<and> slist_abs s' (ys @ ws) = slist_abs s ys @ drop_pid p (slist_abs s zs)
    \<and> n_proc s' = n_proc s
    \<and> (\<forall>a. cells s' a = None \<longleftrightarrow> cells s a = None \<or> a \<in> set zs - set ws)"
  using assms
proof (induction zs arbitrary: q k ys pre)
  case Nil
  then show ?case by (cases k) (auto simp: sret_def slist_abs_def intro: exI [of _ "[]"])
next
  case (Cons x zs)
  obtain k' n where k: "k = Suc k'" "q = Some x" "cells s x = Some n" "chain (cells s) (sle_next n) zs None"
    using Cons.prems(2,4) by (cases k) auto
  have d: "distinct (ys @ x # zs)" using Cons.prems(1) by (rule slist_ok_distinct)
  show ?case
  proof (cases "pid (sl_data n) = p")
    case False
    have "foreach_from k (delete_obj_body p) q pre s = foreach_from k' (delete_obj_body p) (sle_next n) (Some x) s"
      using k False by (simp add: delete_obj_body_def sbind_def unix_simps)
    moreover obtain s' ws pre' where "foreach_from k' (delete_obj_body p) (sle_next n) (Some x) s = (Ret pre', s')"
      "slist_ok s' ((ys @ [x]) @ ws)" "n_proc s' = n_proc s"
      "slist_abs s' ((ys @ [x]) @ ws) = slist_abs s (ys @ [x]) @ drop_pid p (slist_abs s zs)"
      "\<forall>a. cells s' a = None \<longleftrightarrow> cells s a = None \<or> a \<in> set zs - set ws"
      using Cons.IH [of "ys @ [x]" k' "sle_next n" "Some x"] Cons.prems(1-3) k False
      by (auto simp: data_at_def)
    ultimately show ?thesis
      using False k(3) d by (intro exI [of _ s'] exI [of _ "x # ws"] exI [of _ pre'])
        (auto simp: slist_abs_def data_at_def)
  next
    case True
    show ?thesis
    proof (cases "ys = []")
      case True
      then have q: "slh_first s = Some x" using Cons.prems(1) by (simp add: slist_ok_def)
      let ?s = "s\<lparr>slh_first := sle_next n, cells := (cells s)(x := None)\<rparr>"
      have "foreach_from k (delete_obj_body p) q pre s = (Ret pre, ?s)"
        using k True \<open>pid (sl_data n) = p\<close> q
        by (simp add: delete_obj_body_def sbind_def sseq_def unix_simps SLIST_FIRST_def)
      moreover have "slist_ok ?s zs"
        using k(4) d True Cons.prems(1) by (auto simp: slist_ok_def)
      moreover have "slist_abs ?s zs = slist_abs s zs" "data_at s x = sl_data n"
        using d k(3) by (auto simp: slist_abs_def data_at_def)
      ultimately show ?thesis
        using True \<open>pid (sl_data n) = p\<close> d
        by (intro exI [of _ ?s] exI [of _ zs] exI [of _ pre]) (auto simp: slist_abs_def)
    next
      case False
      then obtain vs v where v: "ys = vs @ [v]" by (metis rev_exhaust)
      obtain nv where n: "cells s v = Some nv" "sle_next nv = Some x"
        "chain (cells s) (slh_first s) vs (Some v)"
        using Cons.prems(1) v k(3) by (auto simp: slist_ok_def chain_append)
      have first: "slh_first s \<noteq> Some x"
        using n(3) d v by (cases vs) auto
      let ?s = "s\<lparr>cells := (cells s)(v \<mapsto> nv\<lparr>sle_next := sle_next n\<rparr>, x := None)\<rparr>"
      have "foreach_from k (delete_obj_body p) q pre s = (Ret pre, ?s)"
        using k \<open>pid (sl_data n) = p\<close> first n(1) Cons.prems(5) v d
        by (simp add: delete_obj_body_def sbind_def sseq_def unix_simps SLIST_FIRST_def)
      moreover have "slist_ok ?s (ys @ zs)"
        using n k d v Cons.prems(1) by (auto simp: slist_ok_def chain_append)
      moreover have "slist_abs ?s (ys @ zs) = slist_abs s (ys @ zs)" "data_at s x = sl_data n"
        using d v k(3) n(1) by (auto simp: slist_abs_def data_at_def)
      ultimately show ?thesis
        using \<open>pid (sl_data n) = p\<close> d v n(1)
        by (intro exI [of _ ?s] exI [of _ zs] exI [of _ pre]) (auto simp: slist_abs_def)
    qed
  qed
qed

lemma slist_ok_chain: "slist_ok s xs \<Longrightarrow> chain (cells s) (slh_first s) xs None"
  by (simp add: slist_ok_def)

lemma slist_abs_Nil [simp]: "slist_abs s [] = []"
  by (simp add: slist_abs_def)

text \<open>The counter goes down also when no processor has the process id.\<close>

lemma delete_pool_obj_eq:
  assumes "slist_ok s xs"
  shows "\<exists>s' ys. delete_pool_obj p s = (if INT_MIN < n_proc s then Ret () else Fault, s') \<and> slist_ok s' ys
    \<and> slist_abs s' ys = drop_pid p (slist_abs s xs) \<and> (INT_MIN < n_proc s \<longrightarrow> n_proc s' = n_proc s - 1)
    \<and> (\<forall>a. cells s' a = None \<longleftrightarrow> cells s a = None \<or> a \<in> set xs - set ys)"
proof -
  obtain s' ys pre' where f: "foreach_from (brk s) (delete_obj_body p) (slh_first s) (slh_first s) s = (Ret pre', s')"
    "slist_ok s' ys" "slist_abs s' ys = drop_pid p (slist_abs s xs)" "n_proc s' = n_proc s"
    "\<forall>a. cells s' a = None \<longleftrightarrow> cells s a = None \<or> a \<in> set xs - set ys"
    using delete_loop_ok [of s "[]" xs "brk s" p "slh_first s" "slh_first s"] assms
      slist_ok_length [OF assms] slist_ok_chain [OF assms] by (auto simp: slist_abs_Nil)
  let ?s = "if INT_MIN < n_proc s then s'\<lparr>n_proc := n_proc s' - 1\<rparr> else s'"
  have "delete_pool_obj p s = (if INT_MIN < n_proc s then Ret () else Fault, ?s)"
    using f(1,4) by (simp add: delete_pool_obj_def SLIST_FOREACH_def sbind_def sseq_def unix_simps
        SLIST_FIRST_def int_dec_def)
  moreover have "slist_ok ?s ys" "slist_abs ?s ys = slist_abs s' ys"
    using f(2) by (simp_all add: slist_ok_def slist_abs_def data_at_def)
  ultimately show ?thesis using f by (intro exI [of _ ?s] exI [of _ ys]) simp
qed

text \<open>
  C7: delete_pool_obj unlinks and frees the first node with the process id and nothing else;
  the counter falls by one whether or not there is one.
\<close>

theorem delete_pool_obj_removes:
  assumes "slist_ok s xs"
  shows "\<exists>s' ys. delete_pool_obj p s = (if INT_MIN < n_proc s then Ret () else Fault, s') \<and> slist_ok s' ys
    \<and> slist_abs s' ys = drop_pid p (slist_abs s xs) \<and> (INT_MIN < n_proc s \<longrightarrow> n_proc s' = n_proc s - 1)
    \<and> (\<forall>a. cells s' a = None \<longleftrightarrow> cells s a = None \<or> a \<in> set xs - set ys)"
  using assms by (rule delete_pool_obj_eq)

theorem delete_pool_obj_removes_witness:
  "\<exists>s' ys. delete_pool_obj 7 \<lparr>n_proc = 2, slh_first = Some 1, brk = 2, cells =
     [0 \<mapsto> \<lparr>sl_data = \<lparr>pid = 7, nleft = 5, status = 0\<rparr>, sle_next = None\<rparr>,
      1 \<mapsto> \<lparr>sl_data = \<lparr>pid = 8, nleft = 5, status = 0\<rparr>, sle_next = Some 0\<rparr>]\<rparr> = (Ret (), s') \<and> slist_ok s' ys
    \<and> slist_abs s' ys = [\<lparr>pid = 8, nleft = 5, status = 0\<rparr>] \<and> n_proc s' = 1"
proof -
  have "slist_ok \<lparr>n_proc = 2, slh_first = Some 1, brk = 2, cells =
     [0 \<mapsto> \<lparr>sl_data = \<lparr>pid = 7, nleft = 5, status = 0\<rparr>, sle_next = None\<rparr>,
      1 \<mapsto> \<lparr>sl_data = \<lparr>pid = 8, nleft = 5, status = 0\<rparr>, sle_next = Some 0\<rparr>]\<rparr> [1, 0]" by (simp add: slist_ok_def)
  moreover have "slist_abs \<lparr>n_proc = 2, slh_first = Some 1, brk = 2, cells =
     [0 \<mapsto> \<lparr>sl_data = \<lparr>pid = 7, nleft = 5, status = 0\<rparr>, sle_next = None\<rparr>,
      1 \<mapsto> \<lparr>sl_data = \<lparr>pid = 8, nleft = 5, status = 0\<rparr>, sle_next = Some 0\<rparr>]\<rparr> [1, 0] =
      [\<lparr>pid = 8, nleft = 5, status = 0\<rparr>, \<lparr>pid = 7, nleft = 5, status = 0\<rparr>]"
    by (simp add: slist_abs_def data_at_def)
  ultimately show ?thesis
    using delete_pool_obj_removes [of _ "[1, 0]" 7] by (fastforce simp: INT_MIN_def)
qed

text \<open>\<open>insert_pool\<close> puts a processor in front when the counter is below the limit, and leaves the
  counter alone.\<close>

lemma insert_pool_front:
  assumes "slist_ok s xs" "malloc_ok (brk s)" "n_proc s < 10"
  shows "\<exists>s' x. insert_pool malloc_ok p s = (Ret (), s') \<and> slist_ok s' (x # xs)
    \<and> slist_abs s' (x # xs) = fresh_processor\<lparr>pid := p\<rparr> # slist_abs s xs
    \<and> n_proc s' = n_proc s \<and> brk s' = Suc (brk s)"
proof -
  let ?x = "brk s"
  obtain s1 where s1: "proc_alloc malloc_ok s = (Ret (Some ?x), s1)" "slist_ok s1 xs"
    "cells s1 ?x = Some \<lparr>sl_data = fresh_processor, sle_next = None\<rparr>" "?x \<notin> set xs"
    "slist_abs s1 xs = slist_abs s xs" "n_proc s1 = n_proc s" "brk s1 = Suc (brk s)"
    using proc_alloc_ok [of s xs malloc_ok, OF assms(1,2)] by blast
  let ?n = "\<lparr>sl_data = fresh_processor\<lparr>pid := p\<rparr>, sle_next = None\<rparr>"
  let ?s = "s1\<lparr>cells := (cells s1)(?x \<mapsto> ?n)\<rparr>"
  have ok: "slist_ok ?s xs" "slist_abs ?s xs = slist_abs s xs"
    using s1 by (auto simp: slist_ok_def)
  obtain s2 where s2: "SLIST_INSERT_HEAD (Some ?x) ?s = (Ret (), s2)" "slist_ok s2 (?x # xs)"
    "slist_abs s2 (?x # xs) = fresh_processor\<lparr>pid := p\<rparr> # slist_abs ?s xs" "n_proc s2 = n_proc ?s"
    "brk s2 = brk ?s"
    using SLIST_INSERT_HEAD_ok [OF ok(1) _ s1(4), of ?n] by auto
  have "insert_pool malloc_ok p s = (Ret (), s2)"
    using assms(3) s1 s2(1)
    by (simp add: insert_pool_def NPROC_MAX_NUM_def sbind_def sseq_def unix_simps)
  with s2 ok(2) s1 show ?thesis by (intro exI [of _ s2] exI [of _ ?x]) simp
qed

lemma insert_pool_full: "10 \<le> n_proc s \<Longrightarrow> insert_pool malloc_ok p s = (Ret (), s)"
  by (simp add: insert_pool_def NPROC_MAX_NUM_def sbind_def unix_simps)

text \<open>Replacing a dead processor: \<open>delete_pool_obj\<close> and then \<open>insert_pool\<close>, as
  \<open>handler_dead_processor\<close> does in the parent. The list keeps its length, the counter falls by one
  every time: after \<open>k\<close> replacements it is \<open>k\<close> too low.\<close>

definition replace_processor :: "(nat \<Rightarrow> bool) \<Rightarrow> int \<times> int \<Rightarrow> (pool, unit) prog" where
  "replace_processor malloc_ok pq = sseq (delete_pool_obj (fst pq)) (insert_pool malloc_ok (snd pq))"

primrec replace_all :: "(nat \<Rightarrow> bool) \<Rightarrow> (int \<times> int) list \<Rightarrow> (pool, unit) prog" where
  "replace_all malloc_ok [] = sret ()"
| "replace_all malloc_ok (pq # pqs) = sseq (replace_processor malloc_ok pq) (replace_all malloc_ok pqs)"

lemma length_drop_pid: "length (drop_pid p ds) = (if has_pid p ds then length ds - 1 else length ds)"
  by (induction ds) (auto simp: has_pid_def Suc_diff_Suc dest: length_pos_if_in_set)

text \<open>Even when the dead process ids are not in the pool the counter falls, so the limit no longer
  bounds the list.\<close>

lemma replacing_loses_count_eq:
  assumes "slist_ok s xs" "\<forall>a. malloc_ok a" "n_proc s \<le> 10" "INT_MIN + int (length pqs) \<le> n_proc s"
  shows "\<exists>s' ys. replace_all malloc_ok pqs s = (Ret (), s') \<and> slist_ok s' ys
    \<and> n_proc s' = n_proc s - int (length pqs) \<and> length xs \<le> length ys
    \<and> ((\<forall>(p, q) \<in> set pqs. p \<notin> pid ` set (slist_abs s xs) \<union> snd ` set pqs) \<longrightarrow>
         length ys = length xs + length pqs)"
  using assms(1,3,4)
proof (induction pqs arbitrary: s xs)
  case Nil
  then show ?case by (auto simp: sret_def)
next
  case (Cons pq pqs)
  obtain p q where pq: "pq = (p, q)" by (metis prod.exhaust)
  obtain s1 ys1 where s1: "delete_pool_obj p s = (Ret (), s1)" "slist_ok s1 ys1"
    "slist_abs s1 ys1 = drop_pid p (slist_abs s xs)" "n_proc s1 = n_proc s - 1"
    using delete_pool_obj_eq [OF Cons.prems(1), of p] Cons.prems(3) by auto
  obtain s2 x where s2: "insert_pool malloc_ok q s1 = (Ret (), s2)" "slist_ok s2 (x # ys1)"
    "slist_abs s2 (x # ys1) = fresh_processor\<lparr>pid := q\<rparr> # slist_abs s1 ys1" "n_proc s2 = n_proc s1"
    using insert_pool_front [OF s1(2), of malloc_ok q] assms(2) s1(4) Cons.prems(2) by force
  have l1: "length ys1 = length (drop_pid p (slist_abs s xs))"
    using s1(3) by (metis length_slist_abs)
  have sub: "set (drop_pid p ds) \<subseteq> set ds" for ds by (induction ds) auto
  obtain s' ys where s': "replace_all malloc_ok pqs s2 = (Ret (), s')" "slist_ok s' ys"
    "n_proc s' = n_proc s2 - int (length pqs)" "length (x # ys1) \<le> length ys"
    "(\<forall>(p', q') \<in> set pqs. p' \<notin> pid ` set (slist_abs s2 (x # ys1)) \<union> snd ` set pqs) \<longrightarrow>
       length ys = length (x # ys1) + length pqs"
    using Cons.IH [OF s2(2)] s2(4) s1(4) Cons.prems(2,3) unfolding s2(4) s1(4) by fastforce
  have "replace_all malloc_ok (pq # pqs) s = (Ret (), s')"
    using s1(1) s2(1) s'(1) by (simp add: replace_processor_def pq sseq_def sbind_def)
  moreover have "length xs \<le> length ys"
    using s'(4) l1 by (simp add: length_drop_pid split: if_splits)
  moreover have "length ys = length xs + length (pq # pqs)"
    if h: "\<forall>(p', q') \<in> set (pq # pqs). p' \<notin> pid ` set (slist_abs s xs) \<union> snd ` set (pq # pqs)"
  proof -
    have "\<not> has_pid p (slist_abs s xs)" using h pq by (auto simp: has_pid_def)
    then have "length ys1 = length xs" using l1 by (simp add: length_drop_pid)
    moreover have "pid ` set (slist_abs s2 (x # ys1)) \<subseteq> insert q (pid ` set (slist_abs s xs))"
      using s1(3) s2(3) sub [of "slist_abs s xs"] by auto
    then have "\<forall>(p', q') \<in> set pqs. p' \<notin> pid ` set (slist_abs s2 (x # ys1)) \<union> snd ` set pqs"
      using h unfolding pq list.set snd_conv image_insert by blast
    ultimately show ?thesis using s'(5) by simp
  qed
  ultimately show ?case using s' s2(4) s1(4) by (intro exI [of _ s'] exI [of _ ys]) auto
qed

section \<open>Choosing a processor\<close>

lemma notice_walk_none:
  assumes "length xs = length ds" "\<forall>d \<in> set ds. nleft d < fst v"
  shows "walk notice_step (zip xs ds) v = (v, ds, 0)"
  using assms by (induction xs ds rule: list_induct2) (auto simp: notice_step_def)

lemma is_last_max_Cons:
  "is_last_max ds j \<Longrightarrow> nleft d \<le> nleft (ds ! j) \<Longrightarrow> is_last_max (d # ds) (Suc j)"
  by (auto simp: is_last_max_def less_Suc_eq_0_disj nth_Cons split: nat.splits)

lemma is_last_max_0: "\<forall>d' \<in> set ds. nleft d' < nleft d \<Longrightarrow> is_last_max (d # ds) 0"
  by (auto simp: is_last_max_def nth_Cons less_imp_le split: nat.splits)

lemma notice_walk:
  assumes "length xs = length ds" "\<exists>d \<in> set ds. fst v \<le> nleft d"
  shows "\<exists>j. is_last_max ds j \<and>
    walk notice_step (zip xs ds) v = ((nleft (ds ! j), pid (ds ! j), Some (xs ! j)), ds, 0)"
  using assms
proof (induction xs ds arbitrary: v rule: list_induct2)
  case (Cons x xs d ds)
  let ?v = "if fst v \<le> nleft d then (nleft d, pid d, Some x) else v"
  have w: "walk notice_step (zip (x # xs) (d # ds)) v =
      (case walk notice_step (zip xs ds) ?v of (v'', ds', k) \<Rightarrow> (v'', d # ds', k))"
    by (simp add: notice_step_def)
  have fv: "nleft d \<le> fst ?v" "fst v \<le> fst ?v" by auto
  show ?case
  proof (cases "\<exists>d' \<in> set ds. fst ?v \<le> nleft d'")
    case True
    from Cons.IH [OF this] obtain j where j: "is_last_max ds j"
      "walk notice_step (zip xs ds) ?v = ((nleft (ds ! j), pid (ds ! j), Some (xs ! j)), ds, 0)"
      by blast
    have "nleft d \<le> nleft (ds ! j)"
      using True j(1) fv(1) by (fastforce simp: is_last_max_def in_set_conv_nth)
    with is_last_max_Cons [OF j(1)] show ?thesis
      unfolding w j(2) by (intro exI [of _ "Suc j"]) simp
  next
    case False
    then have lt: "\<forall>d' \<in> set ds. nleft d' < fst ?v" by auto
    have "fst v \<le> nleft d"
    proof (rule ccontr)
      assume "\<not> fst v \<le> nleft d"
      with Cons.prems lt show False by auto
    qed
    with lt is_last_max_0 [of ds d] notice_walk_none [OF Cons.hyps lt] show ?thesis
      unfolding w by (intro exI [of _ 0]) simp
  qed
qed simp

text \<open>The pool after a choice.\<close>

definition take_slot :: "processor_t list \<Rightarrow> nat \<Rightarrow> processor_t list" where
  "take_slot ds j = ds[j := (ds ! j)\<lparr>nleft := nleft (ds ! j) - 1\<rparr>]"

lemma notice_child_eq:
  assumes "slist_ok s xs" "xs \<noteq> []" "\<exists>d \<in> set (slist_abs s xs). INT_MIN < nleft d"
  shows "\<exists>j s'. is_last_max (slist_abs s xs) j \<and> notice_child pid0 s = (Ret (pid (slist_abs s xs ! j)), s')
    \<and> slist_ok s' xs \<and> slist_abs s' xs = take_slot (slist_abs s xs) j \<and> n_proc s' = n_proc s"
proof -
  obtain x xs' where xs: "xs = x # xs'" using assms(2) by (cases xs) auto
  obtain n0 where n0: "slh_first s = Some x" "cells s x = Some n0"
    using assms(1) xs by (auto simp: slist_ok_def)
  let ?ds = "slist_abs s xs"
  have "\<exists>d \<in> set ?ds. fst (nleft (sl_data n0), pid0, None :: ptr) \<le> nleft d"
    using xs n0(2) by (auto simp: slist_abs_def data_at_def)
  from notice_walk [OF _ this, of xs] obtain j where j: "is_last_max ?ds j"
    "walk notice_step (zip xs ?ds) (nleft (sl_data n0), pid0, None) =
      ((nleft (?ds ! j), pid (?ds ! j), Some (xs ! j)), ?ds, 0)"
    by auto
  obtain s1 where s1: "SLIST_FOREACH notice_body (nleft (sl_data n0), pid0, None) s =
      (Ret (nleft (?ds ! j), pid (?ds ! j), Some (xs ! j)), s1)"
    "slist_ok s1 xs" "slist_abs s1 xs = ?ds" "n_proc s1 = n_proc s"
    using notice.foreach_walk [OF assms(1) j(2)] by auto
  have jl: "j < length xs" using j(1) by (simp add: is_last_max_def)
  obtain nj where nj: "cells s1 (xs ! j) = Some nj"
    using s1(2) jl by (metis chain_alloc nth_mem option.exhaust slist_ok_chain)
  have dj: "sl_data nj = ?ds ! j"
    using s1(3) jl nj by (metis data_at_def nth_map option.simps(5) slist_abs_def)
  let ?n = "nj\<lparr>sl_data := (sl_data nj)\<lparr>nleft := nleft (sl_data nj) - 1\<rparr>\<rparr>"
  let ?s = "s1\<lparr>cells := (cells s1)(xs ! j \<mapsto> ?n)\<rparr>"
  have "INT_MIN < nleft (sl_data nj)"
    using assms(3) j(1) unfolding dj by (fastforce simp: is_last_max_def in_set_conv_nth)
  then have "notice_child pid0 s = (Ret (pid (?ds ! j)), ?s)"
    using s1(1) nj n0 by (simp add: notice_child_def sbind_def sseq_def unix_simps SLIST_FIRST_def)
  moreover have "slist_ok ?s xs"
    using s1(2) nj by (auto simp: slist_ok_def chain_upd_data)
  moreover have "slist_abs ?s xs = take_slot ?ds j"
  proof (rule nth_equalityI)
    fix i assume "i < length (slist_abs ?s xs)"
    then show "slist_abs ?s xs ! i = take_slot ?ds j ! i"
      using jl dj slist_ok_distinct [OF assms(1)] arg_cong [OF s1(3), of "\<lambda>zs. zs ! i"]
      by (auto simp: slist_abs_def take_slot_def data_at_def nth_list_update nth_eq_iff_index_eq)
  qed (simp add: take_slot_def)
  ultimately show ?thesis using j(1) s1(4) by (intro exI [of _ j] exI [of _ ?s]) simp
qed

theorem notice_child_takes_last_max:
  assumes "slist_ok s xs" "xs \<noteq> []" "\<exists>d \<in> set (slist_abs s xs). INT_MIN < nleft d"
  shows "\<exists>j s'. is_last_max (slist_abs s xs) j \<and> notice_child pid0 s = (Ret (pid (slist_abs s xs ! j)), s')
    \<and> slist_ok s' xs \<and> slist_abs s' xs = take_slot (slist_abs s xs) j \<and> n_proc s' = n_proc s"
  by (rule notice_child_eq) (fact assms)+

theorem notice_child_takes_last_max_witness:
  "\<exists>s'. notice_child 0 \<lparr>n_proc = 2, slh_first = Some 1, brk = 2, cells =
     [0 \<mapsto> \<lparr>sl_data = \<lparr>pid = 7, nleft = 5, status = 0\<rparr>, sle_next = None\<rparr>,
      1 \<mapsto> \<lparr>sl_data = \<lparr>pid = 8, nleft = 5, status = 0\<rparr>, sle_next = Some 0\<rparr>]\<rparr> = (Ret 7, s') \<and> map nleft (slist_abs s' [1, 0]) = [5, 4]"
proof -
  have "slist_ok \<lparr>n_proc = 2, slh_first = Some 1, brk = 2, cells =
     [0 \<mapsto> \<lparr>sl_data = \<lparr>pid = 7, nleft = 5, status = 0\<rparr>, sle_next = None\<rparr>,
      1 \<mapsto> \<lparr>sl_data = \<lparr>pid = 8, nleft = 5, status = 0\<rparr>, sle_next = Some 0\<rparr>]\<rparr> [1, 0]" by (simp add: slist_ok_def)
  from notice_child_takes_last_max [OF this, of 0] obtain j s' where
    j: "is_last_max (slist_abs \<lparr>n_proc = 2, slh_first = Some 1, brk = 2, cells =
     [0 \<mapsto> \<lparr>sl_data = \<lparr>pid = 7, nleft = 5, status = 0\<rparr>, sle_next = None\<rparr>,
      1 \<mapsto> \<lparr>sl_data = \<lparr>pid = 8, nleft = 5, status = 0\<rparr>, sle_next = Some 0\<rparr>]\<rparr> [1, 0]) j"
      "notice_child 0 \<lparr>n_proc = 2, slh_first = Some 1, brk = 2, cells =
     [0 \<mapsto> \<lparr>sl_data = \<lparr>pid = 7, nleft = 5, status = 0\<rparr>, sle_next = None\<rparr>,
      1 \<mapsto> \<lparr>sl_data = \<lparr>pid = 8, nleft = 5, status = 0\<rparr>, sle_next = Some 0\<rparr>]\<rparr> = (Ret (pid (slist_abs \<lparr>n_proc = 2, slh_first = Some 1, brk = 2, cells =
     [0 \<mapsto> \<lparr>sl_data = \<lparr>pid = 7, nleft = 5, status = 0\<rparr>, sle_next = None\<rparr>,
      1 \<mapsto> \<lparr>sl_data = \<lparr>pid = 8, nleft = 5, status = 0\<rparr>, sle_next = Some 0\<rparr>]\<rparr> [1, 0] ! j)), s')"
      "slist_abs s' [1, 0] = take_slot (slist_abs \<lparr>n_proc = 2, slh_first = Some 1, brk = 2, cells =
     [0 \<mapsto> \<lparr>sl_data = \<lparr>pid = 7, nleft = 5, status = 0\<rparr>, sle_next = None\<rparr>,
      1 \<mapsto> \<lparr>sl_data = \<lparr>pid = 8, nleft = 5, status = 0\<rparr>, sle_next = Some 0\<rparr>]\<rparr> [1, 0]) j"
    by (auto simp: slist_abs_def data_at_def INT_MIN_def)
  then have "j = 1"
    by (auto simp: is_last_max_def slist_abs_def data_at_def less_Suc_eq)
  with j show ?thesis by (auto simp: slist_abs_def data_at_def take_slot_def)
qed

text \<open>The load stays balanced, whatever number of connections is handed out.\<close>

primrec notice_children :: "int \<Rightarrow> nat \<Rightarrow> (pool, int list) prog" where
  "notice_children pid0 0 = sret []"
| "notice_children pid0 (Suc k) =
     sbind (notice_child pid0) (\<lambda>p. sbind (notice_children pid0 k) (\<lambda>ps. sret (p # ps)))"

lemma take_slot_balanced:
  assumes "balanced ds" "is_last_max ds j"
  shows "balanced (take_slot ds j)"
proof -
  let ?d = "(ds ! j)\<lparr>nleft := nleft (ds ! j) - 1\<rparr>"
  have j: "j < length ds" "\<forall>d \<in> set ds. nleft d \<le> nleft (ds ! j)"
    using assms(2) by (auto simp: is_last_max_def in_set_conv_nth)
  have d: "nleft ?d = nleft (ds ! j) - 1" "nleft (ds ! j) \<le> nleft a + 1" if "a \<in> set ds" for a
    using assms(1) j(1) that by (auto simp: balanced_def)
  have "set (take_slot ds j) \<subseteq> insert ?d (set ds)"
    by (auto simp: take_slot_def dest: set_update_subset_insert [THEN subsetD])
  then show ?thesis
    using d j(2) assms(1) unfolding balanced_def by (smt (verit) insert_iff subsetD)
qed

lemma sum_list_update_int:
  "j < length xs \<Longrightarrow> sum_list (xs[j := y]) = sum_list xs + y - (xs ! j :: int)"
  by (induction xs arbitrary: j) (auto split: nat.split)

lemma slots_left:
  assumes "int (length xs) * INT_MIN < sum_list (map nleft (slist_abs s xs))"
  shows "\<exists>d \<in> set (slist_abs s xs). INT_MIN < nleft d"
proof (rule ccontr)
  assume "\<not> ?thesis"
  then have "sum_list (map nleft (slist_abs s xs)) \<le> sum_list (map (\<lambda>_. INT_MIN) (slist_abs s xs))"
    by (intro sum_list_mono) auto
  with assms show False by (simp add: sum_list_triv)
qed

text \<open>
  C5: Handing out connections, however many the pool can count (as long as the free slots of
  its n processors have not all come down to the smallest int, 2^31 below zero each), keeps
  the pool balanced: the free slots of two processors differ by at most one, the processes
  stay the same and every connection takes one slot.
\<close>

theorem notice_children_balanced:
  assumes "slist_ok s xs" "xs \<noteq> []" "balanced (slist_abs s xs)"
    and "int (length xs) * INT_MIN + int k \<le> sum_list (map nleft (slist_abs s xs))"
  shows "\<exists>ps s'. notice_children pid0 k s = (Ret ps, s') \<and> length ps = k \<and> slist_ok s' xs
    \<and> balanced (slist_abs s' xs) \<and> set ps \<subseteq> pid ` set (slist_abs s xs)
    \<and> map pid (slist_abs s' xs) = map pid (slist_abs s xs)
    \<and> sum_list (map nleft (slist_abs s' xs)) = sum_list (map nleft (slist_abs s xs)) - int k"
  using assms(1,3,4)
proof (induction k arbitrary: s)
  case 0
  then show ?case by (auto simp: sret_def)
next
  case (Suc k)
  have room: "int (length xs) * INT_MIN < sum_list (map nleft (slist_abs s xs))"
    using Suc.prems(3) by simp
  obtain j s1 where j: "is_last_max (slist_abs s xs) j" "notice_child pid0 s = (Ret (pid (slist_abs s xs ! j)), s1)"
    "slist_ok s1 xs" "slist_abs s1 xs = take_slot (slist_abs s xs) j"
    using notice_child_eq [OF Suc.prems(1) assms(2) slots_left] room by blast
  have jl: "j < length (slist_abs s xs)" using j(1) by (simp add: is_last_max_def)
  have m: "map pid (slist_abs s1 xs) = map pid (slist_abs s xs)"
    using jl by (simp add: j(4) take_slot_def map_update) (metis length_slist_abs list_update_id nth_map)
  have sm: "sum_list (map nleft (slist_abs s1 xs)) = sum_list (map nleft (slist_abs s xs)) - 1"
    using jl by (simp add: j(4) take_slot_def map_update sum_list_update_int)
  have "balanced (slist_abs s1 xs)"
    using take_slot_balanced [OF Suc.prems(2) j(1)] j(4) by simp
  from Suc.IH [OF j(3) this] Suc.prems(3) sm obtain ps s' where s': "notice_children pid0 k s1 = (Ret ps, s')"
    "length ps = k" "slist_ok s' xs" "balanced (slist_abs s' xs)" "set ps \<subseteq> pid ` set (slist_abs s1 xs)"
    "map pid (slist_abs s' xs) = map pid (slist_abs s1 xs)"
    "sum_list (map nleft (slist_abs s' xs)) = sum_list (map nleft (slist_abs s1 xs)) - int k"
    by auto
  have "pid ` set (slist_abs s1 xs) = pid ` set (slist_abs s xs)"
    using m by (metis list.set_map)
  with s' j(2) m sm jl show ?case
    by (intro exI [of _ "pid (slist_abs s xs ! j) # ps"] exI [of _ s']) (auto simp: sbind_def sret_def)
qed

theorem notice_children_balanced_witness:
  "\<exists>ps s'. notice_children 0 3 \<lparr>n_proc = 2, slh_first = Some 1, brk = 2, cells =
     [0 \<mapsto> \<lparr>sl_data = \<lparr>pid = 7, nleft = 5, status = 0\<rparr>, sle_next = None\<rparr>,
      1 \<mapsto> \<lparr>sl_data = \<lparr>pid = 8, nleft = 5, status = 0\<rparr>, sle_next = Some 0\<rparr>]\<rparr> = (Ret ps, s') \<and> length ps = 3 \<and> set ps \<subseteq> {7, 8}
    \<and> balanced (slist_abs s' [1, 0]) \<and> sum_list (map nleft (slist_abs s' [1, 0])) = 7"
proof -
  have "slist_ok \<lparr>n_proc = 2, slh_first = Some 1, brk = 2, cells =
     [0 \<mapsto> \<lparr>sl_data = \<lparr>pid = 7, nleft = 5, status = 0\<rparr>, sle_next = None\<rparr>,
      1 \<mapsto> \<lparr>sl_data = \<lparr>pid = 8, nleft = 5, status = 0\<rparr>, sle_next = Some 0\<rparr>]\<rparr> [1, 0]" by (simp add: slist_ok_def)
  from notice_children_balanced [OF this, of 3 0] show ?thesis
    by (auto simp: slist_abs_def data_at_def balanced_def INT_MIN_def)
qed

section \<open>Signals and status\<close>

lemma status_walk:
  "length xs = length ds \<Longrightarrow>
   walk (\<lambda>_ d u. if pid d = p then (False, (), d\<lparr>status := 1\<rparr>, 0) else (False, (), d, 0)) (zip xs ds) () =
   ((), map (\<lambda>d. if pid d = p then d\<lparr>status := 1\<rparr> else d) ds, 0)"
  by (induction xs ds rule: list_induct2) auto

theorem set_status_ok_marks:
  assumes "slist_ok s xs"
  shows "\<exists>s'. set_status_ok p s = (Ret (), s') \<and> slist_ok s' xs \<and> n_proc s' = n_proc s
    \<and> slist_abs s' xs = map (\<lambda>d. if pid d = p then d\<lparr>status := 1\<rparr> else d) (slist_abs s xs)"
  using status_ok.foreach_walk [OF assms status_walk, of p] by (auto simp: set_status_ok_def)

lemma kill_walk:
  "length xs = length ds \<Longrightarrow>
   walk (\<lambda>_ d ks. (False, ks @ [(pid d, SIGINT)], d, 0)) (zip xs ds) ks =
   (ks @ map (\<lambda>d. (pid d, SIGINT)) ds, ds, 0)"
  by (induction xs ds arbitrary: ks rule: list_induct2) auto

theorem tell_chld_exit_kills:
  assumes "slist_ok s xs"
  shows "\<exists>s'. tell_chld_exit s = (Ret (map (\<lambda>d. (pid d, SIGINT)) (slist_abs s xs)), s') \<and> slist_ok s' xs
    \<and> slist_abs s' xs = slist_abs s xs"
  using kill.foreach_walk [OF assms kill_walk, of "[]"] by (auto simp: tell_chld_exit_def)

text \<open>\<open>cross_ok\<close> is meant to ask whether the processor \<open>p\<close> may accept; it overwrites the process
  ids up to the first processor with status 1.\<close>

lemma cross_walk:
  assumes "length xs = length ds" "\<forall>d \<in> set ds. status d \<noteq> 1"
  shows "walk (\<lambda>_ d res. if p \<noteq> 0 \<and> status d = 1 then (True, 0, d\<lparr>pid := 1\<rparr>, 0)
             else (False, res, d\<lparr>pid := 0\<rparr>, 0)) (zip xs ds) r =
    (r, map (\<lambda>d. d\<lparr>pid := 0\<rparr>) ds, 0)"
  using assms by (induction xs ds rule: list_induct2) auto

lemma cross_walk_found:
  assumes "length xs = length (ds @ e # es)" "\<forall>d \<in> set ds. status d \<noteq> 1" "status e = 1" "p \<noteq> 0"
  shows "walk (\<lambda>_ d res. if p \<noteq> 0 \<and> status d = 1 then (True, 0, d\<lparr>pid := 1\<rparr>, 0)
             else (False, res, d\<lparr>pid := 0\<rparr>, 0)) (zip xs (ds @ e # es)) r =
    (0, map (\<lambda>d. d\<lparr>pid := 0\<rparr>) ds @ e\<lparr>pid := 1\<rparr> # es, 0)"
  using assms
proof (induction ds arbitrary: xs)
  case Nil
  then show ?case by (cases xs) auto
next
  case (Cons d ds)
  then show ?case by (cases xs) auto
qed

theorem cross_ok_overwrites_pids:
  assumes "slist_ok s xs" "slist_abs s xs = ds @ es" "\<forall>d \<in> set ds. status d \<noteq> 1"
    and "es = [] \<or> status (hd es) = 1 \<and> p \<noteq> 0"
  shows "\<exists>s'. cross_ok p s = (Ret (if es = [] then - 1 else 0), s') \<and> slist_ok s' xs
    \<and> slist_abs s' xs = map (\<lambda>d. d\<lparr>pid := 0\<rparr>) ds @ (if es = [] then [] else (hd es)\<lparr>pid := 1\<rparr> # tl es)"
proof (cases es)
  case Nil
  with assms cross.foreach_walk [OF assms(1) cross_walk [of xs "slist_abs s xs" p "- 1"]] show ?thesis
    by (auto simp: cross_ok_def)
next
  case (Cons e es')
  then have "length xs = length (ds @ e # es')" using assms(2) by (metis length_slist_abs)
  with assms Cons cross.foreach_walk [OF assms(1), of p] cross_walk_found [of xs ds e es' p "- 1"]
  show ?thesis by (fastforce simp: cross_ok_def)
qed

theorem cross_ok_overwrites_pids_witness:
  "\<exists>s'. cross_ok 7 \<lparr>n_proc = 2, slh_first = Some 1, brk = 2, cells =
     [0 \<mapsto> \<lparr>sl_data = \<lparr>pid = 7, nleft = 5, status = 0\<rparr>, sle_next = None\<rparr>,
      1 \<mapsto> \<lparr>sl_data = \<lparr>pid = 8, nleft = 5, status = 0\<rparr>, sle_next = Some 0\<rparr>]\<rparr> = (Ret (- 1), s') \<and> map pid (slist_abs s' [1, 0]) = [0, 0]"
proof -
  have "slist_ok \<lparr>n_proc = 2, slh_first = Some 1, brk = 2, cells =
     [0 \<mapsto> \<lparr>sl_data = \<lparr>pid = 7, nleft = 5, status = 0\<rparr>, sle_next = None\<rparr>,
      1 \<mapsto> \<lparr>sl_data = \<lparr>pid = 8, nleft = 5, status = 0\<rparr>, sle_next = Some 0\<rparr>]\<rparr> [1, 0]" by (simp add: slist_ok_def)
  from cross_ok_overwrites_pids [OF this, of "slist_abs \<lparr>n_proc = 2, slh_first = Some 1, brk = 2, cells =
     [0 \<mapsto> \<lparr>sl_data = \<lparr>pid = 7, nleft = 5, status = 0\<rparr>, sle_next = None\<rparr>,
      1 \<mapsto> \<lparr>sl_data = \<lparr>pid = 8, nleft = 5, status = 0\<rparr>, sle_next = Some 0\<rparr>]\<rparr> [1, 0]" "[]" 7] show ?thesis
    by (auto simp: slist_abs_def data_at_def)
qed

end
