(* ===== verification/SockNet.thy ===== *)
theory SockNet
  imports CBase
begin

text \<open>
  Sockets and the checked wrappers: \<open>open_clientfd\<close>, \<open>open_listenfd\<close>, \<open>Setnoblock\<close> (inc/sock.h),
  and the functions of inc/sock.h, inc/common.h, inc/epoll_inc.h and utils/utils.h that call one
  library function and stop the process when it fails.

  What the library answers is an argument: for every address \<open>getaddrinfo\<close> found, the results
  of \<open>socket\<close> and of \<open>connect\<close> or \<open>bind\<close> for it. The state is the list of open descriptors.
\<close>

unbundle bit_operations_syntax

section \<open>Checked calls\<close>

text \<open>\<open>if ((rval = call(...)) < 0) unix_error(...); return rval;\<close>: the argument is what the
  call answers. \<open>unix_error\<close>, \<open>err_dump\<close> and \<open>err_exit\<close> print and call \<open>exit\<close>.\<close>

definition unix_error :: "'a cres" where
  "unix_error = Exit"

definition Fork :: "int \<Rightarrow> int cres" where
  "Fork pid = (if pid < 0 then unix_error else Ret pid)"

definition Socket :: "int \<Rightarrow> int cres" where
  "Socket rval = (if rval < 0 then unix_error else Ret rval)"

definition Connect :: "int \<Rightarrow> int cres" where
  "Connect rval = (if rval < 0 then unix_error else Ret rval)"

definition Bind :: "int \<Rightarrow> int cres" where
  "Bind rval = (if rval < 0 then unix_error else Ret rval)"

definition Listen :: "int \<Rightarrow> int cres" where
  "Listen rval = (if rval < 0 then unix_error else Ret rval)"

definition Accept :: "int \<Rightarrow> int cres" where
  "Accept rval = (if rval < 0 then unix_error else Ret rval)"

definition Getaddrinfo :: "int \<Rightarrow> int cres" where
  "Getaddrinfo rval = (if rval < 0 then unix_error else Ret rval)"

definition Getnameinfo :: "int \<Rightarrow> int cres" where
  "Getnameinfo rval = (if rval < 0 then unix_error else Ret rval)"

definition Setsockopt :: "int \<Rightarrow> int cres" where
  "Setsockopt rval = (if rval < 0 then unix_error else Ret rval)"

definition Sigprocmask :: "int \<Rightarrow> int cres" where
  "Sigprocmask rval = (if rval < 0 then unix_error else Ret rval)"

definition Open :: "int \<Rightarrow> int cres" where
  "Open rval = (if rval < 0 then unix_error else Ret rval)"

definition Stat :: "int \<Rightarrow> int cres" where
  "Stat rval = (if rval < 0 then unix_error else Ret rval)"

definition Pipe :: "int \<Rightarrow> int cres" where
  "Pipe rval = (if rval < 0 then unix_error else Ret rval)"

definition Dup :: "int \<Rightarrow> int cres" where
  "Dup rval = (if rval < 0 then unix_error else Ret rval)"

definition Close :: "int \<Rightarrow> int cres" where
  "Close ret = (if ret \<noteq> 0 then unix_error else Ret ret)"

definition Fcntl :: "int \<Rightarrow> int cres" where
  "Fcntl rval = (if rval = - 1 then unix_error else Ret rval)"

text \<open>\<open>Select\<close> warns when the time is over.\<close>

definition Select :: "int \<Rightarrow> int cres" where
  "Select rval = (if rval < 0 then unix_error else if rval = 0 then Ret rval else Ret rval)"

definition Epoll_wait :: "int \<Rightarrow> int cres" where
  "Epoll_wait fdmax = (if fdmax < 0 then unix_error else Ret fdmax)"

text \<open>Pointers: \<open>None\<close> is \<open>NULL\<close>.\<close>

definition Malloc :: "'p option \<Rightarrow> 'p option cres" where
  "Malloc ptr = (if ptr = None then unix_error else Ret ptr)"

definition Calloc :: "'p option \<Rightarrow> 'p option cres" where
  "Calloc rptr = (if rptr = None then unix_error else Ret rptr)"

text \<open>\<open>Realloc\<close> does not stop: it frees the old block and answers \<open>NULL\<close>. The result says whether the
  old block was freed by it.\<close>

definition Realloc :: "'p option \<Rightarrow> ('p option \<times> bool) cres" where
  "Realloc ptr = (if ptr = None then Ret (ptr, True) else Ret (ptr, False))"

text \<open>The contract of a checked call: it gives back what the library answered, unless that is an
  error, in which case it does not come back.\<close>

locale checked_call =
  fixes wrap :: "'r \<Rightarrow> 'r cres"
    and failed :: "'r \<Rightarrow> bool"
  assumes wrap_failed: "failed r \<Longrightarrow> wrap r = Exit"
    and wrap_ok: "\<not> failed r \<Longrightarrow> wrap r = Ret r"
begin

lemma wrap_iff: "wrap r = Ret r' \<longleftrightarrow> r' = r \<and> \<not> failed r"
  using wrap_failed wrap_ok by (cases "failed r") auto

lemma wrap_total: "wrap r \<noteq> Wait \<and> wrap r \<noteq> Fault"
  using wrap_failed wrap_ok by (cases "failed r") auto

end

lemmas wrapper_defs = unix_error_def Fork_def Socket_def Connect_def Bind_def Listen_def Accept_def
  Getaddrinfo_def Getnameinfo_def Setsockopt_def Sigprocmask_def Open_def Stat_def Pipe_def Dup_def
  Close_def Fcntl_def Select_def Epoll_wait_def Malloc_def Calloc_def Realloc_def

interpretation Fork: checked_call Fork "\<lambda>r. r < 0"
  by unfold_locales (simp_all add: wrapper_defs)

interpretation Accept: checked_call Accept "\<lambda>r. r < 0"
  by unfold_locales (simp_all add: wrapper_defs)

interpretation Bind: checked_call Bind "\<lambda>r. r < 0"
  by unfold_locales (simp_all add: wrapper_defs)

interpretation Listen: checked_call Listen "\<lambda>r. r < 0"
  by unfold_locales (simp_all add: wrapper_defs)

interpretation Close: checked_call Close "\<lambda>r. r \<noteq> 0"
  by unfold_locales (simp_all add: wrapper_defs)

interpretation Malloc: checked_call Malloc "\<lambda>p. p = None"
  by unfold_locales (simp_all add: wrapper_defs)

section \<open>Setnoblock\<close>

text \<open>\<open>getfl\<close> is what \<open>fcntl(fd, F_GETFL, 0)\<close> answers, \<open>setfl\<close> how \<open>fcntl(fd, F_SETFL, _)\<close> does;
  the state is the descriptor's status flags.\<close>

definition Setnoblock :: "c_int \<Rightarrow> c_int \<Rightarrow> (c_int \<Rightarrow> int) \<Rightarrow> (c_int, int) prog" where
  "Setnoblock status getfl setfl fl =
     (if sint getfl < 0 then (Exit, fl)
      else (let rval = getfl OR status
            in if setfl rval < 0 then (Exit, fl) else (Ret 0, rval)))"

lemma Setnoblock_sets:
  assumes "Setnoblock status getfl setfl fl = (Ret r, fl')"
  shows "r = 0 \<and> fl' AND status = status \<and> fl' AND getfl = getfl"
  using assms by (auto simp: Setnoblock_def Let_def bit_eq_iff bit_or_iff bit_and_iff split: if_splits)

section \<open>open_clientfd and open_listenfd\<close>

definition open_fd :: "int \<Rightarrow> int list \<Rightarrow> int list" where
  "open_fd fd fds = fds @ [fd]"

definition shut_fd :: "int \<Rightarrow> int list \<Rightarrow> int list" where
  "shut_fd fd fds = removeAll fd fds"

text \<open>\<open>socketpair\<close> answers \<open>-1\<close> or opens two descriptors.\<close>

definition S_pipe :: "(int \<times> int) option \<Rightarrow> (int list, int \<times> (int \<times> int) option) prog" where
  "S_pipe ans = (case ans of
      None \<Rightarrow> sret (- 1, None)
    | Some (a, b) \<Rightarrow> sseq (smod (open_fd a)) (sseq (smod (open_fd b)) (sret (0, Some (a, b)))))"

lemma S_pipe_opens:
  "S_pipe ans fds = (case ans of None \<Rightarrow> (Ret (- 1, None), fds) | Some (a, b) \<Rightarrow> (Ret (0, Some (a, b)), fds @ [a, b]))"
  by (auto simp: S_pipe_def sseq_def sbind_def smod_def sret_def open_fd_def split: option.split)

text \<open>For every address: what \<open>socket\<close> and \<open>connect\<close> answer. The result is \<open>None\<close> when the list is
  used up (\<open>p == NULL\<close>).\<close>

primrec connect_loop :: "(int \<times> int) list \<Rightarrow> int list \<Rightarrow> int option \<times> int list" where
  "connect_loop [] fds = (None, fds)"
| "connect_loop (a # as) fds =
     (let clientfd = fst a in
      if clientfd < 0 then connect_loop as fds
      else if snd a \<noteq> - 1 then (Some clientfd, open_fd clientfd fds)
      else connect_loop as (shut_fd clientfd (open_fd clientfd fds)))"

definition open_clientfd :: "int \<Rightarrow> (int \<times> int) list \<Rightarrow> (int list, int) prog" where
  "open_clientfd gai addrs fds =
     (case Getaddrinfo gai of
        Ret _ \<Rightarrow> (case connect_loop addrs fds of
            (None, fds') \<Rightarrow> (Ret (- 1), fds')
          | (Some clientfd, fds') \<Rightarrow> (Ret clientfd, fds'))
      | _ \<Rightarrow> (Exit, fds))"

text \<open>For every address: what \<open>socket\<close>, \<open>setsockopt\<close> and \<open>bind\<close> answer.\<close>

primrec bind_loop :: "(int \<times> int \<times> int) list \<Rightarrow> (int list, int option) prog" where
  "bind_loop [] = sret None"
| "bind_loop (a # as) = (case a of (listenfd, opt, bnd) \<Rightarrow>
     (if listenfd < 0 then bind_loop as
      else sseq (smod (open_fd listenfd))
        (case Setsockopt opt of
           Ret _ \<Rightarrow>
             (case Bind bnd of
                Ret r \<Rightarrow>
                  (if r = 0 then sret (Some listenfd)
                   else sseq (smod (shut_fd listenfd)) (bind_loop as))
              | _ \<Rightarrow> sexit)
         | _ \<Rightarrow> sexit)))"

definition open_listenfd :: "int \<Rightarrow> (int \<times> int \<times> int) list \<Rightarrow> int \<Rightarrow> (int list, int) prog" where
  "open_listenfd gai addrs lsn =
     (case Getaddrinfo gai of
        Ret _ \<Rightarrow> sbind (bind_loop addrs) (\<lambda>p. case p of
            None \<Rightarrow> sret (- 1)
          | Some listenfd \<Rightarrow>
              (case Listen lsn of
                 Ret r \<Rightarrow> (if r < 0 then sseq (smod (shut_fd listenfd)) (sret (- 1)) else sret listenfd)
               | _ \<Rightarrow> sexit))
      | _ \<Rightarrow> sexit)"

text \<open>The first address that connects wins, and only its descriptor is left open.\<close>

primrec first_connect :: "(int \<times> int) list \<Rightarrow> int" where
  "first_connect [] = - 1"
| "first_connect (a # as) = (if 0 \<le> fst a \<and> snd a \<noteq> - 1 then fst a else first_connect as)"

lemma connect_loop_first:
  assumes "\<forall>a \<in> set addrs. fst a \<notin> set fds"
  shows "connect_loop addrs fds =
    (if first_connect addrs = - 1 then (None, fds)
     else (Some (first_connect addrs), open_fd (first_connect addrs) fds))"
  using assms
proof (induction addrs)
  case (Cons a as)
  then show ?case by (cases a) (auto simp: shut_fd_def open_fd_def)
qed simp

text \<open>
  C37: open_clientfd answers the descriptor of the first address that connects, or -1, and
  leaves open no other descriptor than that one.
\<close>

theorem open_clientfd_first:
  assumes "0 \<le> gai" "\<forall>a \<in> set addrs. fst a \<notin> set fds"
  shows "open_clientfd gai addrs fds = (Ret (first_connect addrs),
    if first_connect addrs = - 1 then fds else open_fd (first_connect addrs) fds)"
  using assms connect_loop_first [OF assms(2)]
  by (simp add: open_clientfd_def wrapper_defs)

theorem open_clientfd_first_witness:
  "open_clientfd 0 [(- 1, 0), (4, - 1), (5, 0), (6, 0)] [3] = (Ret 5, [3, 5])"
  using open_clientfd_first [of 0 "[(- 1, 0), (4, - 1), (5, 0), (6, 0)]" "[3]"]
  by (simp add: open_fd_def)

text \<open>\<open>open_listenfd\<close>: the first address whose socket can be made decides; when it cannot be bound
  the process stops, and the addresses after it are never tried.\<close>

theorem open_listenfd_first_socket:
  assumes "0 \<le> gai" "\<forall>a \<in> set skip. fst a < 0" "0 \<le> listenfd" "0 \<le> opt" "bnd \<le> 0"
  shows "open_listenfd gai (skip @ (listenfd, opt, bnd) # as) lsn fds =
    (if bnd < 0 \<or> lsn < 0 then Exit else Ret listenfd, open_fd listenfd fds)"
proof -
  have "bind_loop (skip @ (listenfd, opt, bnd) # as) = bind_loop ((listenfd, opt, bnd) # as)"
    using assms(2) by (induction skip) (auto split: prod.split)
  with assms show ?thesis
    by (auto simp: open_listenfd_def wrapper_defs sbind_def sseq_def smod_def sexit_def sret_def)
qed

theorem open_listenfd_first_socket_witness:
  "open_listenfd 0 [(- 1, 0, 0), (4, 0, 0), (5, 0, 0)] 0 [3] = (Ret 4, [3, 4])
    \<and> open_listenfd 0 [(- 1, 0, 0), (4, 0, - 1), (5, 0, 0)] 0 [3] = (Exit, [3, 4])"
  using open_listenfd_first_socket [of 0 "[(- 1, 0, 0)]" 4 0 0 "[(5, 0, 0)]" 0 "[3]"]
    open_listenfd_first_socket [of 0 "[(- 1, 0, 0)]" 4 0 "- 1" "[(5, 0, 0)]" 0 "[3]"]
  by (simp add: open_fd_def)

end
