(* ===== verification/Worker.thy ===== *)
theory Worker
  imports Epoll FdPass ProcPool SockNet
begin

text \<open>
  The processes of the server: the loop of a worker (\<open>jump_task_pool_obj\<close>), the creation and
  replacement of workers (\<open>init_manager_proc\<close>, \<open>handler_dead_processor\<close>, inc/http_task.h), and
  \<open>start\<close> (src/core/epoll_circle.h) with its accept loop.

  What \<open>fork\<close> answers is an argument, so the same definition is the parent's run (positive
  answers) and the child's (the answer 0).
\<close>

section \<open>The worker\<close>

record worker =
  usock :: unix_end
  ev :: ep_st

definition on_usock :: "(unix_end, 'a) prog \<Rightarrow> (worker, 'a) prog" where
  "on_usock m w = (case m (usock w) of (r, u) \<Rightarrow> (r, w\<lparr>usock := u\<rparr>))"

definition on_ev :: "(ep_st, 'a) prog \<Rightarrow> (worker, 'a) prog" where
  "on_ev m w = (case m (ev w) of (r, e) \<Rightarrow> (r, w\<lparr>ev := e\<rparr>))"

text \<open>A descriptor that arrives is open in the worker, and in the server, which does not close its own.\<close>

definition install_fd :: "int \<Rightarrow> ep_st \<Rightarrow> ep_st" where
  "install_fd fd e = (if fd < 0 then e else e\<lparr>open_fds := fd # open_fds e, shared := fd # shared e\<rparr>)"

lemma on_usock_read_shorter:
  assumes "on_usock (Sock_fd_read buf n b) w = (Ret (sz, buf', fdo), w1)"
  shows "length (inbox (usock w1)) < length (inbox (usock w))" "0 \<le> sz" "ev w1 = ev w"
    "inbox (usock w1) = tl (inbox (usock w))"
proof -
  obtain r u where r: "Sock_fd_read buf n b (usock w) = (r, u)" by (metis prod.exhaust)
  with assms have "r = Ret (sz, buf', fdo)" "w1 = w\<lparr>usock := u\<rparr>" by (auto simp: on_usock_def)
  with r Sock_fd_read_result [of buf n b "usock w" sz buf' fdo u]
  show "length (inbox (usock w1)) < length (inbox (usock w))" "0 \<le> sz" "ev w1 = ev w"
    "inbox (usock w1) = tl (inbox (usock w))"
    by simp_all
qed

lemma on_ev_inbox: "on_ev m w = (r, w') \<Longrightarrow> usock w' = usock w"
  by (auto simp: on_ev_def split: prod.splits)

text \<open>\<open>errno0\<close> is what \<open>errno\<close> holds in the branch for a negative size.\<close>

function jump_task_pool_obj ::
  "http_env \<Rightarrow> int \<Rightarrow> (errno + (int \<times> c_int) list) list \<Rightarrow> errno \<Rightarrow> bytes \<Rightarrow> int \<Rightarrow> (worker, unit) prog" where
  "jump_task_pool_obj env create_ans waits errno0 buf clientfd w =
     (case on_usock (Sock_fd_read buf 2 True) w of
        (Ret (read_cnt, buf', fdo), w1) \<Rightarrow>
          (let clientfd' = (case fdo of None \<Rightarrow> clientfd | Some fd \<Rightarrow> fd) in
           if read_cnt < 0 then
             (if errno0 = EINTR then jump_task_pool_obj env create_ans waits errno0 buf' clientfd' w1
              else (Ret (), w1))
           else if read_cnt = 0 then (Ret (), w1)
           else (case on_ev (Open_epoll env create_ans waits clientfd')
                      (w1\<lparr>ev := install_fd clientfd' (ev w1)\<rparr>) of
               (Ret _, w2) \<Rightarrow> jump_task_pool_obj env create_ans waits errno0 buf' clientfd' w2
             | (Exit, w2) \<Rightarrow> (Exit, w2)
             | (Wait, w2) \<Rightarrow> (Wait, w2)
             | (Fault, w2) \<Rightarrow> (Fault, w2)))
      | (Exit, w1) \<Rightarrow> (Exit, w1)
      | (Wait, w1) \<Rightarrow> (Wait, w1)
      | (Fault, w1) \<Rightarrow> (Fault, w1))"
  by pat_completeness auto

termination
  by (relation "measure (\<lambda>(env, create_ans, waits, errno0, buf, clientfd, w). length (inbox (usock w)))")
    (auto dest!: on_usock_read_shorter(1) [OF sym] on_ev_inbox [OF sym])

declare jump_task_pool_obj.simps [simp del]

text \<open>A worker takes at most one message from its socket, ever: it returns only when it met end of
  file first, and after a message it stays in the event loop or ends.\<close>

lemma on_ev_epoll_stuck: "on_ev (Open_epoll env create_ans waits fd) w = (r, w') \<Longrightarrow> \<not> returned r"
  using do_epoll_stuck [of env create_ans waits fd "ev w"]
  by (auto simp: on_ev_def Open_epoll_def http_do_epoll_def split: prod.splits)

lemma jump_task_one_message:
  assumes "jump_task_pool_obj env create_ans waits errno0 buf clientfd w = (r, w')"
  shows "inbox (usock w') = inbox (usock w) \<or> inbox (usock w') = tl (inbox (usock w))"
    and "returned r \<Longrightarrow> \<exists>m ms. inbox (usock w) = Inr m # ms \<and> msg_iov m = []"
proof -
  obtain q w1 where q: "on_usock (Sock_fd_read buf 2 True) w = (q, w1)" by (metis prod.exhaust)
  have box: "inbox (usock w1) = inbox (usock w) \<or> inbox (usock w1) = tl (inbox (usock w))"
    using q by (auto simp: on_usock_def Sock_fd_read_def Let_def
        split: list.splits sum.splits option.splits if_splits)
  have "(inbox (usock w') = inbox (usock w) \<or> inbox (usock w') = tl (inbox (usock w)))
    \<and> (returned r \<longrightarrow> (\<exists>m ms. inbox (usock w) = Inr m # ms \<and> msg_iov m = []))"
  proof (cases q)
    case (Ret x)
    obtain sz buf' fdo where x: "x = (sz, buf', fdo)" by (metis prod_cases3)
    note rd = on_usock_read_shorter [OF q [unfolded Ret x]]
    let ?fd = "case fdo of None \<Rightarrow> clientfd | Some fd \<Rightarrow> fd"
    show ?thesis
    proof (cases "sz = 0")
      case True
      with assms q Ret x have "w' = w1" "r = Ret ()"
        by (simp_all add: jump_task_pool_obj.simps [of env] Let_def)
      moreover have "\<exists>m ms. inbox (usock w) = Inr m # ms \<and> msg_iov m = []"
        using q Ret x True by (auto simp: on_usock_def Sock_fd_read_def Let_def min_def
            split: list.splits sum.splits option.splits if_splits prod.splits)
      ultimately show ?thesis using box by simp
    next
      case False
      obtain q2 w2 where q2: "on_ev (Open_epoll env create_ans waits ?fd)
          (w1\<lparr>ev := install_fd ?fd (ev w1)\<rparr>) = (q2, w2)" by (metis prod.exhaust)
      have st: "\<not> returned q2" by (rule on_ev_epoll_stuck [OF q2])
      then have "r = q2" "w' = w2"
        using assms q Ret x False rd(2) q2
        by (cases q2; simp add: jump_task_pool_obj.simps [of env] Let_def)+
      with st on_ev_inbox [OF q2] box show ?thesis by simp
    qed
  next
    case Exit
    with assms q box show ?thesis by (auto simp: jump_task_pool_obj.simps [of env])
  next
    case Wait
    with assms q box show ?thesis by (auto simp: jump_task_pool_obj.simps [of env])
  next
    case Fault
    with assms q box show ?thesis by (auto simp: jump_task_pool_obj.simps [of env])
  qed
  then show "inbox (usock w') = inbox (usock w) \<or> inbox (usock w') = tl (inbox (usock w))"
    and "returned r \<Longrightarrow> \<exists>m ms. inbox (usock w) = Inr m # ms \<and> msg_iov m = []"
    by blast+
qed

text \<open>A thread that would serve one connection: it never gets to detaching itself.\<close>

definition pthread_handler ::
  "http_env \<Rightarrow> int \<Rightarrow> (errno + (int \<times> c_int) list) list \<Rightarrow> int \<Rightarrow> (ep_st, nat option) prog" where
  "pthread_handler env create_ans waits connfd = sseq (Open_epoll env create_ans waits connfd) (sret None)"

lemma pthread_handler_never_returns: "\<not> returned (fst (pthread_handler env create_ans waits connfd s))"
  using do_epoll_stuck [of env create_ans waits connfd s]
  by (auto simp: pthread_handler_def sseq_def sbind_def http_names split: prod.split cres.split)

section \<open>Creating and replacing workers\<close>

record proc_st =
  pool_of :: pool
  worker_of :: worker

definition on_pool :: "(pool, 'a) prog \<Rightarrow> (proc_st, 'a) prog" where
  "on_pool m s = (case m (pool_of s) of (r, p) \<Rightarrow> (r, s\<lparr>pool_of := p\<rparr>))"

definition on_worker :: "(worker, 'a) prog \<Rightarrow> (proc_st, 'a) prog" where
  "on_worker m s = (case m (worker_of s) of (r, w) \<Rightarrow> (r, s\<lparr>worker_of := w\<rparr>))"

text \<open>\<open>child\<close> is what the child runs: \<open>jump_task_pool_obj\<close> with its arguments.\<close>

definition handler_dead_processor ::
  "(nat \<Rightarrow> bool) \<Rightarrow> (worker, unit) prog \<Rightarrow> int \<Rightarrow> int \<Rightarrow> (proc_st, unit) prog" where
  "handler_dead_processor malloc_ok child fork_ans p =
     sseq (on_pool (delete_pool_obj p))
       (let p' = fork_ans in
        if p' < 0 then sexit
        else sseq (if p' = 0 then on_worker child else sret ())
               (on_pool (insert_pool malloc_ok p')))"

primrec init_loop :: "(worker, unit) prog \<Rightarrow> nat \<Rightarrow> int list \<Rightarrow> (proc_st, unit) prog" where
  "init_loop child 0 forks = sret ()"
| "init_loop child (Suc k) forks =
     (case forks of
        [] \<Rightarrow> (\<lambda>s. (Wait, s))
      | p # forks' \<Rightarrow>
          if p < 0 then sexit
          else sseq (if p = 0 then on_worker child else sret ())
                 (sseq (on_pool (insert_pool_obj p)) (init_loop child k forks')))"

definition init_manager_proc ::
  "(nat \<Rightarrow> bool) \<Rightarrow> (worker, unit) prog \<Rightarrow> int list \<Rightarrow> (proc_st, unit) prog" where
  "init_manager_proc malloc_ok child forks =
     sseq (on_pool (create_proc_pool malloc_ok)) (init_loop child NPROC_MAX_NUM forks)"

lemma on_pool_eq: "m (pool_of s) = (r, p) \<Longrightarrow> on_pool m s = (r, s\<lparr>pool_of := p\<rparr>)"
  by (simp add: on_pool_def)

lemma assign_idle_next:
  "\<forall>d \<in> set ds. pid d \<noteq> - 1 \<Longrightarrow>
   assign_idle p (ds @ replicate (Suc k) fresh_processor) =
     ds @ fresh_processor\<lparr>pid := p\<rparr> # replicate k fresh_processor"
  by (induction ds) (simp_all add: fresh_processor_def)

lemma init_loop_parent:
  assumes "slist_ok (pool_of s) xs" "\<forall>d \<in> set ds. pid d \<noteq> - 1"
    and "slist_abs (pool_of s) xs = ds @ replicate (length pids) fresh_processor"
    and "\<forall>p \<in> set pids. 0 < p" "n_proc (pool_of s) + int (length pids) \<le> INT_MAX"
  shows "\<exists>s'. init_loop child (length pids) (pids @ more_pids) s = (Ret (), s') \<and> slist_ok (pool_of s') xs
    \<and> slist_abs (pool_of s') xs = ds @ map (\<lambda>p. fresh_processor\<lparr>pid := p\<rparr>) pids
    \<and> n_proc (pool_of s') = n_proc (pool_of s) + int (length pids)"
  using assms
proof (induction pids arbitrary: s ds)
  case Nil
  then show ?case by (simp add: sret_def)
next
  case (Cons p pids)
  obtain q where q: "insert_pool_obj p (pool_of s) = (Ret (), q)" "slist_ok q xs"
    "slist_abs q xs = (ds @ [fresh_processor\<lparr>pid := p\<rparr>]) @ replicate (length pids) fresh_processor"
    "n_proc q = n_proc (pool_of s) + 1"
    using insert_pool_obj_eq [OF Cons.prems(1), of p] Cons.prems(2,3,5)
      assign_idle_next [of ds p "length pids"]
    by (auto simp: has_pid_def fresh_processor_def)
  have "\<forall>d \<in> set (ds @ [fresh_processor\<lparr>pid := p\<rparr>]). pid d \<noteq> - 1"
    using Cons.prems(2,4) by auto
  with Cons.IH [of "s\<lparr>pool_of := q\<rparr>" "ds @ [fresh_processor\<lparr>pid := p\<rparr>]"] q Cons.prems(4,5)
  obtain s' where s': "init_loop child (length pids) (pids @ more_pids) (s\<lparr>pool_of := q\<rparr>) = (Ret (), s')"
    "slist_ok (pool_of s') xs" "n_proc (pool_of s') = n_proc q + int (length pids)"
    "slist_abs (pool_of s') xs =
       (ds @ [fresh_processor\<lparr>pid := p\<rparr>]) @ map (\<lambda>p. fresh_processor\<lparr>pid := p\<rparr>) pids"
    by auto
  have "init_loop child (length (p # pids)) ((p # pids) @ more_pids) s = (Ret (), s')"
    using Cons.prems(4) s'(1) on_pool_eq [of "insert_pool_obj p" s, OF q(1)] by (simp add: sseq_def sbind_def sret_def)
  with s' q(4) show ?case by auto
qed

text \<open>The parent, after ten forks: a processor for every child, in order, and the counter at ten.\<close>

text \<open>
  C12: After ten forks the parent has a processor for every child, in the order of the forks,
  each with 200 free slots, and the counter at ten.
\<close>

theorem init_manager_proc_parent:
  assumes "slist_ok (pool_of s) []" "n_proc (pool_of s) = 0" "\<forall>a. malloc_ok a"
    and "length pids = 10" "\<forall>p \<in> set pids. 0 < p"
  shows "\<exists>s' xs. init_manager_proc malloc_ok child pids s = (Ret (), s') \<and> slist_ok (pool_of s') xs
    \<and> slist_abs (pool_of s') xs = map (\<lambda>p. fresh_processor\<lparr>pid := p\<rparr>) pids
    \<and> n_proc (pool_of s') = 10"
proof -
  obtain q xs where q: "create_loop malloc_ok 10 (pool_of s) = (Ret (), q)" "slist_ok q xs"
    "slist_abs q xs = replicate 10 fresh_processor" "n_proc q = 0"
    using create_loop_ok [OF assms(1,3), of 10] assms(2) by (auto simp: slist_abs_def)
  obtain s' where "init_loop child (length pids) (pids @ []) (s\<lparr>pool_of := q\<rparr>) = (Ret (), s')"
    "slist_ok (pool_of s') xs" "slist_abs (pool_of s') xs = [] @ map (\<lambda>p. fresh_processor\<lparr>pid := p\<rparr>) pids"
    "n_proc (pool_of s') = n_proc (pool_of (s\<lparr>pool_of := q\<rparr>)) + int (length pids)"
    using init_loop_parent [of "s\<lparr>pool_of := q\<rparr>" xs "[]" pids child "[]"] q assms(4,5) by (auto simp: INT_MAX_def)
  with q(1,4) assms(4) show ?thesis
    by (intro exI [of _ s'] exI [of _ xs])
      (simp add: init_manager_proc_def create_proc_pool_def NPROC_MAX_NUM_def sseq_def sbind_def
        on_pool_eq)
qed

theorem init_manager_proc_parent_witness:
  "\<forall>w. \<exists>s' xs. init_manager_proc (\<lambda>_. True) (\<lambda>w. (Wait, w)) (map int [1..<11])
      \<lparr>pool_of = \<lparr>n_proc = 0, slh_first = None, brk = 0, cells = Map.empty\<rparr>, worker_of = w\<rparr> = (Ret (), s')
    \<and> slist_ok (pool_of s') xs
    \<and> slist_abs (pool_of s') xs = map (\<lambda>p. fresh_processor\<lparr>pid := p\<rparr>) (map int [1..<11])
    \<and> n_proc (pool_of s') = 10"
proof
  fix w
  show "\<exists>s' xs. init_manager_proc (\<lambda>_. True) (\<lambda>w. (Wait, w)) (map int [1..<11])
      \<lparr>pool_of = \<lparr>n_proc = 0, slh_first = None, brk = 0, cells = Map.empty\<rparr>, worker_of = w\<rparr> = (Ret (), s')
    \<and> slist_ok (pool_of s') xs
    \<and> slist_abs (pool_of s') xs = map (\<lambda>p. fresh_processor\<lparr>pid := p\<rparr>) (map int [1..<11])
    \<and> n_proc (pool_of s') = 10"
    by (rule init_manager_proc_parent) (auto simp: slist_ok_def)
qed

text \<open>The parent replaces dead processors: fork answers \<open>q > 0\<close> for the process \<open>p\<close>.\<close>

primrec handle_deaths :: "(nat \<Rightarrow> bool) \<Rightarrow> (worker, unit) prog \<Rightarrow> (int \<times> int) list \<Rightarrow> (proc_st, unit) prog" where
  "handle_deaths malloc_ok child [] = sret ()"
| "handle_deaths malloc_ok child (pq # pqs) =
     sseq (handler_dead_processor malloc_ok child (snd pq) (fst pq)) (handle_deaths malloc_ok child pqs)"

lemma on_pool_sseq: "sseq (on_pool m) (on_pool n) = on_pool (sseq m n)"
  by (rule ext) (auto simp: sseq_def sbind_def on_pool_def split: prod.split cres.split)

lemma handle_deaths_parent:
  assumes "\<forall>(p, q) \<in> set pqs. 0 < q"
  shows "handle_deaths malloc_ok child pqs = on_pool (replace_all malloc_ok pqs)"
  using assms
proof (induction pqs)
  case Nil
  show ?case by (rule ext) (simp add: on_pool_def sret_def)
next
  case (Cons pq pqs)
  have "sseq (sret ()) m = m" for m :: "(proc_st, unit) prog"
    by (simp add: sseq_def sbind_sret)
  with Cons show ?case
    by (cases pq) (simp add: handler_dead_processor_def replace_processor_def on_pool_sseq Let_def)
qed

text \<open>
  C13: Every replacement of a dead worker lowers the counter of the pool by one although the
  list does not shrink, and for processes that are not in the list it grows, so the limit of
  ten stops bounding it. This holds when malloc does not fail and for as many deaths as the
  counter, an int of at most ten, can count down.
\<close>

theorem handle_deaths_lose_count:
  assumes "slist_ok (pool_of s) xs" "\<forall>a. malloc_ok a" "n_proc (pool_of s) \<le> 10"
    and "INT_MIN + int (length pqs) \<le> n_proc (pool_of s)"
    and "\<forall>(p, q) \<in> set pqs. 0 < q"
  shows "\<exists>s' ys. handle_deaths malloc_ok child pqs s = (Ret (), s') \<and> slist_ok (pool_of s') ys
    \<and> n_proc (pool_of s') = n_proc (pool_of s) - int (length pqs) \<and> length xs \<le> length ys
    \<and> ((\<forall>(p, q) \<in> set pqs. p \<notin> pid ` set (slist_abs (pool_of s) xs) \<union> snd ` set pqs) \<longrightarrow>
         length ys = length xs + length pqs)"
  using replacing_loses_count_eq [OF assms(1-4)] handle_deaths_parent [OF assms(5)]
  by (fastforce simp: on_pool_def)

theorem handle_deaths_lose_count_witness:
  "\<forall>w. \<exists>s' ys. handle_deaths (\<lambda>_. True) (\<lambda>w. (Wait, w)) [(8, 9), (9, 10)]
      \<lparr>pool_of = \<lparr>n_proc = 1, slh_first = Some 0, brk = 1,
        cells = [0 \<mapsto> \<lparr>sl_data = \<lparr>pid = 7, nleft = 5, status = 0\<rparr>, sle_next = None\<rparr>]\<rparr>, worker_of = w\<rparr> = (Ret (), s')
    \<and> slist_ok (pool_of s') ys \<and> n_proc (pool_of s') = - 1 \<and> 1 \<le> length ys"
proof
  fix w
  let ?s = "\<lparr>pool_of = \<lparr>n_proc = 1, slh_first = Some 0, brk = 1,
        cells = [0 \<mapsto> \<lparr>sl_data = \<lparr>pid = 7, nleft = 5, status = 0\<rparr>, sle_next = None\<rparr>]\<rparr>, worker_of = w\<rparr>"
  have "slist_ok (pool_of ?s) [0]" by (simp add: slist_ok_def)
  from handle_deaths_lose_count [OF this, of "\<lambda>_. True" "[(8, 9), (9, 10)]" "\<lambda>w. (Wait, w)"] INT_MIN_def
  show "\<exists>s' ys. handle_deaths (\<lambda>_. True) (\<lambda>w. (Wait, w)) [(8, 9), (9, 10)] ?s = (Ret (), s')
    \<and> slist_ok (pool_of s') ys \<and> n_proc (pool_of s') = - 1 \<and> 1 \<le> length ys"
    by fastforce
qed

end
