(* ===== verification/Server.thy ===== *)
theory Server
  imports Worker
begin

text \<open>
  The server process: \<open>start\<close> of src/core/epoll_circle.h, which accepts connections and passes their
  descriptors to the workers, and the system it makes with the workers of inc/http_task.h.

  What the system calls of \<open>start\<close> answer is collected in \<open>start_env\<close>.
\<close>

unbundle bit_operations_syntax

definition EPOLLERR :: c_int where
  "EPOLLERR = 0x008"

definition EPOLLHUP :: c_int where
  "EPOLLHUP = 0x010"

definition O_NONBLOCK :: c_int where
  "O_NONBLOCK = 0x800"

record start_st =
  procs :: proc_st
  munix :: unix_end
  sfds :: "int list"

definition on_procs :: "(proc_st, 'a) prog \<Rightarrow> (start_st, 'a) prog" where
  "on_procs m s = (case m (procs s) of (r, p) \<Rightarrow> (r, s\<lparr>procs := p\<rparr>))"

definition on_munix :: "(unix_end, 'a) prog \<Rightarrow> (start_st, 'a) prog" where
  "on_munix m s = (case m (munix s) of (r, u) \<Rightarrow> (r, s\<lparr>munix := u\<rparr>))"

definition on_sfds :: "(int list, 'a) prog \<Rightarrow> (start_st, 'a) prog" where
  "on_sfds m s = (case m (sfds s) of (r, f) \<Rightarrow> (r, s\<lparr>sfds := f\<rparr>))"

definition lift_call :: "'a cres \<Rightarrow> ('s, 'a) prog" where
  "lift_call r s = (r, s)"

section \<open>Passing a descriptor\<close>

text \<open>\<open>while ((write_cnt = Sock_fd_write(...)) <= 0) Sock_fd_write(...);\<close> --- the second call's result
  is not looked at, and the first one is made again.\<close>

lemma Sock_fd_write_shorter:
  "Sock_fd_write buf n fd u = (Ret r, u') \<Longrightarrow> length (snd_ans u') < length (snd_ans u)"
  by (auto simp: Sock_fd_write_def Let_def split: option.splits list.splits wr.splits)

function pass_fd :: "bytes \<Rightarrow> int \<Rightarrow> (unix_end, unit) prog" where
  "pass_fd buf clientfd u =
     (case Sock_fd_write buf 2 clientfd u of
        (Ret write_cnt, u1) \<Rightarrow>
          (if write_cnt \<le> 0 then
             (case Sock_fd_write buf 2 clientfd u1 of
                (Ret _, u2) \<Rightarrow> pass_fd buf clientfd u2
              | (Exit, u2) \<Rightarrow> (Exit, u2)
              | (Wait, u2) \<Rightarrow> (Wait, u2)
              | (Fault, u2) \<Rightarrow> (Fault, u2))
           else (Ret (), u1))
      | (Exit, u1) \<Rightarrow> (Exit, u1)
      | (Wait, u1) \<Rightarrow> (Wait, u1)
      | (Fault, u1) \<Rightarrow> (Fault, u1))"
  by pat_completeness auto
termination
  by (relation "measure (\<lambda>(buf, clientfd, u). length (snd_ans u))")
    (auto dest!: Sock_fd_write_shorter [OF sym])

declare pass_fd.simps [simp del]

definition fd_msg :: "bytes \<Rightarrow> int \<Rightarrow> msghdr" where
  "fd_msg buf fd = \<lparr>msg_iov = take 2 buf, msg_control = control_for fd\<rparr>"

text \<open>One failure of \<open>sendmsg\<close> and the descriptor is passed twice.\<close>

theorem pass_fd_duplicates:
  assumes "snd_ans u = WErr e # WAccept k # WAccept j # ws" "2 \<le> k" "2 \<le> j" "2 \<le> length buf"
  shows "pass_fd buf fd u =
    (Ret (), u\<lparr>snd_ans := ws, sent := sent u @ [fd_msg buf fd, fd_msg buf fd]\<rparr>)"
proof -
  let ?u1 = "u\<lparr>snd_ans := WAccept k # WAccept j # ws\<rparr>"
  let ?u2 = "u\<lparr>snd_ans := WAccept j # ws, sent := sent u @ [fd_msg buf fd]\<rparr>"
  have "Sock_fd_write buf 2 fd u = (Ret (- 1), ?u1)"
    using Sock_fd_write_error [OF assms(1,4)] by simp
  moreover have "Sock_fd_write buf 2 fd ?u1 = (Ret 2, ?u2)"
    using Sock_fd_write_taken [of ?u1 k "WAccept j # ws" 2 buf fd] assms by (simp add: fd_msg_def)
  moreover have "Sock_fd_write buf 2 fd ?u2 =
      (Ret 2, u\<lparr>snd_ans := ws, sent := sent u @ [fd_msg buf fd, fd_msg buf fd]\<rparr>)"
    using Sock_fd_write_taken [of ?u2 j ws 2 buf fd] assms by (simp add: fd_msg_def)
  ultimately show ?thesis
    by (simp add: pass_fd.simps [of buf fd u] pass_fd.simps [of buf fd ?u2])
qed

theorem pass_fd_duplicates_witness:
  "pass_fd ''ab'' 7 \<lparr>snd_ans = [WErr EAGAIN, WAccept 2, WAccept 2], sent = [], inbox = []\<rparr> =
    (Ret (), \<lparr>snd_ans = [], sent = [fd_msg ''ab'' 7, fd_msg ''ab'' 7], inbox = []\<rparr>)"
  using pass_fd_duplicates [of "\<lparr>snd_ans = [WErr EAGAIN, WAccept 2, WAccept 2], sent = [], inbox = []\<rparr>"
      EAGAIN 2 2 "[]" "''ab''" 7] by simp

section \<open>The accept loop\<close>

text \<open>One answer of \<open>accept\<close> per round. \<open>fl fd\<close> are the flags \<open>fcntl\<close> reports for a new descriptor and
  \<open>setfl fd\<close> what it answers when they are set. \<open>clientfd\<close> is not closed.\<close>

primrec accept_loop ::
  "bytes \<Rightarrow> (int \<Rightarrow> c_int) \<Rightarrow> (int \<Rightarrow> c_int \<Rightarrow> int) \<Rightarrow> (errno + int) list \<Rightarrow> (start_st, unit) prog" where
  "accept_loop buf fl setfl [] = (\<lambda>s. (Wait, s))"
| "accept_loop buf fl setfl (a # as) =
     sbind (lift_call (Accept (case a of Inl e \<Rightarrow> - 1 | Inr fd \<Rightarrow> fd))) (\<lambda>clientfd.
       sseq (on_sfds (smod (open_fd clientfd)))
         (sseq (lift_call (fst (Setnoblock O_NONBLOCK (fl clientfd) (setfl clientfd) (fl clientfd))))
           (sseq (on_munix (pass_fd buf clientfd)) (accept_loop buf fl setfl as))))"

lemma accept_loop_stuck: "\<not> returned (fst (accept_loop buf fl setfl accs s))"
proof (induction accs arbitrary: s)
  case (Cons a as)
  then show ?case
    by (simp add: sseq_def) (intro sbind_not_Ret; simp)
qed simp

text \<open>When nothing fails every client is passed on once, in order --- and every client's descriptor
  stays open in the server.\<close>

lemma accept_loop_sends:
  assumes "\<forall>fd \<in> set cs. 0 \<le> fd \<and> 0 \<le> sint (fl fd) \<and> 0 \<le> setfl fd (fl fd OR O_NONBLOCK)"
    and "snd_ans (munix s) = map WAccept ks @ ws" "length ks = length cs" "\<forall>k \<in> set ks. 2 \<le> k"
    and "length buf = 2"
  shows "\<exists>s'. accept_loop buf fl setfl (map Inr cs) s = (Wait, s')
    \<and> sent (munix s') = sent (munix s) @ map (fd_msg buf) cs \<and> sfds s' = sfds s @ cs"
  using assms(1-4)
proof (induction cs arbitrary: s ks)
  case (Cons fd cs)
  obtain k ks' where ks: "ks = k # ks'" using Cons.prems(3) by (cases ks) auto
  have fd: "0 \<le> fd" "0 \<le> sint (fl fd)" "0 \<le> setfl fd (fl fd OR O_NONBLOCK)"
    using Cons.prems(1) by auto
  let ?u = "(munix s)\<lparr>snd_ans := map WAccept ks' @ ws, sent := sent (munix s) @ [fd_msg buf fd]\<rparr>"
  let ?s = "s\<lparr>sfds := sfds s @ [fd], munix := ?u\<rparr>"
  have "Sock_fd_write buf 2 fd (munix s) = (Ret 2, ?u)"
    using Sock_fd_write_taken [of "munix s" k "map WAccept ks' @ ws" 2 buf fd] Cons.prems ks assms(5)
    by (simp add: fd_msg_def)
  then have "pass_fd buf fd (munix s) = (Ret (), ?u)"
    by (simp add: pass_fd.simps [of buf fd "munix s"])
  then have "accept_loop buf fl setfl (map Inr (fd # cs)) s = accept_loop buf fl setfl (map Inr cs) ?s"
    using fd by (simp add: sbind_def sseq_def lift_call_def Accept_def on_sfds_def smod_def open_fd_def
        Setnoblock_def Let_def on_munix_def)
  moreover obtain s' where "accept_loop buf fl setfl (map Inr cs) ?s = (Wait, s')"
    "sent (munix s') = sent (munix ?s) @ map (fd_msg buf) cs" "sfds s' = sfds ?s @ cs"
    using Cons.IH [of ?s ks'] Cons.prems ks by auto
  ultimately show ?case by simp
qed simp

text \<open>
  C30: When no call fails the accept loop passes every client to the workers exactly once and
  in order, and leaves every client's descriptor open in the server.
\<close>

theorem accept_loop_passes_each:
  assumes "\<forall>fd \<in> set cs. 0 \<le> fd \<and> 0 \<le> sint (fl fd) \<and> 0 \<le> setfl fd (fl fd OR O_NONBLOCK)"
    and "snd_ans (munix s) = map WAccept ks @ ws" "length ks = length cs" "\<forall>k \<in> set ks. 2 \<le> k"
    and "length buf = 2"
  shows "\<exists>s'. accept_loop buf fl setfl (map Inr cs) s = (Wait, s')
    \<and> sent (munix s') = sent (munix s) @ map (fd_msg buf) cs \<and> sfds s' = sfds s @ cs"
  by (rule accept_loop_sends) (fact assms)+

theorem accept_loop_passes_each_witness:
  "\<forall>p. \<exists>s'. accept_loop ''ab'' (\<lambda>_. 0) (\<lambda>_ _. 0) [Inr 5, Inr 6]
      \<lparr>procs = p, munix = \<lparr>snd_ans = [WAccept 2, WAccept 3], sent = [], inbox = []\<rparr>, sfds = [3]\<rparr> = (Wait, s')
    \<and> sent (munix s') = [fd_msg ''ab'' 5, fd_msg ''ab'' 6] \<and> sfds s' = [3, 5, 6]"
proof
  fix p
  show "\<exists>s'. accept_loop ''ab'' (\<lambda>_. 0) (\<lambda>_ _. 0) [Inr 5, Inr 6]
      \<lparr>procs = p, munix = \<lparr>snd_ans = [WAccept 2, WAccept 3], sent = [], inbox = []\<rparr>, sfds = [3]\<rparr> = (Wait, s')
    \<and> sent (munix s') = [fd_msg ''ab'' 5, fd_msg ''ab'' 6] \<and> sfds s' = [3, 5, 6]"
    using accept_loop_passes_each [of "[5, 6]" "\<lambda>_. 0" "\<lambda>_ _. 0"
        "\<lparr>procs = p, munix = \<lparr>snd_ans = [WAccept 2, WAccept 3], sent = [], inbox = []\<rparr>, sfds = [3]\<rparr>"
        "[2, 3]" "[]" "''ab''"] by simp
qed

lemma sbind_stuck: "\<not> returned (fst (m s)) \<Longrightarrow> \<not> returned (fst (sbind m f s))"
  by (auto simp: sbind_def split: prod.splits cres.splits)

section \<open>start\<close>

record start_env =
  a_pipe :: "int list"
  a_forks :: "int list"
  a_gai :: int
  a_addrs :: "(int \<times> int \<times> int) list"
  a_lsn :: int
  a_malloc :: bool
  a_epfd :: int
  a_ctl :: int
  a_wait :: "(errno + (int \<times> c_int) list) list"
  a_accept :: "(errno + int) list"
  a_fl :: "int \<Rightarrow> c_int"
  a_setfl :: "int \<Rightarrow> c_int \<Rightarrow> int"
  a_buf :: bytes
  a_clientfd :: int
  a_ctl2 :: int

text \<open>\<open>ret = S_pipe(unix_fd); while (ret < 0) ret = S_pipe(unix_fd);\<close>\<close>

primrec pipe_loop :: "int list \<Rightarrow> (start_st, unit) prog" where
  "pipe_loop [] = (\<lambda>s. (Wait, s))"
| "pipe_loop (r # rs) = (if r < 0 then pipe_loop rs else sret ())"

text \<open>The loop over the events of one \<open>epoll_wait\<close>; \<open>break\<close> for an event of no known kind.\<close>

primrec events_loop :: "start_env \<Rightarrow> int \<Rightarrow> (int \<times> c_int) list \<Rightarrow> (start_st, unit) prog" where
  "events_loop env listenfd [] = sret ()"
| "events_loop env listenfd (e # es) =
     (if (snd e AND EPOLLERR) \<noteq> 0 \<or> (snd e AND EPOLLHUP) \<noteq> 0 then
        sseq (on_sfds (smod (shut_fd listenfd))) sexit
      else if fst e = listenfd then
        sseq (accept_loop (a_buf env) (a_fl env) (a_setfl env) (a_accept env)) (events_loop env listenfd es)
      else if (snd e AND EPOLLIN) \<noteq> 0 then
        (if a_ctl2 env = - 1 then sexit else events_loop env listenfd es)
      else if (snd e AND EPOLLOUT) \<noteq> 0 then events_loop env listenfd es
      else sret ())"

text \<open>The body of \<open>while (1)\<close> ends with \<open>return 0\<close>.\<close>

definition serve_once :: "start_env \<Rightarrow> int \<Rightarrow> (start_st, int) prog" where
  "serve_once env listenfd = (case a_wait env of
      [] \<Rightarrow> (\<lambda>s. (Wait, s))
    | Inl e # _ \<Rightarrow> sexit
    | Inr evs # _ \<Rightarrow>
        sseq (events_loop env listenfd evs)
          (sseq (on_sfds (smod (shut_fd listenfd)))
            (sseq (on_sfds (smod (shut_fd (a_clientfd env)))) (sret 0))))"

definition start :: "start_env \<Rightarrow> (nat \<Rightarrow> bool) \<Rightarrow> (worker, unit) prog \<Rightarrow> (start_st, int) prog" where
  "start env malloc_ok child =
     sseq (pipe_loop (a_pipe env))
       (sseq (on_procs (init_manager_proc malloc_ok child (a_forks env)))
         (sbind (on_sfds (open_listenfd (a_gai env) (a_addrs env) (a_lsn env))) (\<lambda>listenfd.
           sseq (if a_malloc env then sret () else sexit)
             (sseq (if a_epfd env < 0 then sexit else sret ())
               (sseq (if a_ctl env = - 1 then sexit else sret ())
                 (serve_once env listenfd))))))"

text \<open>\<open>main\<close> of src/core/serve_http.c; \<open>start\<close> does not look at the arguments.\<close>

definition serve_http :: "start_env \<Rightarrow> (nat \<Rightarrow> bool) \<Rightarrow> (worker, unit) prog \<Rightarrow> (start_st, int) prog" where
  "serve_http = start"

text \<open>A first event on the listening socket: \<open>start\<close> never gets back to its event loop.\<close>

theorem start_never_returns:
  assumes "a_wait env = Inr ((fd, msk) # es) # ws"
    and "\<forall>r s s'. open_listenfd (a_gai env) (a_addrs env) (a_lsn env) s = (Ret r, s') \<longrightarrow> r = fd"
  shows "\<not> returned (fst (start env malloc_ok child s))"
proof -
  have "\<not> returned (fst (events_loop env fd ((fd, msk) # es) s))" for s
  proof (cases "(msk AND EPOLLERR) \<noteq> 0 \<or> (msk AND EPOLLHUP) \<noteq> 0")
    case True
    then show ?thesis by (simp add: sseq_def sbind_not_Ret sexit_def)
  next
    case False
    then have "events_loop env fd ((fd, msk) # es) = sbind
        (accept_loop (a_buf env) (a_fl env) (a_setfl env) (a_accept env)) (\<lambda>_. events_loop env fd es)"
      by (simp add: sseq_def)
    then show ?thesis by (simp only: sbind_stuck accept_loop_stuck not_False_eq_True)
  qed
  then have once: "\<not> returned (fst (serve_once env fd s))" for s
    unfolding serve_once_def assms(1) list.case sum.case sseq_def by (intro sbind_stuck)
  have "\<not> returned (fst (sbind (on_sfds (open_listenfd (a_gai env) (a_addrs env) (a_lsn env)))
      (\<lambda>listenfd. sseq (if a_malloc env then sret () else sexit)
             (sseq (if a_epfd env < 0 then sexit else sret ())
               (sseq (if a_ctl env = - 1 then sexit else sret ())
                 (serve_once env listenfd)))) s))" for s
  proof (cases "on_sfds (open_listenfd (a_gai env) (a_addrs env) (a_lsn env)) s")
    case (Pair q s1)
    show ?thesis
    proof (cases q)
      case (Ret r)
      with Pair assms(2) have "r = fd" by (auto simp: on_sfds_def split: prod.splits)
      with Pair Ret have "sbind (on_sfds (open_listenfd (a_gai env) (a_addrs env) (a_lsn env))) f s = f fd s1"
        for f :: "int \<Rightarrow> (start_st, int) prog"
        by (simp add: sbind_def)
      then show ?thesis
        unfolding sseq_def by (simp only: sbind_not_Ret once not_False_eq_True)
    qed (use Pair in \<open>simp_all add: sbind_def\<close>)
  qed
  then show ?thesis
    unfolding start_def sseq_def by - (rule sbind_not_Ret, rule sbind_not_Ret, simp)
qed

theorem start_never_returns_witness:
  "\<forall>s. \<not> returned (fst (start \<lparr>a_pipe = [- 1, 0], a_forks = map int [1..<11], a_gai = 0, a_addrs = [(3, 0, 0)],
      a_lsn = 0, a_malloc = True, a_epfd = 4, a_ctl = 0, a_wait = [Inr [(3, 1)]], a_accept = [Inr 5],
      a_fl = (\<lambda>_. 0), a_setfl = (\<lambda>_ _. 0), a_buf = ''ab'', a_clientfd = 0, a_ctl2 = 0\<rparr>
      (\<lambda>_. True) (\<lambda>w. (Wait, w)) s))"
  by (intro allI start_never_returns [of _ 3 1 "[]" "[]"])
    (auto simp: open_listenfd_def wrapper_defs sbind_def sseq_def smod_def sret_def)

section \<open>Server and workers\<close>

text \<open>
  The system: the messages in the socket pair, which all workers read, what every worker is doing,
  and how many messages have been taken. A worker is \<open>Reading\<close> (in \<open>Sock_fd_read\<close>), \<open>Busy\<close> (it has
  taken a message and has not asked for another one), or \<open>Gone\<close> (its process ended or it has left
  \<open>jump_task_pool_obj\<close>). A worker's step is a run of the code's function on the messages that are
  there, for any answers of the kernel; how many messages it took is read off its socket.
\<close>

datatype wk = Reading | Busy | Gone

record sys =
  chan :: "msghdr list"
  wks :: "wk list"
  taken :: nat

definition after_run :: "nat \<Rightarrow> unit cres \<Rightarrow> wk" where
  "after_run n r = (if r = Wait then (if n = 0 then Reading else Busy) else Gone)"

inductive sys_step :: "sys \<Rightarrow> sys \<Rightarrow> bool" where
  hand_out: "length data = 2 \<Longrightarrow>
    sys_step s (s\<lparr>chan := chan s @ [\<lparr>msg_iov = data, msg_control = control_for fd\<rparr>]\<rparr>)"
| run: "i < length (wks s) \<Longrightarrow> wks s ! i = Reading \<Longrightarrow>
    jump_task_pool_obj env create_ans waits errno0 buf cfd
      \<lparr>usock = \<lparr>snd_ans = [], sent = [], inbox = delivers dupfd (chan s)\<rparr>, ev = e\<rparr> = (r, w') \<Longrightarrow>
    n = length (chan s) - length (inbox (usock w')) \<Longrightarrow>
    sys_step s (s\<lparr>chan := drop n (chan s), wks := (wks s)[i := after_run n r], taken := taken s + n\<rparr>)"

inductive_cases sys_stepE: "sys_step s s'"

definition start_sys :: "nat \<Rightarrow> sys" where
  "start_sys n = \<lparr>chan = [], wks = replicate n Reading, taken = 0\<rparr>"

definition readers :: "sys \<Rightarrow> nat" where
  "readers s = count_list (wks s) Reading"

lemma length_delivers [simp]: "length (delivers dupfd ms) = length ms"
  by (simp add: delivers_def)

lemma count_list_update:
  "i < length xs \<Longrightarrow> xs ! i = a \<Longrightarrow> count_list (xs[i := b]) a = count_list xs a - (if a = b then 0 else 1)"
proof (induction xs arbitrary: i)
  case (Cons x xs)
  then show ?case
  proof (cases i)
    case (Suc j)
    with Cons.prems have "count_list xs a \<noteq> 0" by (auto simp: count_list_0_iff)
    with Suc Cons show ?thesis by auto
  qed auto
qed simp

text \<open>One run takes at most one message, and a worker that took one does not read again.\<close>

lemma run_takes_one:
  assumes "jump_task_pool_obj env create_ans waits errno0 buf cfd
      \<lparr>usock = \<lparr>snd_ans = [], sent = [], inbox = delivers dupfd ms\<rparr>, ev = e\<rparr> = (r, w')"
    and "n = length ms - length (inbox (usock w'))"
  shows "n \<le> 1"
  using jump_task_one_message(1) [OF assms(1)] assms(2) by auto

lemma sys_step_invariant:
  assumes "sys_step s s'" "readers s + taken s \<le> k"
  shows "readers s' + taken s' \<le> k \<and> taken s \<le> taken s'
    \<and> (readers s = 0 \<longrightarrow> readers s' = 0 \<and> taken s' = taken s \<and> prefix (chan s) (chan s'))"
  using assms(1)
proof cases
  case (hand_out data fd)
  with assms(2) show ?thesis by (auto simp: readers_def)
next
  case (run i env create_ans waits errno0 buf cfd dupfd e r w' n)
  note n = run_takes_one [OF run(4,5)]
  have cnt: "readers s' = readers s - (if after_run n r = Reading then 0 else 1)"
    using run count_list_update [of i "wks s" Reading "after_run n r"]
    by (auto simp: readers_def)
  have pos: "0 < readers s"
    using run(2,3) unfolding readers_def by (metis count_list_0_iff gr0I nth_mem)
  have "n = 0 \<or> after_run n r \<noteq> Reading"
    by (auto simp: after_run_def)
  with n cnt pos assms(2) run(1) show ?thesis
    by (auto split: if_splits)
qed

text \<open>A pool of \<open>n\<close> workers serves at most \<open>n\<close> connections in its life; from then on the messages pile
  up in the socket.\<close>

lemma sys_reachable_invariant:
  assumes "sys_step\<^sup>*\<^sup>* (start_sys n) s"
  shows "readers s + taken s \<le> n"
  using assms
proof (induction rule: rtranclp_induct)
  case base
  have "count_list (replicate n Reading) Reading = n" by (induction n) simp_all
  then show ?case by (simp add: start_sys_def readers_def)
next
  case (step s s')
  then show ?case using sys_step_invariant [of s s' n] by simp
qed

text \<open>
  C10: In every reachable state of the server and its ten workers at most ten connections have
  been taken from the socket, because a worker never leaves the event loop it enters with its
  first one.
\<close>

theorem system_serves_at_most_its_workers:
  assumes "sys_step\<^sup>*\<^sup>* (start_sys NPROC_MAX_NUM) s"
  shows "taken s \<le> 10"
  using sys_reachable_invariant [OF assms] by (simp add: NPROC_MAX_NUM_def)

text \<open>
  C2: A pool whose ten workers have taken ten connections serves no other: in every run of the
  system from there, whatever the kernel answers, nothing more is taken and every message
  stays in the socket.
\<close>

theorem system_starves:
  assumes "sys_step\<^sup>*\<^sup>* (start_sys NPROC_MAX_NUM) s" "taken s = 10" "sys_step\<^sup>*\<^sup>* s s'"
  shows "taken s' = 10 \<and> prefix (chan s) (chan s')"
proof -
  have s: "readers s = 0"
    using sys_reachable_invariant [OF assms(1)] assms(2) by (auto simp: NPROC_MAX_NUM_def)
  from assms(3) have "readers s' = 0 \<and> taken s' = 10 \<and> prefix (chan s) (chan s')"
  proof (induction rule: rtranclp_induct)
    case base
    with s assms(2) show ?case by simp
  next
    case (step t t')
    then show ?case
      using sys_step_invariant [of t t' "taken t"] by (auto intro: prefix_order.order_trans)
  qed
  then show ?thesis by simp
qed

text \<open>Up to that number, connections are taken: a run for a message that is there.\<close>

lemma run_message:
  fixes e :: ep_st
  assumes "msg_iov m = ''..''" "msg_control m = control_for 5"
  shows "\<exists>w'. jump_task_pool_obj env 9 [] EINTR ''..'' 0
      \<lparr>usock = \<lparr>snd_ans = [], sent = [], inbox = delivers id [m]\<rparr>, ev = e\<rparr> = (Wait, w')
    \<and> inbox (usock w') = []"
proof -
  have rd: "Sock_fd_read ''..'' 2 True \<lparr>snd_ans = [], sent = [], inbox = delivers id [m]\<rparr> =
      (Ret (2, ''..'', Some 5), \<lparr>snd_ans = [], sent = [], inbox = []\<rparr>)"
    using assms by (simp add: Sock_fd_read_def delivers_def control_for_def mem_store_def
        CMSG_LEN_INT_def SOL_SOCKET_def SCM_RIGHTS_def)
  have "fst (do_epoll env 9 [] 5 e') = Wait" for e'
    by (simp add: do_epoll_def sseq_def sbind_def sget_def Epoll_create_def sret_def smod_def
        add_event_def)
  then obtain e2 where "do_epoll env 9 [] 5 (install_fd 5 e) = (Wait, e2)"
    by (metis prod.collapse)
  with rd show ?thesis
    by (simp add: jump_task_pool_obj.simps [of env] on_usock_def on_ev_def Open_epoll_def http_do_epoll_def)
qed

lemma system_serves:
  assumes "k \<le> n"
  shows "\<exists>s. sys_step\<^sup>*\<^sup>* (start_sys n) s \<and> taken s = k \<and> chan s = []
    \<and> wks s = replicate k Busy @ replicate (n - k) Reading"
  using assms
proof (induction k)
  case 0
  show ?case by (rule exI [of _ "start_sys n"]) (simp add: start_sys_def)
next
  case (Suc k)
  then obtain s where s: "sys_step\<^sup>*\<^sup>* (start_sys n) s" "taken s = k" "chan s = []"
    "wks s = replicate k Busy @ replicate (n - k) Reading"
    by auto
  let ?m = "\<lparr>msg_iov = ''..'', msg_control = control_for 5\<rparr>"
  let ?s1 = "s\<lparr>chan := [?m]\<rparr>"
  have 1: "sys_step s ?s1"
    using sys_step.hand_out [of "''..''" s 5] s(3) by simp
  obtain env :: http_env and e :: ep_st and w' where run:
    "jump_task_pool_obj env 9 [] EINTR ''..'' 0
      \<lparr>usock = \<lparr>snd_ans = [], sent = [], inbox = delivers id [?m]\<rparr>, ev = e\<rparr> = (Wait, w')"
    "inbox (usock w') = []"
    using run_message [of ?m] by (metis msghdr.select_convs)
  have nth: "(replicate k Busy @ replicate (n - k) Reading) ! k = Reading"
    using Suc.prems by (simp add: nth_append)
  have len: "k < length (wks ?s1)" using Suc.prems s(4) by simp
  have "wks ?s1 ! k = Reading" using s(4) nth by simp
  from sys_step.run [OF len this, of env 9 "[]" EINTR "''..''" 0 id e Wait w' 1] run
  have 2: "sys_step ?s1 (?s1\<lparr>chan := [], wks := (wks s)[k := Busy], taken := Suc k\<rparr>)"
    using s(2) by (simp add: after_run_def)
  have "(wks s)[k := Busy] = replicate (Suc k) Busy @ replicate (n - Suc k) Reading"
  proof -
    have "replicate (n - k) Reading = Reading # replicate (n - Suc k) Reading"
      using Suc.prems by (metis Suc_diff_Suc Suc_le_lessD replicate_Suc)
    then show ?thesis using s(4) by (simp add: list_update_append replicate_append_same)
  qed
  with s(1) 1 2 show ?case
    by (intro exI [of _ "?s1\<lparr>chan := [], wks := (wks s)[k := Busy], taken := Suc k\<rparr>"])
      (simp add: rtranclp.rtrancl_into_rtrancl)
qed

theorem system_serves_at_most_its_workers_witness:
  "\<exists>s. sys_step\<^sup>*\<^sup>* (start_sys NPROC_MAX_NUM) s \<and> taken s = 7 \<and> taken s \<le> 10"
proof -
  obtain s where "sys_step\<^sup>*\<^sup>* (start_sys NPROC_MAX_NUM) s" "taken s = 7"
    using system_serves [of 7 NPROC_MAX_NUM] by (auto simp: NPROC_MAX_NUM_def)
  with system_serves_at_most_its_workers [of s] show ?thesis by blast
qed

theorem system_starves_witness:
  "\<exists>s s'. sys_step\<^sup>*\<^sup>* (start_sys NPROC_MAX_NUM) s \<and> taken s = 10 \<and> sys_step s s' \<and> chan s' \<noteq> []
    \<and> taken s' = 10 \<and> prefix (chan s) (chan s')"
proof -
  obtain s where s: "sys_step\<^sup>*\<^sup>* (start_sys NPROC_MAX_NUM) s" "taken s = 10"
    using system_serves [of 10 NPROC_MAX_NUM] by (auto simp: NPROC_MAX_NUM_def)
  let ?s = "s\<lparr>chan := chan s @ [\<lparr>msg_iov = ''ab'', msg_control = control_for 5\<rparr>]\<rparr>"
  have step: "sys_step s ?s" by (rule sys_step.hand_out) simp
  then have "sys_step\<^sup>*\<^sup>* s ?s" by (rule r_into_rtranclp)
  from system_starves [OF s this] s step show ?thesis
    by (intro exI [of _ s] exI [of _ ?s]) auto
qed

end
