(* ===== verification/Service.thy ===== *)
theory Service
  imports Server
begin

text \<open>
  One connection from end to end: \<open>start\<close> accepts it and sends its descriptor, a worker receives the
  descriptor, waits for the request and runs the handler, and the page reaches the client. The specification
  is the abstract router \<open>serve\<close> and the page for its answer.
\<close>

section \<open>A request and its page\<close>

text \<open>What a client asks for: the stream holds a request line of two words that fit their arrays.\<close>

definition asks :: "bytes \<Rightarrow> bytes \<Rightarrow> conn \<Rightarrow> bool" where
  "asks m u c \<longleftrightarrow> (\<exists>ds es line rest. rd_ans c = ds @ es \<and> rd_clean ds
     \<and> rd_bytes ds = line @ newline # rest \<and> newline \<notin> set line \<and> NUL \<notin> set line \<and> length line + 2 \<le> BUFFSIZE
     \<and> request_words line = (m, u)) \<and> u \<noteq> [] \<and> length m < PARTSIZE \<and> length u < PARTSIZE"

definition http_page :: "int \<Rightarrow> bytes list" where
  "http_page code = (if code = HTTP_ERROR_METHOD then error_method_text
     else if code = HTTP_ERROR_NOT_FIND then unknow_text else response_ok_text)"

lemma http_pages:
  shows page_501: "code = HTTP_ERROR_METHOD \<Longrightarrow> http_page code = error_method_text"
    and page_404: "code = HTTP_ERROR_NOT_FIND \<Longrightarrow> http_page code = unknow_text"
    and page_200: "code = HTTP_SUCCESS \<Longrightarrow> http_page code = response_ok_text"
  by (simp_all add: http_page_def http_codes)

text \<open>The kernel takes the page, in every send as much as the page's array holds.\<close>

definition takes_page :: "int \<Rightarrow> conn \<Rightarrow> bool" where
  "takes_page code c \<longleftrightarrow> kernel_takes BUFFSIZE (length (concat (http_page code))) c"

lemma kernel_takes_mono: "kernel_takes q n c \<Longrightarrow> q' \<le> q \<Longrightarrow> n' \<le> n \<Longrightarrow> kernel_takes q' n' c"
  by (auto simp: kernel_takes_def list_all_iff split: wr.splits)

definition stack_ok :: "http_env \<Rightarrow> bool" where
  "stack_ok env \<longleftrightarrow> length (e_buf0 env) = BUFFSIZE \<and> length (e_method0 env) = PARTSIZE \<and> length (e_url0 env) = PARTSIZE"

text \<open>A successful request names a file: it can be opened, and \<open>recv\<close> fails on it, as on everything that
  is not a socket.\<close>

definition file_opens :: "http_env \<Rightarrow> conn \<Rightarrow> bytes option \<Rightarrow> bool" where
  "file_opens env f path \<longleftrightarrow> (\<forall>p k. path = Some p \<longrightarrow> e_fdopen env (e_open env p) k)
     \<and> list_all (\<lambda>a. \<exists>e. a = RErr e) (rd_ans f)"

lemma serve_cases:
  assumes "serve stat m u = (code, path)"
  obtains "code = HTTP_ERROR_METHOD" "path = None"
  | p where "code = HTTP_ERROR_NOT_FIND" "path = Some p"
  | p where "code = HTTP_SUCCESS" "path = Some p" "NUL \<notin> set u \<longrightarrow> NUL \<notin> set p"
proof -
  have "NUL \<notin> set ''index.html''" "NUL \<notin> set ''/index.html''" by (simp_all add: NUL_def)
  with assms that LOCAL_ROOT_facts(2) show ?thesis
    by (auto simp: serve_def Let_def http_codes split: if_splits option.splits)
qed

text \<open>The handler: the page of the router's answer, and both descriptors closed unless the request succeeds.\<close>

lemma handler_page:
  assumes req: "asks m u (client s)" and env: "stack_ok env" and tk: "takes_page code (client s)"
    and sv: "serve (e_stat env) m u = (code, path)"
    and ok: "code = HTTP_SUCCESS \<Longrightarrow> file_opens env (filec s) path"
  shows "\<exists>s'. http_module_handler_request (e_stat env) (e_open env) (e_fdopen env) (e_buf0 env) (e_method0 env)
        (e_url0 env) fd0 d s = (if code = HTTP_SUCCESS then Wait else Ret (), s')
    \<and> wire (client s') = wire (client s) @ concat (http_page code)
    \<and> closed s' = closed s @ (if code = HTTP_SUCCESS then [] else [fd0, d])
    \<and> (code \<noteq> HTTP_SUCCESS \<longrightarrow> fdopens s' = fdopens s)"
proof -
  obtain ds es line rest where r: "rd_ans (client s) = ds @ es" "rd_clean ds" "rd_bytes ds = line @ newline # rest"
    "newline \<notin> set line" "NUL \<notin> set line" "length line + 2 \<le> BUFFSIZE" "request_words line = (m, u)"
    and u: "u \<noteq> []" "length m < PARTSIZE" "length u < PARTSIZE"
    using req unfolding asks_def by blast
  have st: "length (e_buf0 env) = BUFFSIZE" "length (e_method0 env) = PARTSIZE" "length (e_url0 env) = PARTSIZE"
    using env by (simp_all add: stack_ok_def)
  obtain sp tl where "line = m @ sp @ u @ tl" using request_words_split [OF r(7) u(1)] by metis
  with r(5) have NUL: "NUL \<notin> set u" by auto
  let ?z = "replicate BUFFSIZE NUL" and ?c = "(client s)\<lparr>rd_ans := rd_skip (length line + 1) ds @ es\<rparr>"
  let ?s = "s\<lparr>client := ?c\<rparr>" and ?name = "case path of None \<Rightarrow> [] | Some p \<Rightarrow> p"
  have sz: "length u + 46 < length ?z" using u(3) by (simp add: BUFFSIZE_def PARTSIZE_def)
  have oc: "on_client (accept_request (e_stat env) (e_buf0 env) (e_method0 env) (e_url0 env) ?z) s =
      (Ret (code, case path of None \<Rightarrow> ?z | Some p \<Rightarrow> as_string ?z p), ?s)"
    by (rule on_client_eq) (simp add: accept_request_serves [OF r u st sz] sv)
  have cs: "c_string ?z = Some []" by (simp add: c_string_def BUFFSIZE_def numeral_eq_Suc)
  have k: "kernel_takes q (length (concat (http_page code))) (client ?s)" if "q \<le> BUFFSIZE" for q
    using kernel_takes_mono [OF tk [unfolded takes_page_def] that order_refl] by (simp add: kernel_takes_def)
  have b: "1 \<le> BUFFSIZE" by (simp add: BUFFSIZE_def)
  from sv show ?thesis
  proof (cases rule: serve_cases)
    case 1
    obtain c' where c': "http_module_handler_response (e_open env) (e_fdopen env) (e_buf0 env) fd0 [] d HTTP_ERROR_METHOD ?s
        = (Ret (), ?s\<lparr>client := c', closed := closed ?s @ [fd0, d]\<rparr>)"
      "wire c' = wire (client ?s) @ concat error_method_text"
      using handler_bad_method [OF st(1) k [OF order_refl, unfolded page_501 [OF 1(1)]]] by blast
    with 1 cs show ?thesis
      by (simp add: http_module_handler_request_def sbind_def oc http_page_def http_codes)
  next
    case (2 p)
    then have "NUL \<notin> set p" using sv NUL LOCAL_ROOT_facts(2)
      by (auto simp: serve_def Let_def http_codes NUL_def split: if_splits option.splits)
    moreover obtain c' where c': "http_module_handler_response (e_open env) (e_fdopen env) (e_buf0 env) fd0 p d HTTP_ERROR_NOT_FIND ?s
        = (Ret (), ?s\<lparr>client := c', closed := closed ?s @ [fd0, d]\<rparr>)"
      "wire c' = wire (client ?s) @ concat unknow_text"
      using handler_not_found [OF st(1) k [OF b, unfolded page_404 [OF 2(1)]]] by blast
    ultimately show ?thesis using 2
      by (simp add: http_module_handler_request_def sbind_def oc http_page_def http_codes)
  next
    case (3 p)
    have op: "e_fdopen env (e_open env p) (fdopens ?s)" "list_all (\<lambda>a. \<exists>e. a = RErr e) (rd_ans (filec ?s))"
      using ok [OF 3(1)] 3(2) by (simp_all add: file_opens_def)
    obtain s' where s': "http_module_handler_response (e_open env) (e_fdopen env) (e_buf0 env) fd0 p d HTTP_SUCCESS ?s = (Wait, s')"
      "wire (client s') = wire (client ?s) @ concat response_ok_text" "closed s' = closed ?s"
      using handler_success_header [of "e_buf0 env" ?s "e_fdopen env" "e_open env" p fd0 d,
          OF st(1) k [OF b, unfolded page_200 [OF 3(1)]] op(2,1)] by blast
    with 3 NUL show ?thesis
      by (simp add: http_module_handler_request_def sbind_def oc http_page_def http_codes)
  qed
qed

lemma do_read_page:
  assumes env: "stack_ok env" and k: "fdopen_spin (e_fdopen env) d (e_tries env) (fdopen_cnt e) = Some k"
    and req: "asks m u (conns e d)" "takes_page code (conns e d)" and sv: "serve (e_stat env) m u = (code, path)"
    and ok: "code = HTTP_SUCCESS \<Longrightarrow> file_opens env (file_st e) path"
  shows "\<exists>e'. do_read env d e = (if code = HTTP_SUCCESS then Wait else Ret (), e')
    \<and> wire (conns e' d) = wire (conns e d) @ concat (http_page code)
    \<and> (d \<in> set (open_fds e') \<longleftrightarrow> code = HTTP_SUCCESS \<and> d \<in> set (open_fds e))
    \<and> (code \<noteq> HTTP_SUCCESS \<longrightarrow> fdopen_cnt e' = k \<and> (\<forall>msk. interest e d = Some msk \<and> d \<in> set (shared e) \<longrightarrow>
         (d, msk) \<in> set (stale e')))"
proof -
  let ?s = "\<lparr>client = conns e d, filec = file_st e, fdopens = k, closed = []\<rparr>"
  obtain h where h: "http_module_handler_request (e_stat env) (e_open env) (e_fdopen env) (e_buf0 env) (e_method0 env)
      (e_url0 env) (e_fd0 env) d ?s = (if code = HTTP_SUCCESS then Wait else Ret (), h)"
    "wire (client h) = wire (conns e d) @ concat (http_page code)"
    "closed h = (if code = HTTP_SUCCESS then [] else [e_fd0 env, d])" "code \<noteq> HTTP_SUCCESS \<longrightarrow> fdopens h = k"
    using handler_page [of m u ?s env code path "e_fd0 env" d, unfolded server_st.select_convs, OF req(1) env req(2) sv ok] by auto
  show ?thesis using k h by (auto simp: do_read_def sys_close_def smod_def)
qed

text \<open>What the event loop does with the first event of its first descriptor; after a success it stays in the
  handler, otherwise it goes on with the next event.\<close>

lemma do_epoll_first:
  assumes env: "stack_ok env" and c: "0 \<le> create_ans" and k: "fdopen_spin (e_fdopen env) d (e_tries env) (fdopen_cnt e) = Some k"
    and req: "asks m u (conns e d)" "takes_page code (conns e d)" and sv: "serve (e_stat env) m u = (code, path)"
    and ok: "code = HTTP_SUCCESS \<Longrightarrow> file_opens env (file_st e) path"
  shows "\<exists>e2. (\<forall>ws. do_epoll env create_ans (Inr [(d, EPOLLIN)] # ws) d e =
        (if code = HTTP_SUCCESS then (Wait, e2) else epoll_rounds env ws (replicate MAXSIZE NUL) e2))
    \<and> wire (conns e2 d) = wire (conns e d) @ concat (http_page code)
    \<and> (d \<in> set (open_fds e2) \<longleftrightarrow> code = HTTP_SUCCESS \<and> d \<in> set (open_fds e))
    \<and> (code \<noteq> HTTP_SUCCESS \<longrightarrow> fdopen_cnt e2 = k \<and>
        (d \<in> set (open_fds e) \<and> d \<in> set (shared e) \<and> interest e d = None \<longrightarrow> (d, EPOLLIN) \<in> set (stale e2)))"
proof -
  define e0 where "e0 = (if flag_x e = 0 then e\<lparr>epollfd := create_ans\<rparr> else e)"
  define e1 where "e1 = snd (epoll_ctl EPOLL_CTL_ADD d EPOLLIN (e0\<lparr>flag_x := flag_x e0 + 1\<rparr>))"
  have same: "fdopen_cnt e1 = fdopen_cnt e" "conns e1 = conns e" "file_st e1 = file_st e" "open_fds e1 = open_fds e"
    "shared e1 = shared e"
    by (simp_all add: e1_def e0_def epoll_ctl_def)
  have reg: "interest e1 d = Some EPOLLIN" if "d \<in> set (open_fds e)" "interest e d = None"
    using that by (simp add: e1_def e0_def epoll_ctl_def)
  from do_read_page [of env d e1 k m u code path, unfolded same, OF env k req sv ok] obtain e2 where
    e2: "do_read env d e1 = (if code = HTTP_SUCCESS then Wait else Ret (), e2)"
    "wire (conns e2 d) = wire (conns e d) @ concat (http_page code)"
    "d \<in> set (open_fds e2) \<longleftrightarrow> code = HTTP_SUCCESS \<and> d \<in> set (open_fds e)"
    "code \<noteq> HTTP_SUCCESS \<longrightarrow> fdopen_cnt e2 = k \<and> (\<forall>msk. interest e1 d = Some msk \<and> d \<in> set (shared e) \<longrightarrow>
      (d, msk) \<in> set (stale e2))" by blast
  have "sbind (sget flag_x) (\<lambda>k. if k = 0 then sbind (Epoll_create create_ans) (\<lambda>fd. smod (\<lambda>s. s\<lparr>epollfd := fd\<rparr>))
      else sret ()) e = (Ret (), e0)"
    using c by (simp add: e0_def sbind_def Epoll_create_def prog_eval)
  moreover have "add_event d EPOLLIN (e0\<lparr>flag_x := flag_x e0 + 1\<rparr>) = (Ret (), e1)" by (simp add: add_event_def e1_def)
  moreover have "epoll_rounds env (Inr [(d, EPOLLIN)] # ws) buf e1 =
      (if code = HTTP_SUCCESS then (Wait, e2) else epoll_rounds env ws buf e2)" for ws buf
    using e2(1) by (simp add: EPOLLEVENTS_def EPOLLIN_def sbind_def sseq_def prog_eval)
  ultimately have "do_epoll env create_ans (Inr [(d, EPOLLIN)] # ws) d e =
      (if code = HTTP_SUCCESS then (Wait, e2) else epoll_rounds env ws (replicate MAXSIZE NUL) e2)" for ws
    unfolding do_epoll_def by (simp add: sseq_Ret prog_eval del: epoll_rounds.simps)
  moreover have "code \<noteq> HTTP_SUCCESS \<longrightarrow> fdopen_cnt e2 = k \<and>
      (d \<in> set (open_fds e) \<and> d \<in> set (shared e) \<and> interest e d = None \<longrightarrow> (d, EPOLLIN) \<in> set (stale e2))"
    using e2(4) reg by blast
  ultimately show ?thesis using e2(2,3) by blast
qed

lemma do_epoll_page:
  assumes "stack_ok env" "0 \<le> create_ans" "fdopen_spin (e_fdopen env) d (e_tries env) (fdopen_cnt e) = Some k"
    and "asks m u (conns e d)" "takes_page code (conns e d)" "serve (e_stat env) m u = (code, path)"
    and "code = HTTP_SUCCESS \<Longrightarrow> file_opens env (file_st e) path"
  shows "\<exists>e'. do_epoll env create_ans [Inr [(d, EPOLLIN)]] d e = (Wait, e')
    \<and> wire (conns e' d) = wire (conns e d) @ concat (http_page code)
    \<and> (d \<in> set (open_fds e') \<longleftrightarrow> code = HTTP_SUCCESS \<and> d \<in> set (open_fds e))"
proof -
  obtain e2 where e2: "\<forall>ws. do_epoll env create_ans (Inr [(d, EPOLLIN)] # ws) d e =
        (if code = HTTP_SUCCESS then (Wait, e2) else epoll_rounds env ws (replicate MAXSIZE NUL) e2)"
    "wire (conns e2 d) = wire (conns e d) @ concat (http_page code)"
    "d \<in> set (open_fds e2) \<longleftrightarrow> code = HTTP_SUCCESS \<and> d \<in> set (open_fds e)"
    using do_epoll_first [OF assms] by blast
  from e2(1) [rule_format, of "[]"] e2(2,3) show ?thesis by auto
qed

section \<open>From the accept loop to the wire\<close>

text \<open>The worker's part: one message in its socket, one event on the descriptor it carries.\<close>

lemma worker_serves:
  assumes msg: "inbox (usock w) = [Inr \<lparr>msg_iov = sbuf, msg_control = control_for d\<rparr>]" "length sbuf = 2" "length wbuf = 2" "0 \<le> d"
  shows "jump_task_pool_obj env create_ans waits errno0 wbuf cfd w =
    (case do_epoll env create_ans waits d (install_fd d (ev w)) of
       (r, e') \<Rightarrow> (r, w\<lparr>usock := (usock w)\<lparr>inbox := []\<rparr>, ev := e'\<rparr>))"
proof -
  let ?w1 = "w\<lparr>usock := (usock w)\<lparr>inbox := []\<rparr>\<rparr>"
  have rd: "on_usock (Sock_fd_read wbuf 2 True) w = (Ret (2, sbuf, Some d), ?w1)"
    using msg by (simp add: on_usock_def Sock_fd_read_def control_for_def mem_store_def
        CMSG_LEN_INT_def SOL_SOCKET_def SCM_RIGHTS_def)
  obtain q e' where e': "do_epoll env create_ans waits d (install_fd d (ev w)) = (q, e')" by (metis prod.exhaust)
  then have "\<not> returned q" using do_epoll_stuck [of env create_ans waits d "install_fd d (ev w)"] by simp
  moreover have "on_ev (Open_epoll env create_ans waits d) (?w1\<lparr>ev := install_fd d (ev ?w1)\<rparr>) = (q, ?w1\<lparr>ev := e'\<rparr>)"
    using e' by (simp add: on_ev_def http_names)
  ultimately show ?thesis using rd e'
    by (cases q) (simp_all add: jump_task_pool_obj.simps [of env])
qed

lemma install_fd_same:
  "conns (install_fd d e) = conns e" "file_st (install_fd d e) = file_st e" "fdopen_cnt (install_fd d e) = fdopen_cnt e"
  "interest (install_fd d e) = interest e"
  "0 \<le> d \<Longrightarrow> d \<in> set (open_fds (install_fd d e))" "0 \<le> d \<Longrightarrow> d \<in> set (shared (install_fd d e))"
  by (simp_all add: install_fd_def)

lemma worker_page:
  assumes msg: "inbox (usock w) = [Inr \<lparr>msg_iov = sbuf, msg_control = control_for d\<rparr>]" "length sbuf = 2" "length wbuf = 2" "0 \<le> d"
    and env: "stack_ok env" "0 \<le> create_ans" "fdopen_spin (e_fdopen env) d (e_tries env) (fdopen_cnt (ev w)) = Some n"
    and req: "asks m u (conns (ev w) d)" "takes_page code (conns (ev w) d)" "serve (e_stat env) m u = (code, path)"
    and ok: "code = HTTP_SUCCESS \<Longrightarrow> file_opens env (file_st (ev w)) path"
  shows "\<exists>w'. jump_task_pool_obj env create_ans [Inr [(d, EPOLLIN)]] errno0 wbuf cfd w = (Wait, w')
    \<and> wire (conns (ev w') d) = wire (conns (ev w) d) @ concat (http_page code)
    \<and> (d \<in> set (open_fds (ev w')) \<longleftrightarrow> code = HTTP_SUCCESS)"
proof -
  obtain e' where e': "do_epoll env create_ans [Inr [(d, EPOLLIN)]] d (install_fd d (ev w)) = (Wait, e')"
    "wire (conns e' d) = wire (conns (ev w) d) @ concat (http_page code)" "d \<in> set (open_fds e') \<longleftrightarrow> code = HTTP_SUCCESS"
    using do_epoll_page [of env create_ans d "install_fd d (ev w)" n m u code path, unfolded install_fd_same(1-4), OF env req ok]
      install_fd_same(5) [OF msg(4), of "ev w"] by auto
  with worker_serves [OF msg, of env create_ans "[Inr [(d, EPOLLIN)]]" errno0 cfd] show ?thesis by auto
qed

lemma connection_page:
  assumes srv: "0 \<le> c" "0 \<le> sint (fl c)" "0 \<le> setfl c (fl c OR O_NONBLOCK)" "length sbuf = 2" "2 \<le> k"
      "snd_ans (munix srv) = WAccept k # ws" "sent (munix srv) = []"
      "accept_loop sbuf fl setfl [Inr c] srv = (r, srv')"
    and msg: "inbox (usock w) = delivers dupfd (sent (munix srv'))" "length wbuf = 2" "0 \<le> dupfd c"
    and env: "stack_ok env" "0 \<le> create_ans"
      "fdopen_spin (e_fdopen env) (dupfd c) (e_tries env) (fdopen_cnt (ev w)) = Some n"
    and req: "asks m u (conns (ev w) (dupfd c))" "takes_page code (conns (ev w) (dupfd c))"
      "serve (e_stat env) m u = (code, path)"
    and ok: "code = HTTP_SUCCESS \<Longrightarrow> file_opens env (file_st (ev w)) path"
  shows "\<exists>w'. jump_task_pool_obj env create_ans [Inr [(dupfd c, EPOLLIN)]] errno0 wbuf cfd w = (Wait, w')
    \<and> wire (conns (ev w') (dupfd c)) = wire (conns (ev w) (dupfd c)) @ concat (http_page code)
    \<and> (dupfd c \<in> set (open_fds (ev w')) \<longleftrightarrow> code = HTTP_SUCCESS) \<and> c \<in> set (sfds srv')"
proof -
  have "\<exists>s'. accept_loop sbuf fl setfl (map Inr [c]) srv = (Wait, s')
    \<and> sent (munix s') = sent (munix srv) @ map (fd_msg sbuf) [c] \<and> sfds s' = sfds srv @ [c]"
    by (rule accept_loop_sends [where ks = "[k]" and ws = ws]) (use srv(1-6) in simp_all)
  with srv(7,8) have out: "sent (munix srv') = [fd_msg sbuf c]" "sfds srv' = sfds srv @ [c]" by auto
  have "inbox (usock w) = [Inr \<lparr>msg_iov = sbuf, msg_control = control_for (dupfd c)\<rparr>]"
    using srv(1,4) msg(1,3) by (simp add: out delivers_def fd_msg_def control_for_def)
  from worker_page [OF this srv(4) msg(2,3) env req ok] out(2) show ?thesis by auto
qed

text \<open>
  C3: From end to end: whatever request line of a method and a URL that fit their arrays a
  client sends, the worker answers with the page of the abstract router: the 501 page, the 404
  page or the header of a success. The accept loop passes the descriptor, the worker receives
  it, waits for the request, reads the line and runs the handler. The worker closes its
  descriptor unless the request succeeds, when it stays in the copying loop; the server keeps
  its own descriptor open.
\<close>

theorem connection_served:
  assumes "0 \<le> c" "0 \<le> sint (fl c)" "0 \<le> setfl c (fl c OR O_NONBLOCK)" "length sbuf = 2" "2 \<le> k"
    and "snd_ans (munix srv) = WAccept k # ws" "sent (munix srv) = []"
    and "accept_loop sbuf fl setfl [Inr c] srv = (r, srv')"
    and "inbox (usock w) = delivers dupfd (sent (munix srv'))" "length wbuf = 2" "0 \<le> dupfd c"
    and "stack_ok env" "0 \<le> create_ans" "fdopen_spin (e_fdopen env) (dupfd c) (e_tries env) (fdopen_cnt (ev w)) = Some n"
    and "asks m u (conns (ev w) (dupfd c))" "takes_page code (conns (ev w) (dupfd c))" "serve (e_stat env) m u = (code, path)"
    and "code = HTTP_SUCCESS \<Longrightarrow> file_opens env (file_st (ev w)) path"
  shows "\<exists>w'. jump_task_pool_obj env create_ans [Inr [(dupfd c, EPOLLIN)]] errno0 wbuf cfd w = (Wait, w')
    \<and> wire (conns (ev w') (dupfd c)) = wire (conns (ev w) (dupfd c)) @ concat (http_page code)
    \<and> (dupfd c \<in> set (open_fds (ev w')) \<longleftrightarrow> code = HTTP_SUCCESS) \<and> c \<in> set (sfds srv')"
  by (rule connection_page) (fact assms)+

text \<open>A request with a method other than GET and POST, whatever files exist.\<close>

definition refused_request :: "conn \<Rightarrow> bool" where
  "refused_request c \<longleftrightarrow> (\<exists>m u. asks m u c \<and> map tolower m \<notin> {''get'', ''post''}) \<and> takes_page HTTP_ERROR_METHOD c"

corollary refused_request_served:
  assumes "0 \<le> c" "0 \<le> sint (fl c)" "0 \<le> setfl c (fl c OR O_NONBLOCK)" "length sbuf = 2" "2 \<le> k"
    and "snd_ans (munix srv) = WAccept k # ws" "sent (munix srv) = []"
    and "accept_loop sbuf fl setfl [Inr c] srv = (r, srv')"
    and "inbox (usock w) = delivers dupfd (sent (munix srv'))" "length wbuf = 2" "0 \<le> dupfd c"
    and "stack_ok env" "0 \<le> create_ans" "fdopen_spin (e_fdopen env) (dupfd c) (e_tries env) (fdopen_cnt (ev w)) = Some n"
    and "refused_request (conns (ev w) (dupfd c))"
  shows "\<exists>w'. jump_task_pool_obj env create_ans [Inr [(dupfd c, EPOLLIN)]] errno0 wbuf cfd w = (Wait, w')
    \<and> wire (conns (ev w') (dupfd c)) = wire (conns (ev w) (dupfd c)) @ concat error_method_text
    \<and> dupfd c \<notin> set (open_fds (ev w')) \<and> c \<in> set (sfds srv')"
proof -
  obtain m u where q: "asks m u (conns (ev w) (dupfd c))" "map tolower m \<notin> {''get'', ''post''}"
    and t: "takes_page HTTP_ERROR_METHOD (conns (ev w) (dupfd c))"
    using assms(15) unfolding refused_request_def by blast
  have "serve (e_stat env) m u = (HTTP_ERROR_METHOD, None)" using q(2) by (simp add: serve_def http_codes)
  from connection_page [OF assms(1-14) q(1) t this] show ?thesis by (simp add: page_501) (simp add: http_codes)
qed

section \<open>What a refused connection leaves behind\<close>

text \<open>The handler closes its descriptor without \<open>delete_event\<close>, and the server keeps the connection open.\<close>

lemma fdopen_spin_fails: "\<forall>j \<ge> k. \<not> fdopen fd j \<Longrightarrow> fdopen_spin fdopen fd n k = None"
  by (induction n arbitrary: k) auto

text \<open>
  C9: A worker that has answered a request with an error page closes the connection without
  delete_event. The server still holds the connection, so its registration stays in the
  interest list, whatever happens later; delete_event on it would end the worker. When an
  event on it arrives and fdopen fails on the closed descriptor, as it does, the worker calls
  fdopen for ever.
\<close>

theorem refused_connection_stays_registered:
  assumes "inbox (usock w) = [Inr \<lparr>msg_iov = sbuf, msg_control = control_for d\<rparr>]" "length sbuf = 2" "length wbuf = 2" "0 \<le> d"
    and "stack_ok env" "0 \<le> create_ans" "fdopen_spin (e_fdopen env) d (e_tries env) (fdopen_cnt (ev w)) = Some n"
    and "asks m u (conns (ev w) d)" "takes_page code (conns (ev w) d)" "serve (e_stat env) m u = (code, path)"
    and "code \<noteq> HTTP_SUCCESS" "interest (ev w) d = None"
  shows "\<exists>w1. jump_task_pool_obj env create_ans [Inr [(d, EPOLLIN)]] errno0 wbuf cfd w = (Wait, w1)
    \<and> wire (conns (ev w1) d) = wire (conns (ev w) d) @ concat (http_page code)
    \<and> d \<notin> set (open_fds (ev w1)) \<and> fst (Delete_event d EPOLLIN (ev w1)) = Exit
    \<and> (\<forall>ws. (d, EPOLLIN) \<in>
         set (stale (ev (snd (jump_task_pool_obj env create_ans (Inr [(d, EPOLLIN)] # ws) errno0 wbuf cfd w)))))
    \<and> ((\<forall>j \<ge> n. \<not> e_fdopen env d j) \<longrightarrow> (\<forall>ws. jump_task_pool_obj env create_ans
         (Inr [(d, EPOLLIN)] # Inr [(d, EPOLLIN)] # ws) errno0 wbuf cfd w = (Wait, w1)))"
proof -
  let ?e = "install_fd d (ev w)"
  let ?w = "\<lambda>e. w\<lparr>usock := (usock w)\<lparr>inbox := []\<rparr>, ev := e\<rparr>"
  note run = worker_serves [OF assms(1-4), of env create_ans _ errno0 cfd]
  obtain e2 where e2: "\<And>ws. do_epoll env create_ans (Inr [(d, EPOLLIN)] # ws) d ?e =
      epoll_rounds env ws (replicate MAXSIZE NUL) e2"
    "wire (conns e2 d) = wire (conns (ev w) d) @ concat (http_page code)" "d \<notin> set (open_fds e2)" "fdopen_cnt e2 = n" "(d, EPOLLIN) \<in> set (stale e2)"
    using do_epoll_first [of env create_ans d ?e n m u code path, unfolded install_fd_same(1-4), OF assms(5-10)]
      install_fd_same(5,6) [OF assms(4), of "ev w"] assms(11,12) by auto
  have "jump_task_pool_obj env create_ans [Inr [(d, EPOLLIN)]] errno0 wbuf cfd w = (Wait, ?w e2)"
    by (simp add: run e2(1))
  moreover have "fst (Delete_event d EPOLLIN e2) = Exit"
    using e2(3) by (simp add: http_names delete_event_def Epoll_ctl_def epoll_ctl_def sseq_def sbind_def)
  moreover have "(d, EPOLLIN) \<in>
      set (stale (ev (snd (jump_task_pool_obj env create_ans (Inr [(d, EPOLLIN)] # ws) errno0 wbuf cfd w))))" for ws
    using set_mono_suffix [OF epoll_rounds.keeps [of e2 env ws "replicate MAXSIZE NUL"]] e2(5)
    by (auto simp: run e2(1) split: prod.split)
  moreover have "jump_task_pool_obj env create_ans (Inr [(d, EPOLLIN)] # Inr [(d, EPOLLIN)] # ws) errno0 wbuf cfd w =
      (Wait, ?w e2)" if "\<forall>j \<ge> n. \<not> e_fdopen env d j" for ws
  proof -
    have "do_read env d e2 = (Wait, e2)"
      using fdopen_spin_fails [of n "e_fdopen env" d "e_tries env"] that e2(4) by (simp add: do_read_def)
    then have "epoll_rounds env (Inr [(d, EPOLLIN)] # ws) buf e2 = (Wait, e2)" for buf
      by (simp add: EPOLLEVENTS_def EPOLLIN_def sbind_def sseq_def)
    then show ?thesis by (simp add: run e2(1) del: epoll_rounds.simps)
  qed
  ultimately show ?thesis using e2(2,3) by (intro exI [of _ "?w e2"]) simp
qed

text \<open>A concrete worker and client for the witness.\<close>

definition asking :: "bytes \<Rightarrow> conn" where
  "asking line = \<lparr>rd_ans = [RData line, RData [newline]], wr_ans = replicate 1000 (WAccept 1024), wire = []\<rparr>"

definition quiet_env :: http_env where
  "quiet_env = \<lparr>e_stat = (\<lambda>p. if p = LOCAL_ROOT @ ''/a'' then Some False else None), e_open = (\<lambda>_. 5),
     e_fdopen = (\<lambda>_ _. True), e_buf0 = replicate 1024 NUL, e_method0 = replicate 512 NUL, e_url0 = replicate 512 NUL,
     e_fd0 = 0, e_tries = 1\<rparr>"

definition fresh_events :: "bytes \<Rightarrow> ep_st" where
  "fresh_events line = \<lparr>open_fds = [], shared = [], stale = [], interest = Map.empty, conns = (\<lambda>_. asking line),
     file_st = \<lparr>rd_ans = [RErr ENOTSOCK], wr_ans = [], wire = []\<rparr>, fdopen_cnt = 0, flag_x = 0, epollfd = 0\<rparr>"

lemma asking_asks:
  assumes "newline \<notin> set line" "NUL \<notin> set line" "length line \<le> 500" "request_words line = (m, u)" "u \<noteq> []"
  shows "asks m u (asking line)"
proof -
  obtain sp tl where l: "line = m @ sp @ u @ tl" using request_words_split [OF assms(4,5)] by metis
  have "rd_ans (asking line) = [RData line, RData [newline]] @ []" by (simp add: asking_def)
  moreover have "rd_clean [RData line, RData [newline]]" "rd_bytes [RData line, RData [newline]] = line @ newline # []"
    using assms(5) l by (auto simp: rd_clean_def)
  moreover have "length line + 2 \<le> BUFFSIZE" "length m < PARTSIZE" "length u < PARTSIZE"
    using assms(3) arg_cong [OF l, of length] by (simp_all add: BUFFSIZE_def PARTSIZE_def)
  ultimately show ?thesis using assms unfolding asks_def by blast
qed

lemma asking_takes: "takes_page code (asking line)"
  by (simp add: takes_page_def http_page_def kernel_takes_def asking_def list_all_iff BUFFSIZE_def
      page_text_defs crlf_def SERVER_TYPE_def)

theorem connection_served_witness:
  "\<forall>p. \<exists>r srv' w'. accept_loop ''ab'' (\<lambda>_. 0) (\<lambda>_ _. 0) [Inr 7]
      \<lparr>procs = p, munix = \<lparr>snd_ans = [WAccept 2], sent = [], inbox = []\<rparr>, sfds = [3]\<rparr> = (r, srv')
    \<and> jump_task_pool_obj quiet_env 9 [Inr [(17, EPOLLIN)]] EINTR ''..'' 0
        \<lparr>usock = \<lparr>snd_ans = [], sent = [], inbox = delivers (\<lambda>fd. fd + 10) (sent (munix srv'))\<rparr>,
         ev = fresh_events ''GET /a H''\<rparr> = (Wait, w')
    \<and> wire (conns (ev w') 17) = concat response_ok_text \<and> 17 \<in> set (open_fds (ev w'))"
proof
  fix p
  let ?srv = "\<lparr>procs = p, munix = \<lparr>snd_ans = [WAccept 2], sent = [], inbox = []\<rparr>, sfds = [3]\<rparr>"
  obtain r srv' where a: "accept_loop ''ab'' (\<lambda>_. 0) (\<lambda>_ _. 0) [Inr 7] ?srv = (r, srv')" by (metis prod.exhaust)
  let ?w = "\<lparr>usock = \<lparr>snd_ans = [], sent = [], inbox = delivers (\<lambda>fd. fd + 10) (sent (munix srv'))\<rparr>, ev = fresh_events ''GET /a H''\<rparr>"
  have w: "request_words ''GET /a H'' = (''GET'', ''/a'')" and l: "map tolower ''GET'' = ''get''" by code_simp+
  have st: "stack_ok quiet_env" "fdopen_spin (e_fdopen quiet_env) 17 (e_tries quiet_env) (fdopen_cnt (fresh_events x)) = Some 1" for x
    by (simp_all add: stack_ok_def quiet_env_def fresh_events_def BUFFSIZE_def PARTSIZE_def)
  have q: "asks ''GET'' ''/a'' (asking ''GET /a H'')"
    by (rule asking_asks [OF _ _ _ w]) (simp_all add: newline_def NUL_def)
  have sv: "serve (e_stat quiet_env) ''GET'' ''/a'' = (HTTP_SUCCESS, Some (LOCAL_ROOT @ ''/a''))"
    using l by (simp add: serve_def quiet_env_def http_codes)
  have "file_opens quiet_env (file_st (fresh_events x)) path" for x path
    by (simp add: file_opens_def quiet_env_def fresh_events_def)
  with connection_served [of 7 "\<lambda>_. 0" "\<lambda>_ _. 0" "''ab''" 2 ?srv "[]" r srv' ?w "\<lambda>fd. fd + 10" "''..''" quiet_env 9 1
      "''GET''" "''/a''" HTTP_SUCCESS "Some (LOCAL_ROOT @ ''/a'')" EINTR 0] a st q sv asking_takes
  obtain w' where "jump_task_pool_obj quiet_env 9 [Inr [(17, EPOLLIN)]] EINTR ''..'' 0 ?w = (Wait, w')"
    "wire (conns (ev w') 17) = concat response_ok_text" "17 \<in> set (open_fds (ev w'))"
    by (auto simp: fresh_events_def page_200) (simp add: asking_def)
  with a show "\<exists>r srv' w'. accept_loop ''ab'' (\<lambda>_. 0) (\<lambda>_ _. 0) [Inr 7] ?srv = (r, srv')
    \<and> jump_task_pool_obj quiet_env 9 [Inr [(17, EPOLLIN)]] EINTR ''..'' 0
        \<lparr>usock = \<lparr>snd_ans = [], sent = [], inbox = delivers (\<lambda>fd. fd + 10) (sent (munix srv'))\<rparr>,
         ev = fresh_events ''GET /a H''\<rparr> = (Wait, w')
    \<and> wire (conns (ev w') 17) = concat response_ok_text \<and> 17 \<in> set (open_fds (ev w'))"
    by blast
qed

theorem refused_connection_stays_registered_witness:
  "\<exists>w1. jump_task_pool_obj (quiet_env\<lparr>e_fdopen := (\<lambda>_ k. k = 0)\<rparr>) 9 [Inr [(17, EPOLLIN)]] EINTR ''..'' 0
      \<lparr>usock = \<lparr>snd_ans = [], sent = [], inbox = [Inr \<lparr>msg_iov = ''ab'', msg_control = control_for 17\<rparr>]\<rparr>,
       ev = fresh_events ''PUT /a H''\<rparr> = (Wait, w1)
    \<and> 17 \<notin> set (open_fds (ev w1)) \<and> (17, EPOLLIN) \<in> set (stale (ev w1))
    \<and> jump_task_pool_obj (quiet_env\<lparr>e_fdopen := (\<lambda>_ k. k = 0)\<rparr>) 9 [Inr [(17, EPOLLIN)], Inr [(17, EPOLLIN)]] EINTR ''..'' 0
      \<lparr>usock = \<lparr>snd_ans = [], sent = [], inbox = [Inr \<lparr>msg_iov = ''ab'', msg_control = control_for 17\<rparr>]\<rparr>,
       ev = fresh_events ''PUT /a H''\<rparr> = (Wait, w1)"
proof -
  let ?env = "quiet_env\<lparr>e_fdopen := (\<lambda>_ k. k = 0)\<rparr>"
  let ?w = "\<lparr>usock = \<lparr>snd_ans = [], sent = [], inbox = [Inr \<lparr>msg_iov = ''ab'', msg_control = control_for 17\<rparr>]\<rparr>,
       ev = fresh_events ''PUT /a H''\<rparr>"
  have w: "request_words ''PUT /a H'' = (''PUT'', ''/a'')" and l: "map tolower ''PUT'' = ''put''" by code_simp+
  have st: "stack_ok ?env" "fdopen_spin (e_fdopen ?env) 17 (e_tries ?env) (fdopen_cnt (fresh_events x)) = Some 1" for x
    by (simp_all add: stack_ok_def quiet_env_def fresh_events_def BUFFSIZE_def PARTSIZE_def)
  have q: "asks ''PUT'' ''/a'' (conns (ev ?w) 17)"
    using asking_asks [OF _ _ _ w] by (simp add: newline_def NUL_def fresh_events_def)
  have sv: "serve (e_stat ?env) ''PUT'' ''/a'' = (HTTP_ERROR_METHOD, None)"
    using l by (simp add: serve_def http_codes)
  have t: "takes_page HTTP_ERROR_METHOD (conns (ev ?w) 17)" by (simp add: fresh_events_def asking_takes)
  have ne: "HTTP_ERROR_METHOD \<noteq> HTTP_SUCCESS" "interest (ev ?w) 17 = None" "\<forall>j \<ge> 1. \<not> e_fdopen ?env 17 j"
    by (simp_all add: http_codes fresh_events_def)
  have m: "inbox (usock ?w) = [Inr \<lparr>msg_iov = ''ab'', msg_control = control_for 17\<rparr>]" "length ''ab'' = 2"
    "length ''..'' = 2" "0 \<le> (17 :: int)"
    and k: "fdopen_spin (e_fdopen ?env) 17 (e_tries ?env) (fdopen_cnt (ev ?w)) = Some 1"
    using st(2) by simp_all
  obtain w1 where w1: "jump_task_pool_obj ?env 9 [Inr [(17, EPOLLIN)]] EINTR ''..'' 0 ?w = (Wait, w1)"
    "17 \<notin> set (open_fds (ev w1))"
    "\<forall>ws. (17, EPOLLIN) \<in> set (stale (ev (snd (jump_task_pool_obj ?env 9 (Inr [(17, EPOLLIN)] # ws) EINTR ''..'' 0 ?w))))"
    "\<forall>ws. jump_task_pool_obj ?env 9 (Inr [(17, EPOLLIN)] # Inr [(17, EPOLLIN)] # ws) EINTR ''..'' 0 ?w = (Wait, w1)"
    using refused_connection_stays_registered [OF m st(1) _ k q t sv ne(1,2), of 9 EINTR 0] ne(3) by auto
  from w1(3) [rule_format, of "[]"] w1(1) have "(17, EPOLLIN) \<in> set (stale (ev w1))" by simp
  with w1 show ?thesis by blast
qed

end
