(* ===== verification/Ipc.thy ===== *)
theory Ipc
  imports Sysio
begin

text \<open>
  The message queues of inc/http_ipc.h and the signal handlers of src/core/epoll_circle.h that
  destroy them. The kernel's queues are System V message queues as their manual pages say: a queue
  has an identifier and at most one key; \<open>msgsnd\<close> blocks when the queue is full (\<open>qbytes\<close>), \<open>msgrcv\<close>
  when there is no message of the type asked for. \<open>arr\<close> is the program's global array.
\<close>

section \<open>Messages and the kernel's queues\<close>

record msg_t =
  mtype :: int
  mcontext :: bytes
  mpid :: int

text \<open>A message in a queue also has the size of its text.\<close>

type_synonym kmsg = "nat \<times> msg_t"

record ipc =
  key_of :: "int \<Rightarrow> int option"
  queue :: "int \<Rightarrow> kmsg list option"
  next_id :: int
  qbytes :: nat
  arr :: "int list"


definition msgsnd :: "int \<Rightarrow> msg_t \<Rightarrow> nat \<Rightarrow> (ipc, errno option) prog" where
  "msgsnd qid m sz s = (case queue s qid of
      None \<Rightarrow> (Ret (Some (Eother 22)), s)
    | Some ms \<Rightarrow>
        (if mtype m < 1 then (Ret (Some (Eother 22)), s)
         else if qbytes s < sum_list (map fst ms) + sz then (Wait, s)
         else (Ret None, s\<lparr>queue := (queue s)(qid \<mapsto> ms @ [(sz, m)])\<rparr>)))"

text \<open>The message \<open>msgrcv\<close> takes: the first one, the first of a type, or the first of the lowest type
  up to a bound.\<close>

definition selects :: "int \<Rightarrow> kmsg list \<Rightarrow> kmsg \<Rightarrow> bool" where
  "selects type ms k \<longleftrightarrow>
     (if type = 0 then True
      else if 0 < type then mtype (snd k) = type
      else mtype (snd k) \<le> - type \<and> (\<forall>k' \<in> set ms. mtype (snd k) \<le> mtype (snd k')))"

definition msgrcv :: "int \<Rightarrow> nat \<Rightarrow> int \<Rightarrow> bool \<Rightarrow> (ipc, errno + kmsg) prog" where
  "msgrcv qid sz type nowait s = (case queue s qid of
      None \<Rightarrow> (Ret (Inl (Eother 22)), s)
    | Some ms \<Rightarrow>
        (let before = takeWhile (\<lambda>k. \<not> selects type ms k) ms;
             rest = dropWhile (\<lambda>k. \<not> selects type ms k) ms
         in case rest of
              [] \<Rightarrow> if nowait then (Ret (Inl (Eother 42)), s) else (Wait, s)
            | k # after \<Rightarrow>
                if sz < fst k then (Ret (Inl E2BIG), s)
                else (Ret (Inr k), s\<lparr>queue := (queue s)(qid \<mapsto> before @ after)\<rparr>)))"

definition msgctl_rmid :: "int \<Rightarrow> ipc \<Rightarrow> int \<times> ipc" where
  "msgctl_rmid qid s = (case queue s qid of
      None \<Rightarrow> (- 1, s)
    | Some _ \<Rightarrow> (0, s\<lparr>queue := (queue s)(qid := None),
        key_of := (\<lambda>k. if key_of s k = Some qid then None else key_of s k)\<rparr>))"

section \<open>The operations\<close>






text \<open>\<open>sizeof(msg_t) - sizeof(long)\<close>: 1024 characters, an \<open>int\<close> and four bytes of padding.\<close>

definition msg_length :: nat where
  "msg_length = 1040 - 8"

text \<open>\<open>result\<close> is the comparison with \<open>-1\<close>, not what \<open>msgsnd\<close> answered.\<close>

definition send_queue :: "int \<Rightarrow> msg_t \<Rightarrow> (ipc, int) prog" where
  "send_queue msgid p = sbind (msgsnd msgid p msg_length) (\<lambda>r. case r of
      Some e \<Rightarrow> sexit
    | None \<Rightarrow> sret 0)"

definition rcv_queue :: "int \<Rightarrow> int \<Rightarrow> (ipc, int \<times> msg_t) prog" where
  "rcv_queue msgid type = sbind (msgrcv msgid msg_length type False) (\<lambda>r. case r of
      Inl e \<Rightarrow> sexit
    | Inr k \<Rightarrow> sret (int (fst k), snd k))"

definition peek_message :: "int \<Rightarrow> int \<Rightarrow> (ipc, int) prog" where
  "peek_message qid type = sbind (msgrcv qid 0 type True) (\<lambda>r. case r of
      Inl e \<Rightarrow> sret (if e = E2BIG then - 1 else 0)
    | Inr k \<Rightarrow> sret 0)"

definition remove_message :: "int \<Rightarrow> (ipc, int) prog" where
  "remove_message msgqid s =
     (let (r, s') = msgctl_rmid msgqid s in if r < 0 then (Exit, s') else (Ret 0, s'))"



primrec destroy_loop :: "nat \<Rightarrow> nat \<Rightarrow> (ipc, unit) prog" where
  "destroy_loop i 0 = sret ()"
| "destroy_loop i (Suc k) =
     sbind (sget (\<lambda>s. arr s ! i)) (\<lambda>q. sseq (remove_message q) (destroy_loop (Suc i) k))"

definition destroy_queue :: "(ipc, unit) prog" where
  "destroy_queue = destroy_loop 0 3"

definition sig_quit :: "(ipc, unit) prog" where
  "sig_quit = sseq destroy_queue sexit"

definition sig_int_kill :: "(ipc, unit) prog" where
  "sig_int_kill = sseq destroy_queue sexit"

section \<open>Looking for a message\<close>

text \<open>\<open>peek_message\<close> answers \<open>-1\<close> when there is a message to take, and takes none.\<close>

theorem peek_message_finds:
  assumes "queue s q = Some ms" "\<forall>k \<in> set ms. 0 < fst k"
  shows "peek_message q type s = (Ret (if \<exists>k \<in> set ms. selects type ms k then - 1 else 0), s)"
proof (cases "dropWhile (\<lambda>k. \<not> selects type ms k) ms")
  case Nil
  with assms(1) show ?thesis
    by (simp add: peek_message_def sbind_def msgrcv_def sret_def del: dropWhile_eq_Nil_conv)
      (simp add: dropWhile_eq_Nil_conv)
next
  case (Cons k after)
  then have k: "selects type ms k" "k \<in> set ms"
    by (auto simp: dropWhile_eq_Cons_conv) (metis in_set_conv_decomp)
  with assms Cons show ?thesis
    by (auto simp: peek_message_def sbind_def msgrcv_def sret_def)
qed

section \<open>Creating and destroying\<close>


text \<open>On a kernel without queues for the three keys \<open>destroy_queue\<close> takes back what \<open>create_queue\<close> made,
  and nothing else.\<close>



text \<open>\<open>start\<close> never calls \<open>create_queue\<close>, so its signal handlers find three zeros in \<open>arr\<close>: they remove the
  queue with the identifier 0, whoever owns it, and no other.\<close>

theorem sig_quit_removes_queue_zero:
  assumes "arr s = [0, 0, 0]"
  shows "\<exists>s'. sig_quit s = (Exit, s') \<and> queue s' = (queue s)(0 := None)"
  using assms
  by (auto simp: sig_quit_def destroy_queue_def eval_nat_numeral remove_message_def msgctl_rmid_def
      sbind_def sseq_def sget_def split: option.split)

end
