(* ===== verification/Signals.thy ===== *)
theory Signals
  imports Worker Ipc
begin

text \<open>
  Signals: the dispositions \<open>start\<close> (src/core/epoll_circle.h) and the workers (inc/http_task.h) set, the
  handlers, \<open>Signal\<close> of inc/sock.h, and what a signal does to the processes that \<open>tell_chld_exit\<close> names.
  A process has its table of actions, which \<open>fork\<close> copies; the queues belong to the kernel. The global
  array \<open>arr\<close> is the same in all processes, since nothing writes it after the start.
\<close>

section \<open>Dispositions\<close>

datatype handler = Sig_quit | Sig_int_kill | Sig_handler_child

datatype disposition = SIG_DFL | SIG_IGN | SIG_FUN handler

record sigact =
  sa_handler :: disposition
  sa_mask :: "int list"
  sa_restart :: bool

type_synonym sigtable = "int \<Rightarrow> sigact"

definition SIGQUIT :: int where "SIGQUIT = 3"

definition SIGKILL :: int where "SIGKILL = 9"

definition SIGPIPE :: int where "SIGPIPE = 13"

definition SIGCHLD :: int where "SIGCHLD = 17"

definition SIGSTOP :: int where "SIGSTOP = 19"

definition catchable :: "int \<Rightarrow> bool" where
  "catchable sig \<longleftrightarrow> 1 \<le> sig \<and> sig \<le> 64 \<and> sig \<noteq> SIGKILL \<and> sig \<noteq> SIGSTOP"

text \<open>\<open>sigaction\<close>: the old action, or \<open>None\<close> for an error. The C library's \<open>signal\<close> is the same with an
  empty mask and restarted calls.\<close>

definition sigaction :: "int \<Rightarrow> sigact \<Rightarrow> (sigtable, sigact option) prog" where
  "sigaction sig act t = (if catchable sig then (Ret (Some (t sig)), t(sig := act)) else (Ret None, t))"

definition signal :: "int \<Rightarrow> disposition \<Rightarrow> (sigtable, disposition option) prog" where
  "signal sig h = sbind (sigaction sig \<lparr>sa_handler = h, sa_mask = [], sa_restart = True\<rparr>)
     (\<lambda>old. sret (map_option sa_handler old))"

definition Signal :: "int \<Rightarrow> disposition \<Rightarrow> (sigtable, disposition) prog" where
  "Signal signum hander =
     sbind (sigaction signum \<lparr>sa_handler = hander, sa_mask = [], sa_restart = True\<rparr>) (\<lambda>oldaction.
     case oldaction of None \<Rightarrow> sexit | Some old \<Rightarrow> sret (sa_handler old))"

definition start_signals :: "(sigtable, unit) prog" where
  "start_signals =
     sseq (signal SIGPIPE SIG_IGN)
     (sseq (signal SIGCHLD SIG_DFL)
     (sseq (signal SIGINT (SIG_FUN Sig_int_kill))
     (sseq (signal SIGQUIT (SIG_FUN Sig_quit)) (sret ()))))"

definition worker_signals :: "(sigtable, unit) prog" where
  "worker_signals = sseq (signal SIGPIPE SIG_IGN) (sret ())"

lemmas signal_numbers = SIGINT_def SIGQUIT_def SIGKILL_def SIGPIPE_def SIGCHLD_def SIGSTOP_def

text \<open>\<open>Signal\<close> and \<open>signal\<close> set the same action; only \<open>Signal\<close> stops the process when it cannot.\<close>

lemma Signal_is_signal:
  "Signal sig h t = (case signal sig h t of (Ret (Some old), t') \<Rightarrow> (Ret old, t') | (_, t') \<Rightarrow> (Exit, t'))"
  by (simp add: Signal_def signal_def sigaction_def sbind_def sret_def sexit_def)

section \<open>Delivery\<close>

definition sig_handler_child :: "(ipc, unit) prog" where
  "sig_handler_child = sret ()"

fun run_handler :: "handler \<Rightarrow> (ipc, unit) prog" where
  "run_handler Sig_quit = sig_quit"
| "run_handler Sig_int_kill = sig_int_kill"
| "run_handler Sig_handler_child = sig_handler_child"

text \<open>The default actions of the system: a few signals are ignored, four stop the process, the others end it.\<close>

definition default_action :: "int \<Rightarrow> (ipc, unit) prog" where
  "default_action sig =
     (if sig \<in> {SIGCHLD, 18, 23, 28} then sret ()
      else if sig \<in> {SIGSTOP, 20, 21, 22} then (\<lambda>q. (Wait, q))
      else sexit)"

definition deliver :: "sigtable \<Rightarrow> int \<Rightarrow> (ipc, unit) prog" where
  "deliver t sig = (case sa_handler (t sig) of
      SIG_DFL \<Rightarrow> default_action sig
    | SIG_IGN \<Rightarrow> sret ()
    | SIG_FUN h \<Rightarrow> run_handler h)"

text \<open>The running processes with their tables, those of them the caller may signal with \<open>-1\<close>, and the
  kernel's queues. There are no other process groups.\<close>

record procs =
  running :: "int \<Rightarrow> sigtable option"
  others :: "int list"
  kernel :: ipc

definition kill_one :: "int \<Rightarrow> int \<Rightarrow> (procs, int) prog" where
  "kill_one p sig s = (case running s p of
      None \<Rightarrow> (Ret (- 1), s)
    | Some t \<Rightarrow> (case deliver t sig (kernel s) of
          (Exit, q) \<Rightarrow> (Ret 0, s\<lparr>running := (running s)(p := None), kernel := q\<rparr>)
        | (_, q) \<Rightarrow> (Ret 0, s\<lparr>kernel := q\<rparr>)))"

primrec kill_each :: "int \<Rightarrow> int list \<Rightarrow> (procs, unit) prog" where
  "kill_each sig [] = sret ()"
| "kill_each sig (p # ps) = sseq (kill_one p sig) (kill_each sig ps)"

definition kill :: "int \<Rightarrow> int \<Rightarrow> (procs, int) prog" where
  "kill p sig = (if p = - 1 then sbind (sget others) (\<lambda>ps. sseq (kill_each sig ps) (sret 0)) else kill_one p sig)"

text \<open>The calls of \<open>kill\<close> that \<open>tell_chld_exit\<close> makes, each with its signal, in the order of the pool.\<close>

primrec kill_calls :: "(int \<times> int) list \<Rightarrow> (procs, unit) prog" where
  "kill_calls [] = sret ()"
| "kill_calls (k # ks) = sseq (kill (fst k) (snd k)) (kill_calls ks)"

section \<open>What the dispositions do\<close>

definition server_table :: "sigtable \<Rightarrow> sigtable" where
  "server_table t = snd (start_signals t)"

definition worker_table :: "sigtable \<Rightarrow> sigtable" where
  "worker_table t = snd (worker_signals (server_table t))"

lemma start_signals_run: "start_signals t = (Ret (), server_table t)" "worker_signals t' = (Ret (), snd (worker_signals t'))"
  by (simp_all add: server_table_def start_signals_def worker_signals_def signal_def sigaction_def sseq_def
      sbind_def sret_def catchable_def signal_numbers)

lemma tables:
  "sa_handler (server_table t SIGINT) = SIG_FUN Sig_int_kill" "sa_handler (server_table t SIGQUIT) = SIG_FUN Sig_quit"
  "sa_handler (server_table t SIGPIPE) = SIG_IGN" "sa_handler (server_table t SIGCHLD) = SIG_DFL"
  "sa_handler (worker_table t SIGINT) = SIG_FUN Sig_int_kill" "sa_handler (worker_table t SIGQUIT) = SIG_FUN Sig_quit"
  "sa_handler (worker_table t SIGPIPE) = SIG_IGN" "sa_handler (worker_table t SIGCHLD) = SIG_DFL"
  by (simp_all add: worker_table_def server_table_def start_signals_def worker_signals_def signal_def sigaction_def
      sseq_def sbind_def sret_def catchable_def signal_numbers)

lemma destroy_queue_ends: "fst (destroy_queue q) = Ret () \<or> fst (destroy_queue q) = Exit"
proof -
  have "fst (destroy_loop i k q) = Ret () \<or> fst (destroy_loop i k q) = Exit" for i k
  proof (induction k arbitrary: i q)
    case (Suc k)
    obtain r q' where r: "remove_message (arr q ! i) q = (r, q')" by (metis prod.exhaust)
    then have "r = Ret 0 \<or> r = Exit" by (auto simp: remove_message_def split: prod.splits if_splits)
    with r Suc.IH [of "Suc i" q'] show ?case by (auto simp: sbind_def sseq_def sget_def)
  qed (simp add: sret_def)
  then show ?thesis by (simp add: destroy_queue_def)
qed

lemma handlers_exit: "fst (sig_int_kill q) = Exit" "fst (sig_quit q) = Exit"
  "snd (sig_int_kill q) = snd (destroy_queue q)" "snd (sig_quit q) = snd (destroy_queue q)"
  using destroy_queue_ends [of q]
  by (auto simp: sig_int_kill_def sig_quit_def sseq_def sbind_def sexit_def split: prod.split)

text \<open>Where a process starts, for the witnesses.\<close>

definition default_table :: sigtable where
  "default_table = (\<lambda>_. \<lparr>sa_handler = SIG_DFL, sa_mask = [], sa_restart = False\<rparr>)"

definition no_queues :: ipc where
  "no_queues = \<lparr>key_of = Map.empty, queue = Map.empty, next_id = 1, qbytes = 16384, arr = [0, 0, 0]\<rparr>"

text \<open>A write to a closed connection does not end the server or a worker, so the failing \<open>send\<close> that the
  models of the byte loops assume is what the code sees; a dead worker is not noticed; SIGINT and SIGQUIT
  run \<open>destroy_queue\<close> and end the process.\<close>

text \<open>
  C24: A connection that breaks during a write (SIGPIPE) or a worker that dies (SIGCHLD)
  leaves the server and its workers running; SIGINT and SIGQUIT make each of them destroy the
  queues and end.
\<close>

theorem signals_of_the_server:
  assumes "t = server_table t0 \<or> t = worker_table t0"
  shows "deliver t SIGPIPE q = (Ret (), q) \<and> deliver t SIGCHLD q = (Ret (), q)
    \<and> deliver t SIGINT q = (Exit, snd (destroy_queue q)) \<and> deliver t SIGQUIT q = (Exit, snd (destroy_queue q))"
proof -
  have h: "sa_handler (t SIGINT) = SIG_FUN Sig_int_kill" "sa_handler (t SIGQUIT) = SIG_FUN Sig_quit"
    "sa_handler (t SIGPIPE) = SIG_IGN" "sa_handler (t SIGCHLD) = SIG_DFL"
    using assms tables by auto
  have "sig_int_kill q = (Exit, snd (destroy_queue q))" "sig_quit q = (Exit, snd (destroy_queue q))"
    using handlers_exit [of q] by (metis prod.collapse)+
  with h show ?thesis by (simp add: deliver_def default_action_def sret_def)
qed

theorem signals_of_the_server_witness:
  "deliver (worker_table default_table) SIGPIPE no_queues = (Ret (), no_queues)
    \<and> deliver (server_table default_table) SIGINT no_queues = (Exit, snd (destroy_queue no_queues))"
  using signals_of_the_server [of "worker_table default_table" default_table no_queues]
    signals_of_the_server [of "server_table default_table" default_table no_queues] by simp

section \<open>Ending the workers\<close>

text \<open>A worker that gets SIGINT destroys the queues and ends; a process id that is not running is left alone.\<close>

definition int_table :: "sigtable \<Rightarrow> bool" where
  "int_table t \<longleftrightarrow> sa_handler (t SIGINT) = SIG_FUN Sig_int_kill"

definition after_int :: "procs \<Rightarrow> int set \<Rightarrow> procs \<Rightarrow> bool" where
  "after_int w ps w' \<longleftrightarrow> running w' = (\<lambda>p. if p \<in> ps then None else running w p) \<and> others w' = others w
     \<and> kernel w' = ((\<lambda>q. snd (destroy_queue q)) ^^ card (ps \<inter> dom (running w))) (kernel w)"

lemma kill_one_int:
  assumes "\<forall>t. running w p = Some t \<longrightarrow> int_table t"
  shows "\<exists>r w'. kill_one p SIGINT w = (Ret r, w') \<and> after_int w {p} w'"
proof (cases "running w p")
  case None
  then have "{p} \<inter> dom (running w) = {}" by auto
  with None show ?thesis by (auto simp: kill_one_def after_int_def)
next
  case (Some t)
  have "sig_int_kill (kernel w) = (Exit, snd (destroy_queue (kernel w)))"
    using handlers_exit [of "kernel w"] by (metis prod.collapse)
  moreover have "{p} \<inter> dom (running w) = {p}" using Some by auto
  ultimately show ?thesis using Some assms
    by (auto simp: int_table_def deliver_def kill_one_def after_int_def fun_eq_iff)
qed

lemma kill_each_int:
  "\<forall>p \<in> set ps. \<forall>t. running w p = Some t \<longrightarrow> int_table t \<Longrightarrow>
   \<exists>w'. kill_each SIGINT ps w = (Ret (), w') \<and> after_int w (set ps) w'"
proof (induction ps arbitrary: w)
  case (Cons p ps)
  obtain r w1 where w1: "kill_one p SIGINT w = (Ret r, w1)" "after_int w {p} w1"
    using kill_one_int [of w p] Cons.prems by auto
  have "\<forall>q \<in> set ps. \<forall>t. running w1 q = Some t \<longrightarrow> int_table t"
    using Cons.prems w1(2) by (auto simp: after_int_def split: if_splits)
  from Cons.IH [OF this] obtain w' where w': "kill_each SIGINT ps w1 = (Ret (), w')" "after_int w1 (set ps) w'"
    by blast
  have d: "dom (running w1) = dom (running w) - {p}"
    using w1(2) by (auto simp: after_int_def split: if_splits)
  let ?A = "set ps \<inter> dom (running w1)" and ?B = "{p} \<inter> dom (running w)"
  have "set (p # ps) \<inter> dom (running w) = ?A \<union> ?B" "?A \<inter> ?B = {}" by (auto simp: d)
  then have "card (set (p # ps) \<inter> dom (running w)) = card ?A + card ?B"
    by (simp add: card_Un_disjoint)
  then have "after_int w (set (p # ps)) w'"
    using w1(2) w'(2) by (auto simp: after_int_def fun_eq_iff funpow_add)
  with w1(1) w'(1) show ?case by (auto simp: sseq_def sbind_def)
qed (simp add: sret_def after_int_def)

lemma kill_calls_each: "- 1 \<notin> set ps \<Longrightarrow> kill_calls (map (\<lambda>p. (p, sig)) ps) = kill_each sig ps"
  by (induction ps) (auto simp: kill_def)

text \<open>A processor that has no process yet has the process id \<open>-1\<close>: telling it to exit signals everything.\<close>

theorem tell_chld_exit_without_process:
  assumes "slist_ok s xs" "slist_abs s xs = d # ds" "pid d = - 1"
    and "\<forall>p \<in> set (others w). \<forall>t. running w p = Some t \<longrightarrow> int_table t"
  shows "\<exists>sig ks s' w'. tell_chld_exit s = (Ret ((- 1, sig) # ks), s') \<and> kill (- 1) sig w = (Ret 0, w')
    \<and> (\<forall>p \<in> set (others w). running w' p = None)"
proof -
  obtain s' where "tell_chld_exit s = (Ret ((- 1, SIGINT) # map (\<lambda>d. (pid d, SIGINT)) ds), s')"
    using tell_chld_exit_kills [OF assms(1)] assms(2,3) by auto
  moreover obtain w' where "kill_each SIGINT (others w) w = (Ret (), w')" "after_int w (set (others w)) w'"
    using kill_each_int [OF assms(4)] by blast
  then have "kill (- 1) SIGINT w = (Ret 0, w')" "\<forall>p \<in> set (others w). running w' p = None"
    by (auto simp: kill_def sbind_def sseq_def sget_def sret_def after_int_def)
  ultimately show ?thesis by blast
qed

definition one_waiting :: pool where
  "one_waiting = \<lparr>n_proc = 1, slh_first = Some 0, brk = 1, cells =
     [0 \<mapsto> \<lparr>sl_data = \<lparr>pid = - 1, nleft = 200, status = 0\<rparr>, sle_next = None\<rparr>]\<rparr>"

theorem tell_chld_exit_without_process_witness:
  "\<exists>sig ks s' w'. tell_chld_exit one_waiting = (Ret ((- 1, sig) # ks), s')
    \<and> kill (- 1) sig \<lparr>running = (\<lambda>_. Some (server_table default_table)), others = [20, 30], kernel = no_queues\<rparr> = (Ret 0, w')
    \<and> (\<forall>p \<in> {20, 30}. running w' p = None)"
proof -
  have "slist_ok one_waiting [0]" by (simp add: slist_ok_def one_waiting_def)
  moreover have "slist_abs one_waiting [0] = [\<lparr>pid = - 1, nleft = 200, status = 0\<rparr>]"
    by (simp add: slist_abs_def data_at_def one_waiting_def)
  ultimately show ?thesis
    using tell_chld_exit_without_process [of one_waiting "[0]" "\<lparr>pid = - 1, nleft = 200, status = 0\<rparr>" "[]"
        "\<lparr>running = (\<lambda>_. Some (server_table default_table)), others = [20, 30], kernel = no_queues\<rparr>"]
    by (simp add: int_table_def tables)
qed

text \<open>
  C23: The calls of kill that tell_chld_exit makes, each with the signal the code passes, end
  every worker of the pool and no other process; every worker runs the handler that start has
  set for that signal and destroys the queues on its way out, once for each.
\<close>

theorem tell_chld_exit_ends_workers:
  assumes "slist_ok s xs"
    and "\<forall>d \<in> set (slist_abs s xs). pid d \<noteq> - 1 \<and> (\<exists>t0. running w (pid d) = Some (worker_table t0))"
  shows "\<exists>calls s' w'. tell_chld_exit s = (Ret calls, s') \<and> kill_calls calls w = (Ret (), w')
    \<and> running w' = (\<lambda>p. if p \<in> pid ` set (slist_abs s xs) then None else running w p)
    \<and> kernel w' = ((\<lambda>q. snd (destroy_queue q)) ^^ card (pid ` set (slist_abs s xs))) (kernel w)
    \<and> slist_ok s' xs \<and> slist_abs s' xs = slist_abs s xs"
proof -
  let ?ps = "map pid (slist_abs s xs)"
  obtain s' where s': "tell_chld_exit s = (Ret (map (\<lambda>p. (p, SIGINT)) ?ps), s')" "slist_ok s' xs"
    "slist_abs s' xs = slist_abs s xs" using tell_chld_exit_kills [OF assms(1)] by (auto simp: comp_def)
  have "\<forall>p \<in> set ?ps. \<forall>t. running w p = Some t \<longrightarrow> int_table t"
    using assms(2) by (fastforce simp: int_table_def tables(5))
  from kill_each_int [OF this] obtain w' where w': "kill_each SIGINT ?ps w = (Ret (), w')" "after_int w (set ?ps) w'"
    by blast
  have "- 1 \<notin> set ?ps" using assms(2) by auto
  have "kill_calls (map (\<lambda>p. (p, SIGINT)) ?ps) w = (Ret (), w')"
    unfolding kill_calls_each [OF \<open>- 1 \<notin> set ?ps\<close>] by (rule w'(1))
  moreover have "set ?ps \<inter> dom (running w) = pid ` set (slist_abs s xs)" using assms(2) by fastforce
  ultimately show ?thesis using s' w'(2)
    by (intro exI [of _ "map (\<lambda>p. (p, SIGINT)) ?ps"] exI [of _ s'] exI [of _ w'])
      (simp only: after_int_def, simp)
qed

theorem tell_chld_exit_ends_workers_witness:
  "\<exists>calls s' w'. tell_chld_exit \<lparr>n_proc = 1, slh_first = Some 0, brk = 1, cells =
     [0 \<mapsto> \<lparr>sl_data = \<lparr>pid = 7, nleft = 5, status = 0\<rparr>, sle_next = None\<rparr>]\<rparr> = (Ret calls, s')
    \<and> kill_calls calls \<lparr>running = (\<lambda>_. Some (worker_table default_table)), others = [], kernel = no_queues\<rparr> = (Ret (), w')
    \<and> running w' 7 = None \<and> running w' 8 \<noteq> None \<and> kernel w' = snd (destroy_queue no_queues)"
proof -
  let ?s = "\<lparr>n_proc = 1, slh_first = Some 0, brk = 1, cells =
     [0 \<mapsto> \<lparr>sl_data = \<lparr>pid = 7, nleft = 5, status = 0\<rparr>, sle_next = None\<rparr>]\<rparr>"
  let ?w = "\<lparr>running = (\<lambda>_. Some (worker_table default_table)), others = [], kernel = no_queues\<rparr>"
  have ok: "slist_ok ?s [0]" by (simp add: slist_ok_def)
  have ab: "slist_abs ?s [0] = [\<lparr>pid = 7, nleft = 5, status = 0\<rparr>]" by (simp add: slist_abs_def data_at_def)
  from tell_chld_exit_ends_workers [OF ok, of ?w] ab show ?thesis by fastforce
qed

end
