(* ===== verification/HttpIo.thy ===== *)
theory HttpIo
  imports IoLoops LineReader
begin

text \<open>
  utils/http_io.c: the functions \<open>http_Readn\<close>, \<open>http_Writen\<close>, \<open>http_Fgets_s\<close> (on a descriptor)
  and \<open>http_Fgets\<close> (on a \<open>FILE\<close>, whose content that has not been read is a list of characters).

  All three loops on a descriptor keep the result of a system call in a \<open>size_t\<close>, so their error
  branches are dead; the definitions keep the branches and the theorems say what happens
  instead.
\<close>

section \<open>http_Readn and http_Writen\<close>

text \<open>\<open>http_Readn\<close> passes \<open>buffer\<close> and \<open>len\<close> to every \<open>read\<close>; the pointer it advances is not used.\<close>

function http_Readn_loop ::
  "size_t \<Rightarrow> size_t \<Rightarrow> bytes \<Rightarrow> (conn, ssize_t \<times> bytes) prog" where
  "http_Readn_loop len nleft buf c =
     (if 0 < nleft then
        (case sys_read (unat len) c of
           (Ret r, c') \<Rightarrow>
             (let nread = rd_cnt r in
              case mem_store buf 0 (rd_data r) of
                None \<Rightarrow> (Fault, c')
              | Some buf' \<Rightarrow>
                  if nread < 0 then
                    (if rd_errno r = Some EINTR then http_Readn_loop len (nleft - 0) buf' c'
                     else (Ret (len - nleft, buf'), c'))
                  else if nread = 0 then (Ret (len - nleft, buf'), c')
                  else http_Readn_loop len (nleft - nread) buf' c')
         | (_, c') \<Rightarrow> (Wait, c'))
      else (Ret (len - nleft, buf), c))"
  by pat_completeness auto
termination
  by (relation "measure (\<lambda>(len, nleft, buf, c). rd_size (rd_ans c))")
    (auto dest!: rd_cnt_nonzero dest: sys_read_size)

declare http_Readn_loop.simps [simp del]

definition http_Readn :: "bytes \<Rightarrow> size_t \<Rightarrow> (conn, ssize_t \<times> bytes) prog" where
  "http_Readn buf len = http_Readn_loop len len buf"

text \<open>\<open>http_Writen\<close> offers \<open>len\<close> bytes from the position it has reached, not the bytes left.\<close>

function http_Writen_loop ::
  "bytes \<Rightarrow> size_t \<Rightarrow> size_t \<Rightarrow> size_t \<Rightarrow> (conn, ssize_t) prog" where
  "http_Writen_loop buf len nleft pos c =
     (if 0 < nleft then
        (case mem_load buf (sint pos) (unat len) of
           None \<Rightarrow> (Fault, c)
         | Some data \<Rightarrow>
             (case sys_send data c of
                (Ret r, c') \<Rightarrow>
                  (let nwrite = wr_cnt r in
                   if nwrite < 0 then
                     (if rd_errno r = Some EINTR then http_Writen_loop buf len (nleft - 0) (pos + 0) c'
                      else (Ret (len - nleft), c'))
                   else if nwrite = 0 then (Ret (len - nleft), c')
                   else http_Writen_loop buf len (nleft - nwrite) (pos + nwrite) c')
              | (_, c') \<Rightarrow> (Wait, c')))
      else (Ret (len - nleft), c))"
  by pat_completeness auto
termination
  by (relation "measure (\<lambda>(buf, len, nleft, pos, c). length (wr_ans c))")
    (auto dest: sys_send_size)

declare http_Writen_loop.simps [simp del]

definition http_Writen :: "bytes \<Rightarrow> size_t \<Rightarrow> (conn, ssize_t) prog" where
  "http_Writen buf len = http_Writen_loop buf len len 0"

section \<open>http_Fgets_s\<close>

text \<open>The end of a line: a NUL is stored at the position and the position is returned.\<close>

definition end_line :: "nat \<Rightarrow> bytes \<Rightarrow> (conn, ssize_t \<times> bytes) prog" where
  "end_line ptr buf c = (case mem_store buf (int ptr) [NUL] of
      None \<Rightarrow> (Fault, c)
    | Some buf' \<Rightarrow> (Ret (of_nat ptr, buf'), c))"

function http_Fgets_s_loop ::
  "size_t \<Rightarrow> nat \<Rightarrow> char \<Rightarrow> bytes \<Rightarrow> (conn, ssize_t \<times> bytes) prog" where
  "http_Fgets_s_loop nleft ptr ch buf c =
     (if 0 < nleft then
        (case sys_read 1 c of
           (Ret r, c') \<Rightarrow>
             (let read_cnt = rd_cnt r;
                  ch' = (case rd_data r of [] \<Rightarrow> ch | b # _ \<Rightarrow> b)
              in if read_cnt < 0 \<and> rd_errno r \<noteq> Some EINTR then (Ret (- 1, buf), c')
                 else if \<not> read_cnt < 0 \<and> read_cnt = 0 then end_line ptr buf c'
                 else (case mem_store buf (int ptr) [ch'] of
                     None \<Rightarrow> (Fault, c')
                   | Some buf' \<Rightarrow>
                       if ch' = newline then end_line (Suc ptr) buf' c'
                       else http_Fgets_s_loop (nleft - 1) (Suc ptr) ch' buf' c'))
         | (_, c') \<Rightarrow> (Wait, c'))
      else end_line ptr buf c)"
  by pat_completeness auto
termination
  by (relation "measure (\<lambda>(nleft, ptr, ch, buf, c). rd_size (rd_ans c))")
    (auto dest!: rd_cnt_nonzero dest: sys_read_size)

declare http_Fgets_s_loop.simps [simp del]

text \<open>\<open>ch0\<close> is what the uninitialised variable \<open>c\<close> holds.\<close>

definition http_Fgets_s :: "char \<Rightarrow> bytes \<Rightarrow> size_t \<Rightarrow> (conn, ssize_t \<times> bytes) prog" where
  "http_Fgets_s ch0 buffer sz = http_Fgets_s_loop sz 0 ch0 buffer"

section \<open>http_Fgets\<close>

text \<open>
  \<open>c\<close> is a \<open>char\<close>, so the result of \<open>getc\<close> is converted to a signed 8-bit value before it is
  compared with \<open>EOF\<close> (\<open>-1\<close>).
\<close>

definition EOF_c :: int where
  "EOF_c = - 1"

definition char_val :: "char \<Rightarrow> int" where
  "char_val b = (if (of_char b :: int) < 128 then of_char b else of_char b - 256)"

fun getc :: "bytes \<Rightarrow> int \<times> bytes" where
  "getc [] = (EOF_c, [])"
| "getc (b # fs) = (char_val b, fs)"

definition Fgets_end :: "int \<Rightarrow> nat \<Rightarrow> bytes \<Rightarrow> bytes \<Rightarrow> (bool \<times> bytes) cres \<times> bytes" where
  "Fgets_end ch pc buf fs = (case mem_store buf (int pc) [NUL] of
      None \<Rightarrow> (Fault, fs)
    | Some buf' \<Rightarrow> (Ret (\<not> (ch = EOF_c \<and> pc = 0), buf'), fs))"

text \<open>The result says whether the pointer is not \<open>NULL\<close>, and the buffer.\<close>

function http_Fgets_loop ::
  "size_t \<Rightarrow> nat \<Rightarrow> int \<Rightarrow> bytes \<Rightarrow> (bytes, bool \<times> bytes) prog" where
  "http_Fgets_loop n pc ch buf fs =
     (let n' = n - 1 in
      if 0 < n' then
        (let (ch', fs') = getc fs in
         if ch' \<noteq> EOF_c then
           (case mem_store buf (int pc) [char_of ch'] of
              None \<Rightarrow> (Fault, fs')
            | Some buf' \<Rightarrow>
                if char_of ch' = newline then
                  (case mem_store buf' (int (Suc pc)) [NUL] of
                     None \<Rightarrow> (Fault, fs')
                   | Some buf'' \<Rightarrow> Fgets_end ch' (Suc pc) buf'' fs')
                else http_Fgets_loop n' (Suc pc) ch' buf' fs')
         else Fgets_end ch' pc buf fs')
      else Fgets_end ch pc buf fs)"
  by pat_completeness auto
termination
  by (relation "measure (\<lambda>(n, pc, ch, buf, fs). length fs)")
    (auto elim!: getc.elims [OF sym])

declare http_Fgets_loop.simps [simp del]

definition http_Fgets :: "int \<Rightarrow> bytes \<Rightarrow> size_t \<Rightarrow> (bytes, bool \<times> bytes) prog" where
  "http_Fgets ch0 buffer n = http_Fgets_loop n 0 ch0 buffer"

section \<open>What the descriptor loops do\<close>

theorem http_Readn_one_read:
  assumes "rd_ans c = RData bs # es" "0 < n" "n \<le> length bs" "n \<le> length buf" "length buf < 2 ^ 63"
  shows "\<exists>es'. http_Readn buf (of_nat n) c =
    (Ret (of_nat n, take n bs @ drop n buf), c\<lparr>rd_ans := es'\<rparr>) \<and> rd_bytes es' = drop n bs @ rd_bytes es"
proof -
  from assms have n: "unat (of_nat n :: size_t) = n" "0 < (of_nat n :: size_t)"
    "(of_nat n :: size_t) \<noteq> 0"
    by (simp_all add: unat_of_nat_small of_nat_pos_word less_imp_neq [symmetric])
  have st: "mem_store buf 0 (take n bs) = Some (take n bs @ drop n buf)"
    using assms by (simp add: mem_store_def)
  have fin: "http_Readn_loop (of_nat n) 0 b c' = (Ret (of_nat n, b), c')" for b c'
    by (simp add: http_Readn_loop.simps [of _ 0])
  show ?thesis
  proof (cases "length bs = n")
    case True
    with assms n st fin show ?thesis
      by (intro exI [of _ es]) (simp add: http_Readn_def
          http_Readn_loop.simps [of "of_nat n" "of_nat n"] sys_read_def Let_def)
  next
    case False
    with assms n st fin show ?thesis
      by (intro exI [of _ "RData (drop n bs) # es"]) (simp add: http_Readn_def
          http_Readn_loop.simps [of "of_nat n" "of_nat n"] sys_read_def Let_def min_def)
  qed
qed

text \<open>Two deliveries: the second one is stored over the first one.\<close>

theorem http_Readn_overwrites:
  assumes "rd_ans c = RData xs # RData ys # es" "xs \<noteq> []" "ys \<noteq> []"
    and "n = length xs + length ys" "n \<le> length buf" "length buf < 2 ^ 63"
  shows "http_Readn buf (of_nat n) c =
    (Ret (of_nat n, ys @ drop (length ys) (xs @ drop (length xs) buf)), c\<lparr>rd_ans := es\<rparr>)"
proof -
  let ?n = "of_nat n :: size_t"
  from assms have "0 < n" "n < 2 ^ 63" by simp_all
  then have n: "unat ?n = n" "0 < ?n" "?n \<noteq> 0"
    by (simp_all add: unat_of_nat_small of_nat_pos_word less_imp_neq [symmetric])
  have nl: "?n - of_nat (length xs) = of_nat (length ys)"
    using assms(4) by simp
  have ys: "0 < (of_nat (length ys) :: size_t)" "(of_nat (length xs) :: size_t) \<noteq> 0"
    "(of_nat (length ys) :: size_t) \<noteq> 0"
    using assms by (simp_all add: of_nat_pos_word rd_cnt_ok)
  let ?b = "xs @ drop (length xs) buf"
  let ?b' = "ys @ drop (length ys) ?b"
  have st: "mem_store buf 0 xs = Some ?b" "mem_store ?b 0 ys = Some ?b'"
    using assms by (simp_all add: mem_store_def)
  have le: "length xs \<le> n" "length ys \<le> n" using assms(4) by simp_all
  have "http_Readn_loop ?n ?n buf c =
      http_Readn_loop ?n (of_nat (length ys)) ?b (c\<lparr>rd_ans := RData ys # es\<rparr>)"
    using assms(1-3,5,6) le n ys st(1) nl
    by (simp add: http_Readn_loop.simps [of ?n ?n] sys_read_def Let_def)
  also have "\<dots> = http_Readn_loop ?n 0 ?b' (c\<lparr>rd_ans := es\<rparr>)"
    using assms(1-3,5,6) le n ys st(2)
    by (simp add: http_Readn_loop.simps [of ?n "of_nat (length ys)"] sys_read_def Let_def
        del: drop_append)
  also have "\<dots> = (Ret (?n, ?b'), c\<lparr>rd_ans := es\<rparr>)"
    by (simp add: http_Readn_loop.simps [of ?n 0])
  finally show ?thesis by (simp add: http_Readn_def)
qed

theorem http_Readn_overwrites_witness:
  "http_Readn ''........'' 4 \<lparr>rd_ans = [RData ''abc'', RData ''d''], wr_ans = [], wire = []\<rparr> =
   (Ret (4, ''dbc.....''), \<lparr>rd_ans = [], wr_ans = [], wire = []\<rparr>)"
  using http_Readn_overwrites [of "\<lparr>rd_ans = [RData ''abc'', RData ''d''], wr_ans = [], wire = []\<rparr>"
      "''abc''" "''d''" "[]" 4 "''........''"] by simp

text \<open>A descriptor that keeps failing: each error adds one to the number of bytes left, and the
  loop does not return.\<close>

lemma http_Readn_loop_errors:
  assumes "rd_ans c = map RErr errs" "unat nleft + length errs < 2 ^ 64" "0 < nleft"
  shows "http_Readn_loop len nleft buf c = (Wait, c\<lparr>rd_ans := []\<rparr>)"
  using assms
proof (induction errs arbitrary: nleft c)
  case Nil
  then show ?case by (simp add: http_Readn_loop.simps [of len nleft] sys_read_def)
next
  case (Cons e errs)
  have "unat (nleft + 1) = unat nleft + 1"
    using Cons.prems(2) by (simp add: unat_word_ariths)
  then have IH: "http_Readn_loop len (nleft + 1) buf (c\<lparr>rd_ans := map RErr errs\<rparr>) =
      (Wait, c\<lparr>rd_ans := []\<rparr>)"
    using Cons.IH [of "c\<lparr>rd_ans := map RErr errs\<rparr>" "nleft + 1"] Cons.prems
    by (simp add: word_less_nat_alt)
  have "mem_store buf 0 [] = Some buf" by (simp add: mem_store_def)
  with IH Cons.prems show ?case
    by (simp add: http_Readn_loop.simps [of len nleft] sys_read_def Let_def)
qed

theorem http_Readn_errors_never_return:
  assumes "rd_ans c = map RErr errs" "0 < n" "n < 2 ^ 63" "length errs < 2 ^ 63"
  shows "http_Readn buf (of_nat n) c = (Wait, c\<lparr>rd_ans := []\<rparr>)"
proof -
  have "n + length errs < 2 ^ 63 + 2 ^ 63"
    using assms(3,4) by (rule add_strict_mono)
  then have "unat (of_nat n :: size_t) + length errs < 2 ^ 64"
    using unat_of_nat_small [OF assms(3)] by simp
  then show ?thesis
    unfolding http_Readn_def
    by (rule http_Readn_loop_errors [OF assms(1) _ of_nat_pos_word [OF assms(2,3)]])
qed

theorem http_Readn_errors_never_return_witness:
  "http_Readn ''....'' 4 \<lparr>rd_ans = [RErr EBADF, RErr EBADF], wr_ans = [], wire = []\<rparr> =
   (Wait, \<lparr>rd_ans = [], wr_ans = [], wire = []\<rparr>)"
  using http_Readn_errors_never_return [of "\<lparr>rd_ans = [RErr EBADF, RErr EBADF], wr_ans = [], wire = []\<rparr>"
      "[EBADF, EBADF]" 4 "''....''"] by simp

text \<open>Every outcome of \<open>http_Writen\<close> on a buffer of exactly \<open>n\<close> bytes.\<close>

text \<open>
  C36: Every outcome of http_Writen on a buffer of exactly the given length (at least 1, below
  2^63 - 1) in terms of the first answer of the kernel: it succeeds only when the kernel takes
  everything at once; a kernel that takes nothing ends it with 0; a short write or an error
  makes it read outside the buffer.
\<close>

theorem http_Writen_outcome:
  assumes "length buf = n" "0 < n" "n < 2 ^ 63 - 1" "wr_ans c = a # ws"
  shows "http_Writen buf (of_nat n) c =
    (case a of
       WErr e \<Rightarrow> (Fault, c\<lparr>wr_ans := ws\<rparr>)
     | WAccept k \<Rightarrow>
         if n \<le> k then (Ret (of_nat n), c\<lparr>wr_ans := ws, wire := wire c @ buf\<rparr>)
         else if k = 0 then (Ret 0, c\<lparr>wr_ans := ws\<rparr>)
         else (Fault, c\<lparr>wr_ans := ws, wire := wire c @ take k buf\<rparr>))"
proof -
  let ?n = "of_nat n :: size_t"
  have n: "unat ?n = n" "0 < ?n" "?n \<noteq> 0"
    using assms(2,3) by (simp_all add: unat_of_nat_small of_nat_pos_word less_imp_neq [symmetric])
  have n1: "0 < ?n + 1"
    using of_nat_pos_word [of "n + 1"] assms(3) by (simp add: add.commute)
  have bad: "http_Writen_loop buf ?n nl pos c' = (Fault, c')"
    if "0 < nl" "mem_load buf (sint pos) n = None" for nl pos c'
    using that n by (simp add: http_Writen_loop.simps [of buf ?n nl])
  have ld: "mem_load buf 0 n = Some buf"
    using assms(1) by (simp add: mem_load_def)
  show ?thesis
  proof (cases a)
    case (WErr e)
    with assms n ld bad [of "?n + 1" "- 1"] n1 show ?thesis
      by (simp add: http_Writen_def http_Writen_loop.simps [of buf ?n ?n] sys_send_def Let_def
          mem_load_def)
  next
    case (WAccept k)
    consider "n \<le> k" | "k = 0" | "0 < k" "k < n" by linarith
    then show ?thesis
    proof cases
      case 1
      with assms n ld WAccept show ?thesis
        by (simp add: http_Writen_def http_Writen_loop.simps [of buf ?n ?n] sys_send_def Let_def
            http_Writen_loop.simps [of buf ?n 0] min_def)
    next
      case 2
      with assms n ld WAccept show ?thesis
        by (simp add: http_Writen_def http_Writen_loop.simps [of buf ?n ?n] sys_send_def Let_def)
    next
      case 3
      let ?k = "of_nat k :: size_t"
      have "?k \<noteq> 0" "0 < ?n - ?k" "sint ?k = int k"
        using 3 assms(3) of_nat_pos_word [of "n - k"] of_nat_pos_word [of k]
        by (auto simp: sint_of_nat_small)
      with assms n ld WAccept 3 bad [of "?n - ?k" ?k] show ?thesis
        by (simp add: http_Writen_def http_Writen_loop.simps [of buf ?n ?n] sys_send_def Let_def
            mem_load_def min_def)
    qed
  qed
qed

theorem http_Writen_outcome_witness:
  "http_Writen ''abcd'' 4 \<lparr>rd_ans = [], wr_ans = [WAccept 3, WAccept 1], wire = []\<rparr> =
   (Fault, \<lparr>rd_ans = [], wr_ans = [WAccept 1], wire = ''abc''\<rparr>)"
  using http_Writen_outcome [of "''abcd''" 4 "\<lparr>rd_ans = [], wr_ans = [WAccept 3, WAccept 1], wire = []\<rparr>"
      "WAccept 3" "[WAccept 1]"] by simp

section \<open>What http_Fgets_s does\<close>

interpretation fgets_s: line_reader
  "\<lambda>n k. http_Fgets_s_loop (of_nat (n - k)) k" "\<lambda>j k. of_nat k :: ssize_t"
proof
  fix n :: nat and ch and buf :: bytes and c :: conn
  assume "n < 2 ^ 63"
  then show "http_Fgets_s_loop (of_nat (n - n)) n ch buf c = (case mem_store buf (int n) [NUL] of
      None \<Rightarrow> (Fault, c) | Some buf' \<Rightarrow> (Ret (of_nat n, buf'), c))"
    by (simp add: http_Fgets_s_loop.simps [of 0] end_line_def)
next
  fix k n :: nat and ch and buf :: bytes and c c' :: conn
  assume "k < n" "n < 2 ^ 63" "Suc k < length buf" "sys_read (Suc 0) c = (Ret (Inr [newline]), c')"
  then show "http_Fgets_s_loop (of_nat (n - k)) k ch buf c =
      (Ret (of_nat (Suc k), buf[k := newline, Suc k := NUL]), c')"
    using of_nat_pos_word [of "n - k"]
    by (simp add: http_Fgets_s_loop.simps [of "of_nat (n - k)"] end_line_def unix_simps Let_def
        del: of_nat_diff)
next
  fix k n :: nat and ch and buf :: bytes and c c' :: conn
  assume "k < n" "n < 2 ^ 63" "length buf = Suc k" "sys_read (Suc 0) c = (Ret (Inr [newline]), c')"
  then show "http_Fgets_s_loop (of_nat (n - k)) k ch buf c = (Fault, c')"
    using of_nat_pos_word [of "n - k"] mem_store_nat [of "buf[k := newline]" "Suc k" "[NUL]"]
    by (simp add: http_Fgets_s_loop.simps [of "of_nat (n - k)"] end_line_def unix_simps Let_def
        add.commute del: of_nat_diff)
next
  fix k n :: nat and ch b and buf :: bytes and c c' :: conn
  assume "k < n" "n < 2 ^ 63" "k < length buf" "sys_read (Suc 0) c = (Ret (Inr [b]), c')" "b \<noteq> newline"
  moreover from \<open>k < n\<close> have "of_nat (n - k) - 1 = (of_nat (n - Suc k) :: size_t)"
    by simp
  ultimately show "http_Fgets_s_loop (of_nat (n - k)) k ch buf c =
      http_Fgets_s_loop (of_nat (n - Suc k)) (Suc k) b (buf[k := b]) c'"
    using of_nat_pos_word [of "n - k"]
    by (simp add: http_Fgets_s_loop.simps [of "of_nat (n - k)"] unix_simps Let_def del: of_nat_diff)
next
  fix k n :: nat and ch and buf :: bytes and c c' :: conn
  assume "k < n" "n < 2 ^ 63" "k < length buf" "sys_read (Suc 0) c = (Ret (Inr []), c')"
  then show "http_Fgets_s_loop (of_nat (n - k)) k ch buf c = (Ret (of_nat k, buf[k := NUL]), c')"
    using of_nat_pos_word [of "n - k"]
    by (simp add: http_Fgets_s_loop.simps [of "of_nat (n - k)"] end_line_def unix_simps Let_def
        del: of_nat_diff)
qed

text \<open>A line that ends within the size: the line, its newline and a NUL.\<close>

theorem http_Fgets_s_line:
  assumes "rd_ans c = ds @ es" "rd_clean ds" "rd_bytes ds = line @ newline # rest"
    and "newline \<notin> set line" "length line < n" "n < 2 ^ 63" "length line + 2 \<le> length buf"
  shows "http_Fgets_s ch0 buf (of_nat n) c =
    (Ret (of_nat (length line + 1), line @ newline # NUL # drop (length line + 2) buf),
     c\<lparr>rd_ans := rd_skip (length line + 1) ds @ es\<rparr>)"
  using fgets_s.loop_line [OF assms, of ch0] by (simp add: http_Fgets_s_def)

theorem http_Fgets_s_line_witness:
  "http_Fgets_s NUL ''.......'' 6
     \<lparr>rd_ans = [RData ''ab'', RData (''c'' @ newline # ''d''), REof], wr_ans = [], wire = []\<rparr> =
   (Ret (4, ''abc'' @ newline # NUL # ''..''), \<lparr>rd_ans = [RData ''d'', REof], wr_ans = [], wire = []\<rparr>)"
proof -
  have k: "rd_skip 4 [RData ''ab'', RData (''c'' @ newline # ''d'')] = [RData ''d'']" by code_simp
  from http_Fgets_s_line [of "\<lparr>rd_ans = [RData ''ab'', RData (''c'' @ newline # ''d''), REof],
        wr_ans = [], wire = []\<rparr>" "[RData ''ab'', RData (''c'' @ newline # ''d'')]" "[REof]" "''abc''"
      "''d''" 6 "''.......''" NUL]
  show ?thesis by (simp add: rd_clean_def newline_def k)
qed

text \<open>As many characters as the size, and no newline among them: the NUL goes one past a buffer
  of that size.\<close>

theorem http_Fgets_s_overflow:
  assumes "rd_ans c = ds @ es" "rd_clean ds" "n \<le> length (rd_bytes ds)"
    and "newline \<notin> set (take n (rd_bytes ds))" "n < 2 ^ 63" "length buf = n"
  shows "http_Fgets_s ch0 buf (of_nat n) c = (Fault, c\<lparr>rd_ans := rd_skip n ds @ es\<rparr>)"
  using fgets_s.loop_full [OF assms, of ch0] by (simp add: http_Fgets_s_def)

section \<open>http_Fgets against fgets\<close>

text \<open>What \<open>fgets\<close> takes from a stream: at most \<open>k\<close> characters, through the first newline.\<close>

fun line_upto :: "nat \<Rightarrow> bytes \<Rightarrow> bytes" where
  "line_upto 0 fs = []"
| "line_upto (Suc k) [] = []"
| "line_upto (Suc k) (b # fs) = (if b = newline then [b] else b # line_upto k fs)"

lemma length_line_upto [unix_bounds]: "length (line_upto k fs) \<le> k"
  by (induction k fs rule: line_upto.induct) auto

lemma char_val_inverse [simp]: "char_of (char_val b) = b"
  by (simp add: char_val_def char_of_eq_iff take_bit_eq_mod)

lemma char_val_EOF: "char_val b = EOF_c \<longleftrightarrow> b = CHR 0xFF"
proof -
  have "(of_char b :: int) = 255 \<longleftrightarrow> (of_char b :: int) = of_char (CHR 0xFF)"
    by simp
  also have "\<dots> \<longleftrightarrow> b = CHR 0xFF" by (rule of_char_eq_iff)
  finally have "(of_char b :: int) = 255 \<longleftrightarrow> b = CHR 0xFF" .
  moreover have "\<not> (of_char b :: int) < 0"
    by (metis of_char_mod_256 mod_int_pos_iff zless_iff_Suc_zadd not_less pos_mod_sign zero_less_numeral)
  ultimately show ?thesis by (auto simp: char_val_def EOF_c_def)
qed

lemma Fgets_end_fits:
  "pc < length buf \<Longrightarrow>
   Fgets_end ch pc buf fs = (Ret (\<not> (ch = EOF_c \<and> pc = 0), buf[pc := NUL]), fs)"
  by (simp add: Fgets_end_def mem_store_char)

lemma Fgets_stored:
  "pc + length xs < length buf \<Longrightarrow> (take pc buf @ xs @ drop (pc + length xs) buf)[pc + length xs := NUL] =
    take pc buf @ xs @ NUL # drop (Suc (pc + length xs)) buf"
  by (simp add: upd_conv_take_nth_drop)

lemma two_minus: "2 + x - 1 = (1 + x :: size_t)"
  by simp

lemma http_Fgets_loop_line:
  assumes "CHR 0xFF \<notin> set fs" "pc + k < length buf" "k < 2 ^ 63"
  shows "http_Fgets_loop (of_nat (Suc k)) pc ch buf fs =
    (Ret (\<not> (pc = 0 \<and> line_upto k fs = [] \<and> (0 < k \<or> ch = EOF_c)),
      take pc buf @ line_upto k fs @ NUL # drop (Suc (pc + length (line_upto k fs))) buf),
     drop (length (line_upto k fs)) fs)"
  using assms
proof (induction k fs arbitrary: pc ch buf rule: line_upto.induct)
  case (1 fs)
  with Fgets_stored [of pc "[]" buf] show ?case
    by (auto simp add: http_Fgets_loop.simps [of "1"] Fgets_end_fits)
next
  case (2 k)
  with Fgets_stored [of pc "[]" buf] of_nat_pos_word [of "Suc k"] show ?case
    by (simp add: http_Fgets_loop.simps [of "2 + of_nat k"] two_minus Fgets_end_fits)
next
  case (3 k b fs)
  have n: "0 < (1 + of_nat k :: size_t)"
    using of_nat_pos_word [of "Suc k"] 3(4) by simp
  have b: "char_val b \<noteq> EOF_c" using 3(2) by (auto simp: char_val_EOF)
  let ?buf = "buf[pc := b]"
  have tk: "take (Suc pc) ?buf = take pc buf @ [b]"
    using 3(3) by (simp add: take_Suc_conv_app_nth)
  show ?case
  proof (cases "b = newline")
    case True
    have "?buf[Suc pc := NUL, Suc pc := NUL] = take pc buf @ [b] @ NUL # drop (Suc (Suc pc)) buf"
      using 3(3) Fgets_stored [of pc "[b]" buf] by (simp add: upd_conv_take_nth_drop)
    with True 3(3) n b show ?thesis
      by (simp add: http_Fgets_loop.simps [of "2 + of_nat k"] two_minus unix_simps Fgets_end_fits
          list_update_append)
  next
    case False
    have "http_Fgets_loop (of_nat (Suc (Suc k))) pc ch buf (b # fs) =
        http_Fgets_loop (of_nat (Suc k)) (Suc pc) (char_val b) ?buf fs"
      using False 3(3) n b
      by (simp add: http_Fgets_loop.simps [of "2 + of_nat k"] two_minus mem_store_char)
    with False "3.IH" [OF False, of "Suc pc" ?buf "char_val b"] 3(2-4) tk show ?thesis
      by simp
  qed
qed

text \<open>The C library's \<open>fgets\<close> for a size of at least two: whether the pointer is not \<open>NULL\<close>, the array and
  the rest of the stream. At the end of the file nothing is stored.\<close>

definition fgets :: "nat \<Rightarrow> bytes \<Rightarrow> bytes \<Rightarrow> bool \<times> bytes \<times> bytes" where
  "fgets n buf fs = (let l = line_upto (n - 1) fs in
     if fs = [] then (False, buf, [])
     else (True, l @ NUL # drop (Suc (length l)) buf, drop (length l) fs))"

text \<open>
  C34: For a size of at least two and on a stream without the byte 0xFF http_Fgets returns
  what the C library's fgets returns, stores the same characters and takes the same from the
  stream, with one difference: at the end of the file, where fgets leaves the array alone, it
  stores a NUL at its start.
\<close>

theorem http_Fgets_against_fgets:
  assumes "CHR 0xFF \<notin> set fs" "2 \<le> n" "n \<le> length buf" "n < 2 ^ 63"
  shows "http_Fgets ch0 buf (of_nat n) fs = (case fgets n buf fs of
    (True, buf', fs') \<Rightarrow> (Ret (True, buf'), fs')
  | (False, buf', fs') \<Rightarrow> (Ret (False, buf'[0 := NUL]), fs'))"
proof -
  obtain k where k: "n = Suc (Suc k)"
    using assms(2) by (metis add_2_eq_Suc le_Suc_ex)
  obtain b bs where "buf = b # bs" using assms(2,3) by (cases buf) auto
  with k assms http_Fgets_loop_line [of fs 0 "Suc k" buf ch0] show ?thesis
    by (cases fs) (simp_all add: http_Fgets_def fgets_def Let_def)
qed

theorem http_Fgets_against_fgets_witness:
  "http_Fgets 0 ''.....'' 4 ''abcdef'' = (Ret (True, ''abc'' @ NUL # ''.''), ''def'')
    \<and> http_Fgets 0 ''.....'' 4 [] = (Ret (False, NUL # ''....''), [])"
proof -
  have l: "line_upto 3 ''abcdef'' = ''abc''" by code_simp
  from http_Fgets_against_fgets [of "''abcdef''" 4 "''.....''" 0] http_Fgets_against_fgets [of "[]" 4 "''.....''" 0]
  show ?thesis by (simp add: fgets_def Let_def l)
qed

text \<open>A byte \<open>0xFF\<close> at the start of a line is taken for the end of the file, and is lost.\<close>

theorem http_Fgets_stops_at_0xFF:
  assumes "2 \<le> n" "n < 2 ^ 63" "buf \<noteq> []"
  shows "http_Fgets ch0 buf (of_nat n) (CHR 0xFF # fs) = (Ret (False, NUL # tl buf), fs)"
proof -
  have "0 < (of_nat (n - 1) :: size_t)" using assms by (intro of_nat_pos_word) simp_all
  with assms show ?thesis
    by (cases buf) (simp_all add: http_Fgets_def http_Fgets_loop.simps [of "of_nat n"]
        char_val_EOF [THEN iffD2] Fgets_end_fits of_nat_diff)
qed

end
