(* ===== verification/Config.thy ===== *)
theory Config
  imports HttpIo SockNet
begin

text \<open>
  The configuration of the server and the error page: \<open>file_param\<close>, \<open>Init_sockpair\<close>,
  \<open>get_file_length\<close> (utils/utils.h), \<open>Open_listen\<close> (inc/http_epoll.h) and \<open>http_module_error\<close>
  (http_module/http_module.h). Files are their contents; a file that cannot be opened is \<open>None\<close>.
\<close>

section \<open>String functions of the C library\<close>

definition strspn :: "bytes \<Rightarrow> bytes \<Rightarrow> nat" where
  "strspn s accept = length (takeWhile (\<lambda>x. x \<in> set accept) s)"

text \<open>\<open>strtok\<close> answers the token and the string it remembers for the next call.\<close>

definition strtok :: "bytes \<Rightarrow> bytes \<Rightarrow> (bytes \<times> bytes) option" where
  "strtok s delim =
     (let t = dropWhile (\<lambda>x. x \<in> set delim) s
      in if t = [] then None
         else Some (takeWhile (\<lambda>x. x \<notin> set delim) t, drop 1 (dropWhile (\<lambda>x. x \<notin> set delim) t)))"

section \<open>file_param\<close>

definition BUFSIZE :: nat where
  "BUFSIZE = 1024"

text \<open>One line: the address and the port; \<open>strcpy\<close> from a \<open>NULL\<close> token is a fault. The first
  \<open>pos\<close> is only used to find the second one.\<close>

definition parse_param :: "bytes \<Rightarrow> (bytes \<times> bytes) cres" where
  "parse_param info =
     (let pos = strspn info '' '';
          pos = strspn (drop pos info) ''@''
      in case strtok (drop pos info) '':'' of
           None \<Rightarrow> Fault
         | Some (ip, saved) \<Rightarrow>
             (case strtok saved ''@'' of
                None \<Rightarrow> Fault
              | Some (port, saved') \<Rightarrow> Ret (ip, port)))"

lemma line_upto_nonempty: "0 < k \<Longrightarrow> fs \<noteq> [] \<Longrightarrow> 0 < length (line_upto k fs)"
  by (cases k; cases fs) auto

text \<open>\<open>while (fgets(info, BUFSIZE, fp) != NULL)\<close>: every line overwrites the result of the one before.\<close>

function param_loop :: "bytes \<Rightarrow> bytes \<times> bytes \<Rightarrow> (bytes \<times> bytes) cres" where
  "param_loop fs st =
     (if fs = [] then Ret st
      else (let info = line_upto (BUFSIZE - 1) fs
            in case parse_param (takeWhile (\<lambda>x. x \<noteq> NUL) info) of
                 Ret st' \<Rightarrow> param_loop (drop (length info) fs) st'
               | Exit \<Rightarrow> Exit
               | Wait \<Rightarrow> Wait
               | Fault \<Rightarrow> Fault))"
  by pat_completeness auto
termination
  by (relation "measure (\<lambda>(fs, st). length fs)") (auto simp: BUFSIZE_def intro!: diff_less dest: line_upto_nonempty [of 1023, simplified])

declare param_loop.simps [simp del]

definition file_param :: "bytes option \<Rightarrow> bytes \<times> bytes \<Rightarrow> (bytes \<times> bytes) cres" where
  "file_param conf st = (case conf of None \<Rightarrow> Exit | Some fs \<Rightarrow> param_loop fs st)"

definition Init_sockpair :: "bool \<Rightarrow> bool \<Rightarrow> bytes option \<Rightarrow> (bytes \<times> bytes) cres" where
  "Init_sockpair calloc1 calloc2 conf =
     (if calloc1 \<and> calloc2 then file_param conf ([], []) else Exit)"

text \<open>\<open>addrs ip port\<close> is what \<open>getaddrinfo\<close> and the calls on its addresses answer.\<close>

definition Open_listen ::
  "(bytes \<times> bytes) cres \<Rightarrow> int \<Rightarrow> (bytes \<Rightarrow> bytes \<Rightarrow> (int \<times> int \<times> int) list) \<Rightarrow> int \<Rightarrow> (int list, int) prog" where
  "Open_listen sockpair gai addrs lsn fds = (case sockpair of
      Ret (ip, port) \<Rightarrow> open_listenfd gai (addrs ip port) lsn fds
    | Exit \<Rightarrow> (Exit, fds)
    | Wait \<Rightarrow> (Wait, fds)
    | Fault \<Rightarrow> (Fault, fds))"

section \<open>Fgets and get_current_time\<close>

text \<open>\<open>Fgets\<close> stops the process when there is no more line, so it never answers \<open>NULL\<close>. The result is the
  line and what is left of the file.\<close>

definition Fgets :: "nat \<Rightarrow> bytes \<Rightarrow> (bytes \<times> bytes) cres" where
  "Fgets len fs = (if fs = [] then unix_error
     else (let line = line_upto (len - 1) fs in Ret (line, drop (length line) fs)))"

record tm =
  tm_year :: nat
  tm_mon :: nat
  tm_mday :: nat
  tm_hour :: nat
  tm_min :: nat
  tm_sec :: nat

definition digit :: "nat \<Rightarrow> char" where
  "digit d = char_of (48 + d)"

definition two_digits :: "nat \<Rightarrow> bytes" where
  "two_digits n = [digit (n div 10), digit (n mod 10)]"

fun decimal :: "nat \<Rightarrow> bytes" where
  "decimal n = (if n < 10 then [digit n] else decimal (n div 10) @ [digit (n mod 10)])"

declare decimal.simps [simp del]

text \<open>What \<open>strftime\<close> makes of the format, years and months counted as \<open>struct tm\<close> does.\<close>

definition time_text :: "tm \<Rightarrow> bytes" where
  "time_text t = decimal (1900 + tm_year t) @ ''-'' @ two_digits (tm_mon t + 1) @ ''-'' @ two_digits (tm_mday t)
     @ '' '' @ two_digits (tm_hour t) @ '':'' @ two_digits (tm_min t) @ '':'' @ two_digits (tm_sec t)"

text \<open>The result, and what is in \<open>buf\<close> then; \<open>None\<close>: the contents are undefined.\<close>

definition get_current_time :: "nat \<Rightarrow> tm \<Rightarrow> int \<times> bytes option" where
  "get_current_time len timenow =
     (let txt = time_text timenow
      in if length txt < len then (int (length txt), Some (txt @ [NUL])) else (0, None))"

lemma length_decimal:
  assumes "1000 \<le> n" "n < 10000"
  shows "length (decimal n) = 4"
proof -
  let ?a = "n div 10"
  have "\<not> n < 10" "\<not> ?a < 10" "\<not> ?a div 10 < 10" "?a div 10 div 10 < 10"
    using assms div_le_mono [OF assms(1), of 10] div_le_mono [OF assms(1), of 100] less_mult_imp_div_less [of n 10 1000]
    by (simp_all flip: div_mult2_eq)
  then show ?thesis
    by (simp only: decimal.simps [of n] decimal.simps [of ?a] decimal.simps [of "?a div 10"]
        decimal.simps [of "?a div 10 div 10"] if_True if_False length_append list.size)
qed

text \<open>The array of \<open>http_module_error\<close> (50 characters) holds every date of the years 1900 to 9999; an array
  needs 20.\<close>

theorem get_current_time_fits:
  assumes "tm_year t < 8100"
  shows "get_current_time len t = (if 20 \<le> len then (19, Some (time_text t @ [NUL])) else (0, None))"
proof -
  have "length (time_text t) = 19" using assms by (simp add: time_text_def two_digits_def length_decimal)
  then show ?thesis by (simp add: get_current_time_def Let_def)
qed

theorem get_current_time_fits_witness:
  "get_current_time 50 \<lparr>tm_year = 118, tm_mon = 0, tm_mday = 9, tm_hour = 8, tm_min = 30, tm_sec = 5\<rparr>
    = (19, Some (''2018-01-09 08:30:05'' @ [NUL]))"
proof -
  have "time_text \<lparr>tm_year = 118, tm_mon = 0, tm_mday = 9, tm_hour = 8, tm_min = 30, tm_sec = 5\<rparr> = ''2018-01-09 08:30:05''"
    by code_simp
  with get_current_time_fits [of "\<lparr>tm_year = 118, tm_mon = 0, tm_mday = 9, tm_hour = 8, tm_min = 30, tm_sec = 5\<rparr>" 50]
  show ?thesis by simp
qed

section \<open>get_file_length and http_module_error\<close>

text \<open>Every path runs into the labels at the end. The answers are those of \<open>open\<close> and \<open>fstat\<close> (the
  size); the second component is \<open>*len\<close>.\<close>

definition get_file_length :: "int \<Rightarrow> int option \<Rightarrow> (int, unit) prog" where
  "get_file_length fd st len =
     (if fd < 0 then (unix_error, len)
      else (case st of
          None \<Rightarrow> (unix_error, len)
        | Some st_size \<Rightarrow> (unix_error, st_size)))"

definition snprintf :: "bytes \<Rightarrow> nat \<Rightarrow> bytes \<Rightarrow> bytes" where
  "snprintf old n txt = (if n = 0 then old else take (n - 1) txt)"

text \<open>Whole blocks of the page are read; each is written up to its first NUL.\<close>

function page_loop :: "bytes \<Rightarrow> (bytes, unit) prog" where
  "page_loop fs out =
     (if length fs < BUFSIZE then (Ret (), out)
      else (case c_string (take BUFSIZE fs) of
          None \<Rightarrow> (Fault, out)
        | Some txt \<Rightarrow> page_loop (drop BUFSIZE fs) (out @ txt)))"
  by pat_completeness auto
termination
  by (relation "measure (\<lambda>(fs, out). length fs)") (auto simp: BUFSIZE_def)

declare page_loop.simps [simp del]

text \<open>\<open>date\<close>, \<open>cont_len\<close> and \<open>Connection\<close> are zeroed arrays whose \<open>strlen\<close> is passed as their size. The
  state is what has been written to \<open>fp\<close>.\<close>

definition http_module_error ::
  "bytes \<Rightarrow> int \<Rightarrow> int option \<Rightarrow> bytes option \<Rightarrow> (bytes, unit) prog" where
  "http_module_error content_length fd st page =
     (let date = snprintf [] (length ([] :: bytes)) ''Date:'';
          cont_len = snprintf [] (length ([] :: bytes)) content_length;
          Connection = snprintf [] (length ([] :: bytes)) ''Connection: close''
      in sseq (\<lambda>out. (fst (get_file_length fd st 0), out))
           (sseq (smod (\<lambda>out. out @ '' HTTP/1.1 400 bad Request '' @ [CHR 0x0D, newline]))
             (sseq (smod (\<lambda>out. out @ ''openresty'' @ [CHR 0x0D, newline]))
               (sseq (smod (\<lambda>out. out @ date))
                 (sseq (smod (\<lambda>out. out @ ''Content-Type:txt/html'' @ [CHR 0x0D, newline]))
                   (sseq (smod (\<lambda>out. out @ cont_len))
                     (sseq (smod (\<lambda>out. out @ Connection))
                       (case page of None \<Rightarrow> sexit | Some fs \<Rightarrow> page_loop fs))))))))"

theorem http_module_error_writes_nothing:
  "http_module_error content_length fd st page out = (Exit, out)"
  by (simp add: http_module_error_def sseq_def sbind_def get_file_length_def unix_error_def
      split: option.split)

section \<open>What the configuration file means\<close>

definition config_text :: "bytes \<Rightarrow> bytes \<Rightarrow> bytes" where
  "config_text ip port = ''@'' @ ip @ '':'' @ port @ ''@''"

definition plain :: "bytes \<Rightarrow> bool" where
  "plain w \<longleftrightarrow> w \<noteq> [] \<and> set w \<inter> {CHR '':'', CHR ''@'', CHR '' '', NUL, newline} = {}"

lemma line_upto_all: "newline \<notin> set fs \<Longrightarrow> length fs \<le> k \<Longrightarrow> line_upto k fs = fs"
  by (induction k fs rule: line_upto.induct) auto

lemma takeWhile_stop: "\<forall>x \<in> set w. P x \<Longrightarrow> \<not> P y \<Longrightarrow> takeWhile P (w @ y # zs) = w"
  by (simp add: takeWhile_append)

lemma dropWhile_stop: "\<forall>x \<in> set w. P x \<Longrightarrow> \<not> P y \<Longrightarrow> dropWhile P (w @ y # zs) = y # zs"
  by (simp add: dropWhile_append)

lemma strtok_word:
  assumes "\<forall>x \<in> set w. x \<noteq> d" "w \<noteq> []"
  shows "strtok (w @ d # rest) [d] = Some (w, rest)"
proof -
  obtain x w' where w: "w = x # w'" using assms(2) by (cases w) auto
  have "dropWhile (\<lambda>x. x \<in> set [d]) (w @ d # rest) = w @ d # rest"
    using assms(1) w by simp
  with assms show ?thesis
    by (simp add: strtok_def takeWhile_stop dropWhile_stop)
qed

lemma param_loop_one:
  assumes "newline \<notin> set fs" "NUL \<notin> set fs" "fs \<noteq> []" "length fs < BUFSIZE"
  shows "param_loop fs st = parse_param fs"
proof -
  have l: "line_upto (BUFSIZE - 1) fs = fs" using assms by (intro line_upto_all) auto
  have t: "takeWhile (\<lambda>x. x \<noteq> NUL) fs = fs" using assms(2) by (auto simp: takeWhile_eq_all_conv)
  have e: "param_loop [] st' = Ret st'" for st' by (subst param_loop.simps) simp
  have "param_loop fs st = (case parse_param fs of Ret st' \<Rightarrow> param_loop [] st'
      | Exit \<Rightarrow> Exit | Wait \<Rightarrow> Wait | Fault \<Rightarrow> Fault)"
    using assms(3) by (subst param_loop.simps) (simp only: l t Let_def if_False drop_all order.refl)
  then show ?thesis by (simp add: e split: cres.split)
qed

text \<open>Reading back a file that was written as \<open>@address:port@\<close>.\<close>

text \<open>
  C38: A configuration file written as @address:port@ is read back as that address and port.
\<close>

theorem file_param_roundtrip:
  assumes "plain ip" "plain port" "length (config_text ip port) < BUFSIZE"
  shows "file_param (Some (config_text ip port)) st = Ret (ip, port)"
proof -
  have "newline \<notin> set (config_text ip port)" "NUL \<notin> set (config_text ip port)" "config_text ip port \<noteq> []"
    using assms(1,2) by (auto simp: config_text_def plain_def newline_def NUL_def)
  note one = param_loop_one [OF this assms(3), of st]
  obtain x ip' where ip: "ip = x # ip'" "x \<noteq> CHR ''@''" using assms(1) by (cases ip) (auto simp: plain_def)
  have s1: "strspn (config_text ip port) '' '' = 0" by (simp add: strspn_def config_text_def)
  have s2: "strspn (config_text ip port) ''@'' = 1"
    using ip by (simp add: strspn_def config_text_def)
  have t1: "strtok (ip @ CHR '':'' # port @ ''@'') '':'' = Some (ip, port @ ''@'')"
    using assms(1) by (intro strtok_word) (auto simp: plain_def)
  have t2: "strtok (port @ ''@'') ''@'' = Some (port, [])"
    using assms(2) by (intro strtok_word) (auto simp: plain_def)
  have "drop 1 (config_text ip port) = ip @ CHR '':'' # port @ ''@''"
    by (simp add: config_text_def)
  with one show ?thesis
    by (simp add: file_param_def parse_param_def Let_def s1 s2 t1 t2)
qed

theorem file_param_roundtrip_witness:
  "file_param (Some ''@127.0.0.1:8080@'') ([], []) = Ret (''127.0.0.1'', ''8080'')"
  using file_param_roundtrip [of "''127.0.0.1''" "''8080''" "([], [])"]
  by (simp add: plain_def config_text_def BUFSIZE_def NUL_def newline_def)

text \<open>Spaces in front are counted and then forgotten: the address keeps all but one of them, and the
  \<open>@\<close>.\<close>

theorem file_param_leading_spaces:
  assumes "plain ip" "plain port" "length (config_text ip port) + k + 1 < BUFSIZE"
  shows "file_param (Some (replicate (Suc k) CHR '' '' @ config_text ip port)) st =
    Ret (replicate k CHR '' '' @ ''@'' @ ip, port)"
proof -
  let ?f = "replicate (Suc k) CHR '' '' @ config_text ip port"
  have "newline \<notin> set ?f" "NUL \<notin> set ?f" "?f \<noteq> []" "length ?f < BUFSIZE"
    using assms by (auto simp: config_text_def plain_def newline_def NUL_def)
  note one = param_loop_one [OF this, of st]
  obtain x ip' where ip: "ip = x # ip'" "x \<noteq> CHR ''@''" using assms(1) by (cases ip) (auto simp: plain_def)
  have s1: "strspn ?f '' '' = Suc k"
    by (simp add: strspn_def config_text_def takeWhile_append)
  have s2: "strspn (config_text ip port) ''@'' = 1"
    using ip by (simp add: strspn_def config_text_def)
  have t1: "strtok ((replicate k CHR '' '' @ ''@'' @ ip) @ CHR '':'' # port @ ''@'') '':'' =
      Some (replicate k CHR '' '' @ ''@'' @ ip, port @ ''@'')"
    using assms(1) by (intro strtok_word) (auto simp: plain_def)
  have t2: "strtok (port @ ''@'') ''@'' = Some (port, [])"
    using assms(2) by (intro strtok_word) (auto simp: plain_def)
  have "drop (Suc k) ?f = config_text ip port"
    "drop 1 ?f = (replicate k CHR '' '' @ ''@'' @ ip) @ CHR '':'' # port @ ''@''"
    by (simp_all add: config_text_def)
  then have "parse_param ?f = Ret (replicate k CHR '' '' @ ''@'' @ ip, port)"
    unfolding parse_param_def Let_def s1
    by (simp only: s2 t1 t2 option.case prod.case)
  with one show ?thesis by (simp only: file_param_def option.case)
qed

theorem file_param_leading_spaces_witness:
  "file_param (Some ''  @127.0.0.1:8080@'') ([], []) = Ret ('' @127.0.0.1'', ''8080'')"
  using file_param_leading_spaces [of "''127.0.0.1''" "''8080''" 1 "([], [])"]
  by (simp add: plain_def config_text_def BUFSIZE_def NUL_def newline_def)

text \<open>A line without a colon, an empty one for instance, makes \<open>strcpy\<close> read from \<open>NULL\<close>.\<close>

theorem file_param_no_colon_faults:
  assumes "CHR '':'' \<notin> set line" "NUL \<notin> set line" "newline \<notin> set line" "length line + 1 < BUFSIZE"
  shows "file_param (Some (line @ newline # rest)) st = Fault"
proof -
  have l: "line_upto k (line @ newline # rest) = line @ [newline]" if "length line < k" for k
    using that assms(3)
  proof (induction line arbitrary: k)
    case Nil
    then show ?case by (cases k) auto
  next
    case (Cons x line)
    then show ?case by (cases k) auto
  qed
  have nul: "takeWhile (\<lambda>x. x \<noteq> NUL) (line @ [newline]) = line @ [newline]"
    using assms(2) by (auto simp: takeWhile_eq_all_conv newline_def NUL_def)
  have nc: "CHR '':'' \<notin> set (drop n (line @ [newline]))" for n
    using assms(1) by (auto simp: newline_def dest: in_set_dropD)
  define t where "t = drop (strspn (drop (strspn (line @ [newline]) '' '') (line @ [newline])) ''@'') (line @ [newline])"
  have "CHR '':'' \<notin> set t" using nc by (simp add: t_def)
  then have "dropWhile (\<lambda>x. x \<in> set '':'') t = t" "dropWhile (\<lambda>x. x \<notin> set '':'') t = []"
    by (cases t; auto simp: dropWhile_eq_Nil_conv)+
  then have "strtok t '':'' = None \<or> (\<exists>ip. strtok t '':'' = Some (ip, []))"
    unfolding strtok_def by (simp del: dropWhile_eq_Nil_conv)
  then have "parse_param (line @ [newline]) = Fault"
    unfolding parse_param_def Let_def t_def [symmetric] by (auto simp: strtok_def [of "[]"])
  moreover have "line_upto (BUFSIZE - 1) (line @ newline # rest) = line @ [newline]"
    using assms(4) by (intro l) simp
  moreover have "line @ newline # rest \<noteq> []" by simp
  ultimately show ?thesis
    by (simp only: file_param_def option.case param_loop.simps [of "line @ newline # rest"] nul Let_def
        if_False cres.case)
qed

end
