(* ===== verification/Common.thy ===== *)
theory Common
  imports SockNet
begin

text \<open>
  The other functions of inc/common.h: \<open>dup2_stdin\<close>, \<open>dup2_stdout\<close>, \<open>skip\<close>, and the checked wrappers
  around the user database, memory mappings, shared memory and resource limits; with \<open>Fdopen\<close> and
  \<open>Fgets\<close> of utils/utils.h. A descriptor table maps descriptors to open files.
\<close>

section \<open>Checked calls\<close>

text \<open>Pointers: \<open>None\<close> is \<open>NULL\<close> (\<open>MAP_FAILED\<close> for \<open>Mmap\<close>). \<open>err_exit\<close> and \<open>err_dump\<close> call \<open>exit\<close>.\<close>

definition Getpwuid :: "'p option \<Rightarrow> 'p option cres" where
  "Getpwuid pw_st = (if pw_st = None then unix_error else Ret pw_st)"

definition Getpwnam :: "'p option \<Rightarrow> 'p option cres" where
  "Getpwnam pw_st = (if pw_st = None then unix_error else Ret pw_st)"

definition Getpwent :: "'p option \<Rightarrow> 'p option cres" where
  "Getpwent pw_st = (if pw_st = None then unix_error else Ret pw_st)"

definition Getgrent :: "'p option \<Rightarrow> 'p option cres" where
  "Getgrent pw_st = (if pw_st = None then unix_error else Ret pw_st)"

definition Mmap :: "'p option \<Rightarrow> 'p option cres" where
  "Mmap pval = (if pval = None then unix_error else Ret pval)"

definition Fdopen :: "'p option \<Rightarrow> 'p option cres" where
  "Fdopen fp = (if fp = None then unix_error else Ret fp)"

definition Ser_accept :: "int \<Rightarrow> int cres" where
  "Ser_accept rval = (if rval < 0 then unix_error else Ret rval)"

definition Munmap :: "int \<Rightarrow> int cres" where
  "Munmap ret = (if ret \<noteq> 0 then unix_error else Ret ret)"

definition Msync :: "int \<Rightarrow> int cres" where
  "Msync ret = (if ret \<noteq> 0 then unix_error else Ret ret)"

definition Mprotect :: "int \<Rightarrow> int cres" where
  "Mprotect ret = (if ret \<noteq> 0 then unix_error else Ret ret)"

definition Shm_open :: "int \<Rightarrow> int cres" where
  "Shm_open rval = (if rval < 0 then unix_error else Ret rval)"

definition Shm_unlink :: "int \<Rightarrow> int cres" where
  "Shm_unlink rval = (if rval < 0 then unix_error else Ret rval)"

definition Ftruncate :: "int \<Rightarrow> int cres" where
  "Ftruncate rval = (if rval < 0 then unix_error else Ret rval)"

definition Setsid :: "int \<Rightarrow> int cres" where
  "Setsid rval = (if rval = - 1 then unix_error else Ret rval)"

definition Getrlimit :: "int \<Rightarrow> int cres" where
  "Getrlimit rval = (if rval = - 1 then unix_error else Ret rval)"

definition Setrlimit :: "int \<Rightarrow> int cres" where
  "Setrlimit rval = (if rval = - 1 then unix_error else Ret rval)"

text \<open>inc/common.h has versions of its own of some calls that inc/sock.h and utils/utils.h also define;
  \<open>Bind\<close> looks for \<open>-1\<close> there.\<close>

definition err_exit :: "'a cres" where
  "err_exit = Exit"

definition err_dump :: "'a cres" where
  "err_dump = Exit"

definition common_Socket :: "int \<Rightarrow> int cres" where
  "common_Socket ret = (if ret < 0 then err_dump else Ret ret)"

definition common_Connect :: "int \<Rightarrow> int cres" where
  "common_Connect ret = (if ret < 0 then err_dump else Ret ret)"

definition common_Bind :: "int \<Rightarrow> int cres" where
  "common_Bind rval = (if rval = - 1 then err_dump else Ret rval)"

definition common_Listen :: "int \<Rightarrow> int cres" where
  "common_Listen rval = (if rval < 0 then err_dump else Ret rval)"

definition common_Accept :: "int \<Rightarrow> int cres" where
  "common_Accept rval = (if rval < 0 then err_dump else Ret rval)"

definition common_Malloc :: "'p option \<Rightarrow> 'p option cres" where
  "common_Malloc prval = (if prval = None then err_dump else Ret prval)"

definition utils_Pipe :: "int \<Rightarrow> int cres" where
  "utils_Pipe rval = (if rval < 0 then unix_error else Ret rval)"

definition utils_Fork :: "int \<Rightarrow> int cres" where
  "utils_Fork pid = (if pid < 0 then unix_error else Ret pid)"

definition rio_Fork :: "int \<Rightarrow> int cres" where
  "rio_Fork ret = (if ret < 0 then unix_error else Ret ret)"

text \<open>A program may include either header: on the answers a system call can give, a descriptor, a process
  id, 0 or \<open>-1\<close>, the versions agree.\<close>

theorem both_headers_agree:
  assumes "- 1 \<le> r"
  shows "common_Socket r = Socket r \<and> common_Connect r = Connect r \<and> common_Bind r = Bind r
    \<and> common_Listen r = Listen r \<and> common_Accept r = Accept r \<and> common_Malloc p = Malloc p
    \<and> utils_Pipe r = Pipe r \<and> utils_Fork r = Fork r \<and> rio_Fork r = Fork r"
  using assms
  by (simp add: common_Socket_def common_Connect_def common_Bind_def common_Listen_def common_Accept_def
      common_Malloc_def utils_Pipe_def utils_Fork_def rio_Fork_def wrapper_defs err_dump_def)

theorem both_headers_agree_witness: "common_Bind (- 1) = Bind (- 1) \<and> common_Bind 0 = Bind 0"
  using both_headers_agree [of "- 1" "None :: nat option"] both_headers_agree [of 0 "None :: nat option"] by simp

lemmas common_defs = unix_error_def Getpwuid_def Getpwnam_def Getpwent_def Getgrent_def Mmap_def
  Fdopen_def Ser_accept_def Munmap_def Msync_def Mprotect_def Shm_open_def Shm_unlink_def
  Ftruncate_def Setsid_def Getrlimit_def Setrlimit_def

interpretation Getpwuid: checked_call Getpwuid "\<lambda>p. p = None"
  by unfold_locales (simp_all add: common_defs)

interpretation Mmap: checked_call Mmap "\<lambda>p. p = None"
  by unfold_locales (simp_all add: common_defs)

interpretation Munmap: checked_call Munmap "\<lambda>r. r \<noteq> 0"
  by unfold_locales (simp_all add: common_defs)

interpretation Shm_open: checked_call Shm_open "\<lambda>r. r < 0"
  by unfold_locales (simp_all add: common_defs)

interpretation Setsid: checked_call Setsid "\<lambda>r. r = - 1"
  by unfold_locales (simp_all add: common_defs)

section \<open>Redirecting the standard streams\<close>

type_synonym 'f fdtable = "int \<Rightarrow> 'f option"

definition dup2 :: "int \<Rightarrow> int \<Rightarrow> ('f fdtable, int) prog" where
  "dup2 oldfd newfd t =
     (if t oldfd = None then (Ret (- 1), t) else (Ret newfd, t(newfd := t oldfd)))"

definition close_fd :: "int \<Rightarrow> ('f fdtable, unit) prog" where
  "close_fd fd = smod (\<lambda>t. t(fd := None))"

definition STDIN_FILENO :: int where
  "STDIN_FILENO = 0"

definition STDOUT_FILENO :: int where
  "STDOUT_FILENO = 1"

definition dup2_stdin :: "int \<Rightarrow> ('f fdtable, int) prog" where
  "dup2_stdin fd =
     sseq (if fd \<noteq> STDIN_FILENO then
             sseq (sbind (dup2 fd STDIN_FILENO) (\<lambda>r. if r \<noteq> STDIN_FILENO then sexit else sret ()))
               (close_fd fd)
           else sret ())
       (sret 0)"

definition dup2_stdout :: "int \<Rightarrow> ('f fdtable, int) prog" where
  "dup2_stdout fd =
     sseq (if fd = STDOUT_FILENO then
             sseq (sbind (dup2 fd STDOUT_FILENO) (\<lambda>r. if r \<noteq> STDOUT_FILENO then sexit else sret ()))
               (close_fd fd)
           else sret ())
       (sret 0)"

lemmas fd_defs = dup2_def close_fd_def STDIN_FILENO_def STDOUT_FILENO_def sseq_def sbind_def
  smod_def sret_def sexit_def

theorem dup2_stdin_redirects:
  "dup2_stdin fd t =
    (if fd = 0 then (Ret 0, t)
     else if t fd = None then (Exit, t)
     else (Ret 0, t(0 := t fd, fd := None)))"
  by (simp add: dup2_stdin_def fd_defs)

text \<open>The comparison is the wrong way round: no descriptor is ever redirected, and the standard output
  itself is closed.\<close>

theorem dup2_stdout_never_redirects:
  "dup2_stdout fd t =
    (if fd \<noteq> 1 then (Ret 0, t)
     else if t 1 = None then (Exit, t)
     else (Ret 0, t(1 := None)))"
  by (auto simp: dup2_stdout_def fd_defs)

section \<open>skip\<close>

text \<open>\<open>strcpy(start, op) != 0\<close> is always true and copies. The array holding \<open>start\<close> is the state, the
  position in it the argument; \<open>op\<close> is another string.\<close>

function skip_loop :: "bytes \<Rightarrow> nat \<Rightarrow> (bytes, nat) prog" where
  "skip_loop op p m =
     (if length m \<le> p then (Fault, m)
      else if m ! p = NUL then (Ret p, m)
      else (case mem_store m (int p) (op @ [NUL]) of
          None \<Rightarrow> (Fault, m)
        | Some m' \<Rightarrow> skip_loop op (Suc p) m'))"
  by pat_completeness auto
termination
  by (relation "measure (\<lambda>(op, p, m). length m - p)") (auto dest: length_mem_store)

declare skip_loop.simps [simp del]

definition skip :: "bytes \<Rightarrow> nat \<Rightarrow> (bytes, nat) prog" where
  "skip op start =
     sbind (skip_loop op start) (\<lambda>p. sbind (sget (\<lambda>m. m ! p)) (\<lambda>c. sret (if c \<noteq> NUL then Suc p else p)))"

lemma skip_loop_faults:
  assumes "p < length m \<Longrightarrow> m ! p \<noteq> NUL" "op = a # b # cs" "b \<noteq> NUL"
  shows "fst (skip_loop op p m) = Fault"
  using assms
proof (induction op p m rule: skip_loop.induct)
  case (1 op p m)
  show ?case
  proof (cases "length m \<le> p")
    case True
    then show ?thesis by (simp add: skip_loop.simps [of op p m])
  next
    case False
    note nz = 1(2)
    show ?thesis
    proof (cases "mem_store m (int p) (op @ [NUL])")
      case None
      with False nz show ?thesis by (simp add: skip_loop.simps [of op p m])
    next
      case (Some m')
      have "m' ! Suc p = b" "Suc p < length m'"
        using Some False 1(3)
        by (auto simp: mem_store_nat nth_append split: if_splits)
      with 1(1) [OF False _ Some] nz False 1(3,4) have "fst (skip_loop op (Suc p) m') = Fault"
        by auto
      with False nz Some show ?thesis by (simp add: skip_loop.simps [of op p m])
    qed
  qed
qed

text \<open>A text to skip of two characters or more makes \<open>skip\<close> write beyond every array.\<close>

theorem skip_overruns:
  assumes "start < length m" "m ! start \<noteq> NUL" "2 \<le> length op" "NUL \<notin> set op"
  shows "fst (skip op start m) = Fault"
proof -
  obtain a b cs where op: "op = a # b # cs"
    using assms(3) by (cases op; cases "tl op") auto
  with assms have "fst (skip_loop op start m) = Fault"
    by (intro skip_loop_faults [OF _ op]) auto
  then show ?thesis
    by (cases "skip_loop op start m") (simp add: skip_def sbind_def)
qed

text \<open>One character: it is written over the text, which ends after it.\<close>

theorem skip_one_char_overwrites:
  assumes "start + 2 \<le> length m" "m ! start \<noteq> NUL"
  shows "skip [c] start m = (Ret (Suc start), take start m @ c # NUL # drop (start + 2) m)"
proof -
  let ?m = "take start m @ c # NUL # drop (start + 2) m"
  have "mem_store m (int start) ([c] @ [NUL]) = Some ?m"
    using assms(1) by (simp add: mem_store_nat)
  moreover have "?m ! Suc start = NUL" "Suc start < length ?m"
    using assms(1) by (auto simp: nth_append)
  then have "skip_loop [c] (Suc start) ?m = (Ret (Suc start), ?m)"
    by (subst skip_loop.simps) simp
  ultimately have "skip_loop [c] start m = (Ret (Suc start), ?m)"
    using assms by (subst skip_loop.simps) simp
  then show ?thesis
    using assms(1) by (simp add: skip_def sbind_def sget_def sret_def nth_append)
qed

end
