(* ===== verification/Rio.thy ===== *)
theory Rio
  imports Sysio
begin

text \<open>
  utils/rio_r_w.h: the buffered reader \<open>rio_t\<close> with \<open>rio_readinit\<close> and \<open>rio_read\<close>, and
  \<open>rio_write\<close>. The descriptor inside \<open>rio_t\<close> is the \<open>conn\<close> the functions are applied to; the
  pointer \<open>ptr\<close> is its distance from the start of \<open>rio_buffer\<close>.
\<close>

section \<open>The reader\<close>

definition RIO_BUFSIZE :: nat where
  "RIO_BUFSIZE = 4096"

record rio_t =
  rio_nread :: int
  rio_ptr :: nat
  rio_buffer :: bytes

definition rio_readinit :: "rio_t \<Rightarrow> rio_t" where
  "rio_readinit rp = rp\<lparr>rio_nread := 0, rio_ptr := 0\<rparr>"

text \<open>The tail of \<open>rio_read\<close>: \<open>memcpy\<close> from the start of the buffer, then the bookkeeping. A
  negative count is a huge one to \<open>memcpy\<close>.\<close>

definition rio_copy :: "rio_t \<Rightarrow> bytes \<Rightarrow> nat \<Rightarrow> (int \<times> rio_t \<times> bytes) cres" where
  "rio_copy rp usrbuf sz =
     (let cnt = to_int (int sz);
          cnt = (if rio_nread rp < cnt then rio_nread rp else cnt)
      in if cnt < 0 then Fault
         else (case mem_load (rio_buffer rp) 0 (nat cnt) of
             None \<Rightarrow> Fault
           | Some bs \<Rightarrow> (case mem_store usrbuf 0 bs of
               None \<Rightarrow> Fault
             | Some usrbuf' \<Rightarrow>
                 Ret (cnt, rp\<lparr>rio_ptr := rio_ptr rp + nat cnt, rio_nread := rio_nread rp - cnt\<rparr>,
                      usrbuf'))))"

text \<open>The refilling \<open>while (rp->nread <= 0)\<close> runs at most once: every branch of its body returns,
  breaks, or makes \<open>nread\<close> positive.\<close>

definition rio_read ::
  "rio_t \<Rightarrow> bytes \<Rightarrow> nat \<Rightarrow> (conn, int \<times> rio_t \<times> bytes) prog" where
  "rio_read rp usrbuf sz c =
     (if rio_nread rp \<le> 0 then
        (case sys_read RIO_BUFSIZE c of
           (Ret (Inl e), c') \<Rightarrow>
             (let rp' = rp\<lparr>rio_nread := - 1\<rparr>
              in if e = EINTR then (rio_copy rp' usrbuf sz, c') else (Ret (- 1, rp', usrbuf), c'))
         | (Ret (Inr bs), c') \<Rightarrow>
             (case mem_store (rio_buffer rp) 0 bs of
                None \<Rightarrow> (Fault, c')
              | Some b' \<Rightarrow>
                  (let rp' = rp\<lparr>rio_nread := int (length bs), rio_buffer := b'\<rparr>
                   in if bs = [] then (Ret (0, rp', usrbuf), c')
                      else (rio_copy (rp'\<lparr>rio_ptr := 0\<rparr>) usrbuf sz, c')))
         | (_, c') \<Rightarrow> (Wait, c'))
      else (rio_copy rp usrbuf sz, c))"

section \<open>The writer\<close>

function rio_write_loop :: "bytes \<Rightarrow> nat \<Rightarrow> int \<Rightarrow> nat \<Rightarrow> (conn, int) prog" where
  "rio_write_loop usrbuf sz nleft ptr c =
     (if 0 < nleft then
        (case mem_load usrbuf (int ptr) (nat nleft) of
           None \<Rightarrow> (Fault, c)
         | Some data \<Rightarrow>
             (case sys_send data c of
                (Ret (Inl e), c') \<Rightarrow>
                  (if e = EINTR then rio_write_loop usrbuf sz (nleft - 0) (ptr + 0) c'
                   else (Ret (- 1), c'))
              | (Ret (Inr nwrite), c') \<Rightarrow>
                  (if nwrite = 0 then (Ret (to_int (int sz - nleft)), c')
                   else rio_write_loop usrbuf sz (nleft - int nwrite) (ptr + nwrite) c')
              | (_, c') \<Rightarrow> (Wait, c')))
      else (Ret (to_int (int sz - nleft)), c))"
  by pat_completeness auto
termination
  by (relation "measure (\<lambda>(usrbuf, sz, nleft, ptr, c). length (wr_ans c))")
    (auto dest: sys_send_size)

declare rio_write_loop.simps [simp del]

definition rio_write :: "bytes \<Rightarrow> nat \<Rightarrow> (conn, int) prog" where
  "rio_write usrbuf sz = rio_write_loop usrbuf sz (to_int (int sz)) 0"

section \<open>What rio_read does\<close>

definition rio_ok :: "rio_t \<Rightarrow> bool" where
  "rio_ok rp \<longleftrightarrow> length (rio_buffer rp) = RIO_BUFSIZE \<and> 0 \<le> rio_nread rp
     \<and> rio_nread rp + int (rio_ptr rp) \<le> int RIO_BUFSIZE"

lemma rio_copy_fits:
  assumes "rio_ok rp" "sz < 2 ^ 31" "sz \<le> length usrbuf"
    and "n = min sz (nat (rio_nread rp))"
  shows "rio_copy rp usrbuf sz =
    Ret (int n, rp\<lparr>rio_ptr := rio_ptr rp + n, rio_nread := rio_nread rp - int n\<rparr>,
         take n (rio_buffer rp) @ drop n usrbuf)"
proof -
  have c: "(if rio_nread rp < to_int (int sz) then rio_nread rp else to_int (int sz)) = int n"
    using assms by (auto simp: rio_ok_def unix_arith min_def)
  have n: "n \<le> length (rio_buffer rp)" "n \<le> length usrbuf"
    using assms by (auto simp: rio_ok_def min_def)
  show ?thesis
    unfolding rio_copy_def Let_def c
    using n by (simp add: mem_load_def mem_store_def)
qed

text \<open>The first read after a delivery gives the caller its first bytes.\<close>

theorem rio_read_first:
  assumes "rio_ok rp" "rio_nread rp = 0" "rd_ans c = RData bs # es" "bs \<noteq> []"
    and "length bs \<le> RIO_BUFSIZE" "sz < 2 ^ 31" "sz \<le> length usrbuf"
  shows "\<exists>rp'. rio_read rp usrbuf sz c =
      (Ret (int (min sz (length bs)), rp', take sz bs @ drop (min sz (length bs)) usrbuf),
       c\<lparr>rd_ans := es\<rparr>)
    \<and> rio_ok rp' \<and> rio_nread rp' = int (length bs) - int (min sz (length bs))
    \<and> take (length bs) (rio_buffer rp') = bs"
proof -
  let ?b = "bs @ drop (length bs) (rio_buffer rp)"
  let ?rp = "rp\<lparr>rio_nread := int (length bs), rio_buffer := ?b, rio_ptr := 0\<rparr>"
  have ok: "rio_ok ?rp" using assms(1,5) by (simp add: rio_ok_def)
  have "mem_store (rio_buffer rp) 0 bs = Some ?b"
    using assms(1,5) by (simp add: mem_store_def rio_ok_def)
  with assms have "rio_read rp usrbuf sz c = (rio_copy ?rp usrbuf sz, c\<lparr>rd_ans := es\<rparr>)"
    by (simp add: rio_read_def sys_read_def Let_def)
  with rio_copy_fits [OF ok assms(6,7) refl] ok assms(5) show ?thesis
    by (auto simp: rio_ok_def min_def)
qed

text \<open>The next read copies from the start of the buffer again: it repeats the bytes the first one
  delivered, so \<open>rio_read\<close> does not keep the contract \<open>byte_source\<close>.\<close>

theorem rio_read_repeats:
  assumes "rio_ok rp" "rio_nread rp = 0" "rd_ans c = RData bs # es"
    and "n + m = length bs" "0 < n" "0 < m" "length bs \<le> RIO_BUFSIZE"
    and "n \<le> length ub1" "m \<le> length ub2"
  shows "\<exists>rp1 rp2. rio_read rp ub1 n c = (Ret (int n, rp1, take n bs @ drop n ub1), c\<lparr>rd_ans := es\<rparr>)
    \<and> rio_read rp1 ub2 m (c\<lparr>rd_ans := es\<rparr>) =
        (Ret (int m, rp2, take m bs @ drop m ub2), c\<lparr>rd_ans := es\<rparr>)"
proof -
  have lim: "n < 2 ^ 31" "m < 2 ^ 31" "bs \<noteq> []" using assms(4-7) by (auto simp: RIO_BUFSIZE_def)
  obtain rp1 where r1: "rio_read rp ub1 n c = (Ret (int n, rp1, take n bs @ drop n ub1), c\<lparr>rd_ans := es\<rparr>)"
    "rio_ok rp1" "rio_nread rp1 = int m" "take (length bs) (rio_buffer rp1) = bs"
    using rio_read_first [OF assms(1-3) lim(3) assms(7) lim(1) assms(8)] assms(4)
    by (auto simp: min_def)
  have "take m (rio_buffer rp1) = take m bs"
    using r1(4) assms(4) by (metis le_add2 min_def take_take)
  then have "rio_read rp1 ub2 m (c\<lparr>rd_ans := es\<rparr>) =
      (Ret (int m, rp1\<lparr>rio_ptr := rio_ptr rp1 + m, rio_nread := rio_nread rp1 - int m\<rparr>,
        take m bs @ drop m ub2), c\<lparr>rd_ans := es\<rparr>)"
    using rio_copy_fits [OF r1(2) lim(2) assms(9), of m] r1(3) assms(6)
    by (simp add: rio_read_def)
  with r1(1) show ?thesis by blast
qed

theorem rio_read_repeats_witness:
  "\<exists>rp1 rp2. rio_read \<lparr>rio_nread = 0, rio_ptr = 0, rio_buffer = replicate 4096 NUL\<rparr> ''..'' 2
        \<lparr>rd_ans = [RData ''abcd''], wr_ans = [], wire = []\<rparr> =
      (Ret (2, rp1, ''ab''), \<lparr>rd_ans = [], wr_ans = [], wire = []\<rparr>)
    \<and> rio_read rp1 ''..'' 2 \<lparr>rd_ans = [], wr_ans = [], wire = []\<rparr> =
      (Ret (2, rp2, ''ab''), \<lparr>rd_ans = [], wr_ans = [], wire = []\<rparr>)"
  using rio_read_repeats [of "\<lparr>rio_nread = 0, rio_ptr = 0, rio_buffer = replicate 4096 NUL\<rparr>"
      "\<lparr>rd_ans = [RData ''abcd''], wr_ans = [], wire = []\<rparr>" "''abcd''" "[]" 2 2 "''..''" "''..''"]
  by (simp add: rio_ok_def RIO_BUFSIZE_def)

text \<open>An interrupted refill leaves \<open>nread\<close> at \<open>-1\<close>, and the copy runs out of its buffers.\<close>

theorem rio_read_eintr_faults:
  assumes "rio_nread rp \<le> 0" "rd_ans c = RErr EINTR # es" "sz < 2 ^ 31"
  shows "rio_read rp usrbuf sz c = (Fault, c\<lparr>rd_ans := es\<rparr>)"
  using assms by (simp add: rio_read_def sys_read_def rio_copy_def Let_def unix_arith)

section \<open>What rio_write does\<close>

lemma rio_write_step:
  assumes "p < n" "n \<le> length buf" "length buf < 2 ^ 31"
  shows "rio_write_loop buf n (int (n - p)) p c =
    (case sys_send (take (n - p) (drop p buf)) c of
       (Ret (Inl e), c') \<Rightarrow>
         (if e = EINTR then rio_write_loop buf n (int (n - p)) p c' else (Ret (- 1), c'))
     | (Ret (Inr k), c') \<Rightarrow>
         (if k = 0 then (Ret (int p), c')
          else rio_write_loop buf n (int (n - p) - int k) (p + k) c')
     | (_, c') \<Rightarrow> (Wait, c'))"
  using assms
  by (simp add: rio_write_loop.simps [of buf n "int (n - p)"] mem_load_nat unix_arith
      del: of_nat_diff split: prod.split cres.split sum.split) (simp add: unix_arith)

interpretation rio: retrying_feeder
  "\<lambda>buf n p. rio_write_loop buf n (int (n - p)) p" int "2 ^ 31" "- 1"
proof
  fix n and buf :: bytes and c :: conn
  assume "n \<le> length buf" "length buf < 2 ^ 31"
  then show "rio_write_loop buf n (int (n - n)) n c = (Ret (int n), c)"
    by (simp add: rio_write_loop.simps [of buf n 0] unix_arith)
next
  fix p n k m and buf :: bytes and c :: conn and ws
  assume h: "p < n" "n \<le> length buf" "length buf < 2 ^ 31" "wr_ans c = WAccept k # ws" "0 < k"
    "m = min k (n - p)"
  have "sys_send (take (n - p) (drop p buf)) c =
      (Ret (Inr m), c\<lparr>wr_ans := ws, wire := wire c @ take m (drop p buf)\<rparr>)"
    using h by (auto simp add: sys_send_def min_def)
  moreover have "int (n - p) - int m = int (n - (p + m))" "m \<noteq> 0"
    using h by auto
  ultimately show "rio_write_loop buf n (int (n - p)) p c =
      rio_write_loop buf n (int (n - (p + m))) (p + m)
        (c\<lparr>wr_ans := ws, wire := wire c @ take m (drop p buf)\<rparr>)"
    using rio_write_step [OF h(1-3), of c] by (simp del: of_nat_diff)
qed (simp_all add: rio_write_step sys_send_def del: of_nat_diff)

theorem rio_write_feed:
  assumes "n \<le> length buf" "length buf < 2 ^ 31"
  shows "rio_write buf n c = (case feed n (wr_ans c) of (k, st, ws) \<Rightarrow>
    (feed_result int (- 1) k st, c\<lparr>wr_ans := ws, wire := wire c @ take k buf\<rparr>))"
  using rio.loop_feed [OF assms, of c] assms by (simp add: rio_write_def unix_arith)

theorem rio_write_feed_witness:
  "rio_write ''abcdef'' 5 \<lparr>rd_ans = [], wr_ans = [WErr EINTR, WAccept 2, WErr EPIPE], wire = []\<rparr> =
   (Ret (- 1), \<lparr>rd_ans = [], wr_ans = [], wire = ''ab''\<rparr>)"
proof -
  have f: "feed 5 [WErr EINTR, WAccept 2, WErr EPIPE] = (2, Failed, [])" by code_simp
  from rio_write_feed [of 5 "''abcdef''"
      "\<lparr>rd_ans = [], wr_ans = [WErr EINTR, WAccept 2, WErr EPIPE], wire = []\<rparr>"]
  show ?thesis by (simp add: feed_result_def f)
qed

end
