(* ===== verification/Rotate.thy ===== *)
theory Rotate
  imports CBase "HOL-Library.Tree"
begin

text \<open>
  The rotations of src/rb_tree.c on a heap of nodes. The rest of that file's red-black tree does not
  exist: \<open>alloc_node\<close> allocates a node and forgets it, and nothing calls the rotations.
\<close>

type_synonym ptr = "nat option"

record rb_node_t =
  rb_left :: ptr
  rb_right :: ptr
  rb_parent :: ptr
  color :: int
  rb_buf :: nat

type_synonym rb_heap = "nat \<Rightarrow> rb_node_t option"

section \<open>Access through pointers\<close>

definition deref :: "ptr \<Rightarrow> (rb_heap, rb_node_t) prog" where
  "deref p h = (case Option.bind p h of None \<Rightarrow> (Fault, h) | Some n \<Rightarrow> (Ret n, h))"

definition node_set :: "ptr \<Rightarrow> (rb_node_t \<Rightarrow> rb_node_t) \<Rightarrow> (rb_heap, unit) prog" where
  "node_set p f = sbind (deref p) (\<lambda>n. smod (\<lambda>h. h(the p \<mapsto> f n)))"

definition fetch :: "(rb_node_t \<Rightarrow> ptr) \<Rightarrow> ptr \<Rightarrow> (rb_heap, ptr) prog" where
  "fetch field p = sbind (deref p) (\<lambda>n. sret (field n))"

section \<open>alloc_node\<close>

text \<open>\<open>p\<close> is what \<open>malloc\<close> answers, \<open>garbage\<close> what the new memory holds. The function ends without a
  \<open>return\<close>, so there is no value, and the argument is not stored.\<close>

definition alloc_node :: "ptr \<Rightarrow> rb_node_t \<Rightarrow> nat \<Rightarrow> (rb_heap, unit) prog" where
  "alloc_node p garbage data = (case p of None \<Rightarrow> sret () | Some x \<Rightarrow> smod (\<lambda>h. h(x \<mapsto> garbage)))"

section \<open>The rotations\<close>

definition rotate_left :: "ptr \<Rightarrow> ptr \<Rightarrow> (rb_heap, ptr) prog" where
  "rotate_left node root =
     sbind (fetch rb_right node) (\<lambda>right.
     sbind (fetch rb_left right) (\<lambda>rl.
     sseq (node_set node (\<lambda>n. n\<lparr>rb_right := rl\<rparr>))
     (sseq (if rl \<noteq> None then
              sbind (fetch rb_left right) (\<lambda>q. node_set q (\<lambda>n. n\<lparr>rb_parent := node\<rparr>))
            else sret ())
     (sseq (node_set right (\<lambda>n. n\<lparr>rb_left := node\<rparr>))
     (sbind (fetch rb_parent node) (\<lambda>par.
     sseq (node_set right (\<lambda>n. n\<lparr>rb_parent := par\<rparr>))
     (if par \<noteq> None then
        sbind (fetch rb_parent node) (\<lambda>par.
        sbind (fetch rb_right par) (\<lambda>pr.
        sseq (if pr = node then node_set par (\<lambda>n. n\<lparr>rb_right := right\<rparr>)
              else node_set par (\<lambda>n. n\<lparr>rb_left := right\<rparr>))
          (sret root)))
      else sret right)))))))"

definition rotate_right :: "ptr \<Rightarrow> ptr \<Rightarrow> (rb_heap, ptr) prog" where
  "rotate_right node root =
     sbind (fetch rb_left node) (\<lambda>left.
     sbind (fetch rb_right left) (\<lambda>lr.
     sseq (node_set node (\<lambda>n. n\<lparr>rb_left := lr\<rparr>))
     (sseq (if lr \<noteq> None then
              sbind (fetch rb_right left) (\<lambda>q. node_set q (\<lambda>n. n\<lparr>rb_parent := node\<rparr>))
            else sret ())
     (sseq (node_set left (\<lambda>n. n\<lparr>rb_right := node\<rparr>))
     (sbind (fetch rb_parent node) (\<lambda>par.
     sseq (node_set left (\<lambda>n. n\<lparr>rb_parent := par\<rparr>))
     (if par \<noteq> None then
        sbind (fetch rb_parent node) (\<lambda>par.
        sbind (fetch rb_left par) (\<lambda>pl.
        sseq (if pl = node then node_set par (\<lambda>n. n\<lparr>rb_left := left\<rparr>)
              else node_set par (\<lambda>n. n\<lparr>rb_right := left\<rparr>))
          (sret root)))
      else sret left)))))))"

section \<open>Trees in the heap\<close>

text \<open>The tree below a pointer, with the addresses of its nodes as values; and whether every node's
  parent pointer is right.\<close>

fun shape :: "rb_heap \<Rightarrow> ptr \<Rightarrow> nat tree \<Rightarrow> bool" where
  "shape h p Leaf \<longleftrightarrow> p = None"
| "shape h p (Node l x r) \<longleftrightarrow> p = Some x \<and> (\<exists>n. h x = Some n \<and> shape h (rb_left n) l \<and> shape h (rb_right n) r)"

fun parents :: "rb_heap \<Rightarrow> ptr \<Rightarrow> nat tree \<Rightarrow> bool" where
  "parents h q Leaf \<longleftrightarrow> True"
| "parents h q (Node l x r) \<longleftrightarrow>
     (\<exists>n. h x = Some n \<and> rb_parent n = q) \<and> parents h (Some x) l \<and> parents h (Some x) r"

lemma shape_frame:
  "\<forall>x \<in> set_tree t. \<exists>n n'. h x = Some n \<and> h' x = Some n' \<and> rb_left n' = rb_left n \<and> rb_right n' = rb_right n \<Longrightarrow>
   shape h p t \<Longrightarrow> shape h' p t"
  by (induction t arbitrary: p) fastforce+

lemma shape_alloc: "shape h p t \<Longrightarrow> x \<in> set_tree t \<Longrightarrow> h x \<noteq> None"
  by (induction t arbitrary: p) auto

lemma shape_root: "shape h p t \<Longrightarrow> p = (case t of Leaf \<Rightarrow> None | Node _ x _ \<Rightarrow> Some x)"
  by (cases t) auto

lemma fetch_eq: "h x \<noteq> None \<Longrightarrow> fetch f (Some x) h = (Ret (f (the (h x))), h)"
  by (auto simp: fetch_def deref_def sbind_def sret_def)

lemma node_set_eq: "h x \<noteq> None \<Longrightarrow> node_set (Some x) f h = (Ret (), h(x \<mapsto> f (the (h x))))"
  by (auto simp: node_set_def deref_def sbind_def smod_def)

section \<open>What a rotation does\<close>

lemmas rot_simps = fetch_eq node_set_eq sbind_def sseq_def sret_def

text \<open>The nodes a left rotation changes: the node, its right child, the inner grandchild and the
  parent.\<close>

definition relink_left :: "nat \<Rightarrow> nat \<Rightarrow> rb_heap \<Rightarrow> rb_heap" where
  "relink_left x y h =
     (let nx = the (h x); ny = the (h y);
          h1 = h(x \<mapsto> nx\<lparr>rb_right := rb_left ny\<rparr>);
          h2 = (case rb_left ny of None \<Rightarrow> h1 | Some z \<Rightarrow> h1(z \<mapsto> (the (h z))\<lparr>rb_parent := Some x\<rparr>));
          h3 = h2(y \<mapsto> ny\<lparr>rb_left := Some x, rb_parent := rb_parent nx\<rparr>)
      in case rb_parent nx of
           None \<Rightarrow> h3
         | Some q \<Rightarrow> h3(q \<mapsto> (if rb_right (the (h q)) = Some x then (the (h q))\<lparr>rb_right := Some y\<rparr>
                              else (the (h q))\<lparr>rb_left := Some y\<rparr>)))"

definition relink_right :: "nat \<Rightarrow> nat \<Rightarrow> rb_heap \<Rightarrow> rb_heap" where
  "relink_right x y h =
     (let nx = the (h x); ny = the (h y);
          h1 = h(x \<mapsto> nx\<lparr>rb_left := rb_right ny\<rparr>);
          h2 = (case rb_right ny of None \<Rightarrow> h1 | Some z \<Rightarrow> h1(z \<mapsto> (the (h z))\<lparr>rb_parent := Some x\<rparr>));
          h3 = h2(y \<mapsto> ny\<lparr>rb_right := Some x, rb_parent := rb_parent nx\<rparr>)
      in case rb_parent nx of
           None \<Rightarrow> h3
         | Some q \<Rightarrow> h3(q \<mapsto> (if rb_left (the (h q)) = Some x then (the (h q))\<lparr>rb_left := Some y\<rparr>
                              else (the (h q))\<lparr>rb_right := Some y\<rparr>)))"

text \<open>Pointers of a node around a rotation: distinct, and allocated.\<close>

definition apart :: "rb_heap \<Rightarrow> ptr list \<Rightarrow> bool" where
  "apart h ps \<longleftrightarrow> distinct (filter (\<lambda>p. p \<noteq> None) ps) \<and> list_all (\<lambda>p. p = None \<or> h (the p) \<noteq> None) ps"

lemma rotate_left_eq:
  assumes "h x = Some nx" "rb_right nx = Some y" "h y = Some ny"
    and "apart h [Some x, Some y, rb_left ny, rb_parent nx]"
  shows "rotate_left (Some x) root h =
    (Ret (if rb_parent nx = None then Some y else root), relink_left x y h)"
  using assms
  by (cases "rb_left ny"; cases "rb_parent nx")
    (auto simp: rotate_left_def rot_simps apart_def relink_left_def Let_def fun_upd_twist)

lemma rotate_right_eq:
  assumes "h x = Some nx" "rb_left nx = Some y" "h y = Some ny"
    and "apart h [Some x, Some y, rb_right ny, rb_parent nx]"
  shows "rotate_right (Some x) root h =
    (Ret (if rb_parent nx = None then Some y else root), relink_right x y h)"
  using assms
  by (cases "rb_right ny"; cases "rb_parent nx")
    (auto simp: rotate_right_def rot_simps apart_def relink_right_def Let_def fun_upd_twist)

lemma shape_relink:
  assumes "shape h p t" "\<forall>z \<in> set_tree t. map_option rb_left (h' z) = map_option rb_left (h z)
    \<and> map_option rb_right (h' z) = map_option rb_right (h z)"
  shows "shape h' p t"
proof (rule shape_frame [OF _ assms(1)], rule ballI)
  fix z assume z: "z \<in> set_tree t"
  then obtain n where "h z = Some n" using shape_alloc [OF assms(1)] by auto
  with assms(2) z show "\<exists>n n'. h z = Some n \<and> h' z = Some n' \<and> rb_left n' = rb_left n \<and> rb_right n' = rb_right n"
    by fastforce
qed

lemma rotate_left_root_eq:
  assumes "shape h (Some x) (Node a x (Node b y c))" "distinct (inorder (Node a x (Node b y c)))"
    and "rb_parent (the (h x)) = None"
  shows "\<exists>h'. rotate_left (Some x) root h = (Ret (Some y), h') \<and> shape h' (Some y) (Node (Node a x b) y c)
    \<and> rb_parent (the (h' y)) = None \<and> rb_parent (the (h' x)) = None"
proof -
  obtain nx ny where n: "h x = Some nx" "rb_right nx = Some y" "h y = Some ny" "shape h (rb_left nx) a"
    "shape h (rb_left ny) b" "shape h (rb_right ny) c"
    using assms(1) by auto
  have d: "x \<noteq> y" "x \<notin> set_tree a \<union> set_tree b \<union> set_tree c" "y \<notin> set_tree a \<union> set_tree b \<union> set_tree c"
    using assms(2) by auto
  let ?h = "relink_left x y h"
  have b: "rb_left ny = (case b of Leaf \<Rightarrow> None | Node _ z _ \<Rightarrow> Some z)"
    by (rule shape_root [OF n(5)])
  have "\<forall>z \<in> set_tree b. h z \<noteq> None" using shape_alloc [OF n(5)] by blast
  then have "apart h [Some x, Some y, rb_left ny, rb_parent nx]"
    using n d assms(3) b by (cases b) (auto simp: apart_def)
  from rotate_left_eq [OF n(1-3) this] have "rotate_left (Some x) root h = (Ret (Some y), ?h)"
    using assms(3) n(1) by simp
  moreover have f: "map_option rb_left (?h z) = map_option rb_left (h z)
      \<and> map_option rb_right (?h z) = map_option rb_right (h z)" if "z \<noteq> x" "z \<noteq> y" "h z \<noteq> None" for z
    using that assms(3) n(1) by (auto simp: relink_left_def Let_def split: option.split)
  have sh: "shape ?h p t" if "shape h p t" "x \<notin> set_tree t" "y \<notin> set_tree t" for p t
  proof (rule shape_relink [OF that(1)], rule ballI)
    fix z assume "z \<in> set_tree t"
    with that(2,3) shape_alloc [OF that(1)] have "z \<noteq> x" "z \<noteq> y" "h z \<noteq> None" by auto
    then show "map_option rb_left (?h z) = map_option rb_left (h z)
        \<and> map_option rb_right (?h z) = map_option rb_right (h z)" by (rule f)
  qed
  have "?h x = Some (nx\<lparr>rb_right := rb_left ny\<rparr>)" "?h y = Some (ny\<lparr>rb_left := Some x, rb_parent := None\<rparr>)"
    using n d b assms(3) by (cases b; simp add: relink_left_def Let_def)+
  moreover have "shape ?h (rb_left nx) a" "shape ?h (rb_left ny) b" "shape ?h (rb_right ny) c"
    using n d by (intro sh; simp)+
  ultimately show ?thesis
    using n(1) assms(3) by (intro exI [of _ ?h]) simp
qed

lemma rotate_right_root_eq:
  assumes "shape h (Some x) (Node (Node a y b) x c)" "distinct (inorder (Node (Node a y b) x c))"
    and "rb_parent (the (h x)) = None"
  shows "\<exists>h'. rotate_right (Some x) root h = (Ret (Some y), h') \<and> shape h' (Some y) (Node a y (Node b x c))
    \<and> rb_parent (the (h' y)) = None \<and> rb_parent (the (h' x)) = None"
proof -
  obtain nx ny where n: "h x = Some nx" "rb_left nx = Some y" "h y = Some ny" "shape h (rb_right nx) c"
    "shape h (rb_right ny) b" "shape h (rb_left ny) a"
    using assms(1) by auto
  have d: "x \<noteq> y" "x \<notin> set_tree a \<union> set_tree b \<union> set_tree c" "y \<notin> set_tree a \<union> set_tree b \<union> set_tree c"
    using assms(2) by auto
  let ?h = "relink_right x y h"
  have b: "rb_right ny = (case b of Leaf \<Rightarrow> None | Node _ z _ \<Rightarrow> Some z)"
    by (rule shape_root [OF n(5)])
  have "\<forall>z \<in> set_tree b. h z \<noteq> None" using shape_alloc [OF n(5)] by blast
  then have "apart h [Some x, Some y, rb_right ny, rb_parent nx]"
    using n d assms(3) b by (cases b) (auto simp: apart_def)
  from rotate_right_eq [OF n(1-3) this] have "rotate_right (Some x) root h = (Ret (Some y), ?h)"
    using assms(3) n(1) by simp
  moreover have f: "map_option rb_left (?h z) = map_option rb_left (h z)
      \<and> map_option rb_right (?h z) = map_option rb_right (h z)" if "z \<noteq> x" "z \<noteq> y" "h z \<noteq> None" for z
    using that assms(3) n(1) by (auto simp: relink_right_def Let_def split: option.split)
  have sh: "shape ?h p t" if "shape h p t" "x \<notin> set_tree t" "y \<notin> set_tree t" for p t
  proof (rule shape_relink [OF that(1)], rule ballI)
    fix z assume "z \<in> set_tree t"
    with that(2,3) shape_alloc [OF that(1)] have "z \<noteq> x" "z \<noteq> y" "h z \<noteq> None" by auto
    then show "map_option rb_left (?h z) = map_option rb_left (h z)
        \<and> map_option rb_right (?h z) = map_option rb_right (h z)" by (rule f)
  qed
  have "?h x = Some (nx\<lparr>rb_left := rb_right ny\<rparr>)" "?h y = Some (ny\<lparr>rb_right := Some x, rb_parent := None\<rparr>)"
    using n d b assms(3) by (cases b; simp add: relink_right_def Let_def)+
  moreover have "shape ?h (rb_right nx) c" "shape ?h (rb_right ny) b" "shape ?h (rb_left ny) a"
    using n d by (intro sh; simp)+
  ultimately show ?thesis
    using n(1) assms(3) by (intro exI [of _ ?h]) simp
qed

text \<open>Both rotations at the root, one after the other: the tree is turned and turned back. The parent
  pointer of the node that goes down is not set. After the left rotation it is the only wrong one; after both
  the heap is as it was, except that the old child claims to be a root.\<close>

lemma parents_frame: "\<forall>z \<in> set_tree t. h' z = h z \<Longrightarrow> parents h q t \<Longrightarrow> parents h' q t"
  by (induction t arbitrary: q) auto

lemma relink_left_parents:
  assumes "parents h None (Node a x (Node b y c))" "distinct (inorder (Node a x (Node b y c)))"
    and "h x = Some nx" "h y = Some ny" "rb_left ny = (case b of Leaf \<Rightarrow> None | Node _ z _ \<Rightarrow> Some z)"
  shows "parents ((relink_left x y h)(x \<mapsto> (the (relink_left x y h x))\<lparr>rb_parent := Some y\<rparr>)) None (Node (Node a x b) y c)"
proof -
  let ?h1 = "relink_left x y h"
  let ?h = "?h1(x \<mapsto> (the (?h1 x))\<lparr>rb_parent := Some y\<rparr>)"
  have p: "rb_parent nx = None" "rb_parent ny = Some x" "parents h (Some x) a" "parents h (Some y) b" "parents h (Some y) c"
    using assms(1,3,4) by auto
  have d: "x \<noteq> y" "x \<notin> set_tree a \<union> set_tree b \<union> set_tree c" "y \<notin> set_tree a \<union> set_tree b \<union> set_tree c"
    "set_tree a \<inter> set_tree b = {}" "set_tree b \<inter> set_tree c = {}"
    using assms(2) by auto
  have f: "?h z = h z" if "z \<noteq> x" "z \<noteq> y" "rb_left ny \<noteq> Some z" for z
    using that assms(3,4) p(1) by (auto simp: relink_left_def Let_def split: option.split)
  have hy: "?h y = Some (ny\<lparr>rb_left := Some x, rb_parent := None\<rparr>)"
    using d(1) assms(3,4) p(1) by (simp add: relink_left_def Let_def)
  have a: "parents ?h (Some x) a" and c: "parents ?h (Some y) c"
    using d assms(5) by (auto intro!: parents_frame [OF _ p(3)] parents_frame [OF _ p(5)] f split: tree.splits)
  have "parents ?h (Some x) b"
  proof (cases b)
    case (Node l z r)
    with p(4) obtain nz where nz: "h z = Some nz" "parents h (Some z) l" "parents h (Some z) r" by auto
    have dz: "z \<noteq> x" "z \<noteq> y" "z \<notin> set_tree l \<union> set_tree r" "rb_left ny = Some z"
      using assms(2,5) Node by auto
    then have "?h z = Some (nz\<lparr>rb_parent := Some x\<rparr>)"
      using assms(3,4) p(1) nz(1) by (simp add: relink_left_def Let_def)
    moreover have "parents ?h (Some z) l" "parents ?h (Some z) r"
      using d dz Node by (auto intro!: parents_frame [OF _ nz(2)] parents_frame [OF _ nz(3)] f)
    ultimately show ?thesis using Node by simp
  qed simp
  with a c hy show ?thesis by simp
qed

text \<open>
  C29: A left rotation at the root turns the tree and makes every parent pointer right except
  that of the node that goes down, which is left as it was; a right rotation then brings back
  the whole heap as it was before, except that the child that was raised keeps no parent.
\<close>

theorem rotations_at_root:
  assumes "shape h (Some x) (Node a x (Node b y c))" "distinct (inorder (Node a x (Node b y c)))"
    and "parents h None (Node a x (Node b y c))"
  shows "\<exists>h1. rotate_left (Some x) root h = (Ret (Some y), h1)
    \<and> shape h1 (Some y) (Node (Node a x b) y c) \<and> rb_parent (the (h1 x)) = rb_parent (the (h x))
    \<and> parents (h1(x \<mapsto> (the (h1 x))\<lparr>rb_parent := Some y\<rparr>)) None (Node (Node a x b) y c)
    \<and> rotate_right (Some y) root h1 = (Ret (Some x), h(y \<mapsto> (the (h y))\<lparr>rb_parent := None\<rparr>))"
proof -
  obtain nx ny where n: "h x = Some nx" "rb_right nx = Some y" "h y = Some ny" "shape h (rb_left ny) b"
    using assms(1) by auto
  have p: "rb_parent nx = None" "rb_parent ny = Some x" using assms(3) n by auto
  have d: "x \<noteq> y" "x \<notin> set_tree b" "y \<notin> set_tree b" using assms(2) by auto
  have b: "rb_left ny = (case b of Leaf \<Rightarrow> None | Node _ z _ \<Rightarrow> Some z)" by (rule shape_root [OF n(4)])
  have z: "z \<noteq> x \<and> z \<noteq> y \<and> (\<exists>nz. h z = Some nz \<and> rb_parent nz = Some y)" if "rb_left ny = Some z" for z
    using that b d assms(3) by (cases b) auto
  obtain h1 where 1: "rotate_left (Some x) root h = (Ret (Some y), h1)"
    "shape h1 (Some y) (Node (Node a x b) y c)" "rb_parent (the (h1 y)) = None" "rb_parent (the (h1 x)) = None"
    using rotate_left_root_eq [OF assms(1,2), of root] n(1) p(1) by auto
  have "apart h [Some x, Some y, rb_left ny, rb_parent nx]"
    using n d(1) p(1) z by (cases "rb_left ny") (auto simp: apart_def)
  from rotate_left_eq [OF n(1-3) this, of root] 1(1) have h1: "h1 = relink_left x y h" by simp
  then have at: "h1 x = Some (nx\<lparr>rb_right := rb_left ny\<rparr>)" "h1 y = Some (ny\<lparr>rb_left := Some x, rb_parent := None\<rparr>)"
    using n d(1) p(1) z by (auto simp: relink_left_def Let_def split: option.split)
  have at_z: "\<exists>nz. h1 z = Some nz" if "rb_left ny = Some z" for z
    using z [OF that] n p(1) that by (auto simp: h1 relink_left_def Let_def)
  have "apart h1 [Some y, Some x, rb_left ny, None]"
    using at d(1) z at_z by (cases "rb_left ny") (auto simp: apart_def)
  with rotate_right_eq [of h1 y, OF at(2) _ at(1), of root]
  have "rotate_right (Some y) root h1 = (Ret (Some x), relink_right y x h1)" by simp
  moreover have "relink_right y x h1 = h(y \<mapsto> ny\<lparr>rb_parent := None\<rparr>)"
  proof (cases "rb_left ny")
    case None
    with n p d(1) show ?thesis by (auto simp: h1 relink_left_def relink_right_def Let_def fun_eq_iff)
  next
    case (Some w)
    with n p d(1) z [OF Some] show ?thesis
      by (auto simp: h1 relink_left_def relink_right_def Let_def fun_eq_iff)
  qed
  ultimately show ?thesis
    using 1 n p relink_left_parents [OF assms(3,2) n(1,3) b] by (intro exI [of _ h1]) (simp add: h1)
qed

theorem rotations_at_root_witness:
  "\<exists>h1. rotate_left (Some 1) None [1 \<mapsto> \<lparr>rb_left = None, rb_right = Some 2, rb_parent = None, color = 0, rb_buf = 0\<rparr>,
       2 \<mapsto> \<lparr>rb_left = Some 3, rb_right = None, rb_parent = Some 1, color = 0, rb_buf = 0\<rparr>,
       3 \<mapsto> \<lparr>rb_left = None, rb_right = None, rb_parent = Some 2, color = 0, rb_buf = 0\<rparr>] = (Ret (Some 2), h1)
    \<and> shape h1 (Some 2) (Node (Node Leaf 1 (Node Leaf 3 Leaf)) 2 Leaf) \<and> rb_parent (the (h1 1)) = None
    \<and> rotate_right (Some 2) None h1 =
       (Ret (Some 1), [1 \<mapsto> \<lparr>rb_left = None, rb_right = Some 2, rb_parent = None, color = 0, rb_buf = 0\<rparr>,
       2 \<mapsto> \<lparr>rb_left = Some 3, rb_right = None, rb_parent = None, color = 0, rb_buf = 0\<rparr>,
       3 \<mapsto> \<lparr>rb_left = None, rb_right = None, rb_parent = Some 2, color = 0, rb_buf = 0\<rparr>])"
proof -
  let ?h = "[(1::nat) \<mapsto> \<lparr>rb_left = None, rb_right = Some 2, rb_parent = None, color = 0, rb_buf = 0\<rparr>,
       2 \<mapsto> \<lparr>rb_left = Some 3, rb_right = None, rb_parent = Some 1, color = 0, rb_buf = 0\<rparr>,
       3 \<mapsto> \<lparr>rb_left = None, rb_right = None, rb_parent = Some 2, color = 0, rb_buf = 0\<rparr>]"
  have u: "?h(2 \<mapsto> (the (?h 2))\<lparr>rb_parent := None\<rparr>) = [1 \<mapsto> \<lparr>rb_left = None, rb_right = Some 2, rb_parent = None, color = 0, rb_buf = 0\<rparr>,
       2 \<mapsto> \<lparr>rb_left = Some 3, rb_right = None, rb_parent = None, color = 0, rb_buf = 0\<rparr>,
       3 \<mapsto> \<lparr>rb_left = None, rb_right = None, rb_parent = Some 2, color = 0, rb_buf = 0\<rparr>]"
    by (auto simp: fun_eq_iff)
  have p: "rb_parent (the (?h 1)) = None" by simp
  have "shape ?h (Some 1) (Node Leaf 1 (Node (Node Leaf 3 Leaf) 2 Leaf))"
    "distinct (inorder (Node Leaf (1::nat) (Node (Node Leaf 3 Leaf) 2 Leaf)))"
    "parents ?h None (Node Leaf 1 (Node (Node Leaf 3 Leaf) 2 Leaf))"
    by simp_all
  from rotations_at_root [OF this, of None, unfolded u p] show ?thesis by blast
qed

text \<open>Below another node the missing assignment costs a subtree: the second left rotation of the same
  node still follows the old parent pointer and overwrites the parent's left child.\<close>

theorem rotate_left_twice_loses_subtree:
  assumes "h p = Some np" "rb_right np = Some x"
    and "h x = Some nx" "rb_parent nx = Some p" "rb_right nx = Some y"
    and "h y = Some ny" "rb_left ny = Some z" "h z = Some nz"
    and "apart h [Some p, Some x, Some y, Some z, rb_left nz]"
  shows "\<exists>h1 h2. rotate_left (Some x) root h = (Ret root, h1) \<and> rotate_left (Some x) root h1 = (Ret root, h2)
    \<and> map_option rb_left (h2 p) = Some (Some z) \<and> map_option rb_right (h2 p) = Some (Some y)
    \<and> map_option rb_left (h2 y) = Some (Some x) \<and> map_option rb_left (h2 z) = Some (Some x)"
proof -
  let ?h1 = "relink_left x y h"
  have "apart h [Some x, Some y, rb_left ny, rb_parent nx]"
    using assms by (auto simp: apart_def)
  from rotate_left_eq [OF assms(3,5,6) this, of root]
  have 1: "rotate_left (Some x) root h = (Ret root, ?h1)" using assms(4) by simp
  have h1: "?h1 x = Some (nx\<lparr>rb_right := Some z\<rparr>)" "?h1 z = Some (nz\<lparr>rb_parent := Some x\<rparr>)"
    "?h1 y = Some (ny\<lparr>rb_left := Some x, rb_parent := Some p\<rparr>)" "?h1 p = Some (np\<lparr>rb_right := Some y\<rparr>)"
    using assms by (auto simp: relink_left_def Let_def apart_def)
  have "apart ?h1 [Some x, Some z, rb_left nz, Some p]"
    using assms h1 by (auto simp: apart_def) (auto simp: relink_left_def Let_def)
  with rotate_left_eq [OF h1(1) _ h1(2), of root]
  have "rotate_left (Some x) root ?h1 = (Ret root, relink_left x z ?h1)"
    using assms(4) by simp
  moreover have "map_option rb_left (relink_left x z ?h1 p) = Some (Some z)
    \<and> map_option rb_right (relink_left x z ?h1 p) = Some (Some y)
    \<and> map_option rb_left (relink_left x z ?h1 y) = Some (Some x)
    \<and> map_option rb_left (relink_left x z ?h1 z) = Some (Some x)"
    unfolding relink_left_def [of x z] using assms h1
    by (cases "rb_left nz") (auto simp: Let_def apart_def)
  ultimately show ?thesis using 1 by blast
qed

theorem rotate_left_twice_loses_subtree_witness:
  "\<exists>h1 h2. rotate_left (Some 2) (Some 1)
      [1 \<mapsto> \<lparr>rb_left = Some 5, rb_right = Some 2, rb_parent = None, color = 0, rb_buf = 0\<rparr>,
       2 \<mapsto> \<lparr>rb_left = None, rb_right = Some 3, rb_parent = Some 1, color = 0, rb_buf = 0\<rparr>,
       3 \<mapsto> \<lparr>rb_left = Some 4, rb_right = None, rb_parent = Some 2, color = 0, rb_buf = 0\<rparr>,
       4 \<mapsto> \<lparr>rb_left = None, rb_right = None, rb_parent = Some 3, color = 0, rb_buf = 0\<rparr>,
       5 \<mapsto> \<lparr>rb_left = None, rb_right = None, rb_parent = Some 1, color = 0, rb_buf = 0\<rparr>] = (Ret (Some 1), h1)
    \<and> rotate_left (Some 2) (Some 1) h1 = (Ret (Some 1), h2)
    \<and> map_option rb_left (h2 1) = Some (Some 4) \<and> map_option rb_right (h2 1) = Some (Some 3)
    \<and> map_option rb_left (h2 3) = Some (Some 2) \<and> map_option rb_left (h2 4) = Some (Some 2)"
  by (rule rotate_left_twice_loses_subtree, (simp add: apart_def)+)

end
