(* ===== verification/Lval.thy ===== *)
theory Lval
  imports CBase
begin

text \<open>
  Lists that are linked through the address of a pointer, as \<open>LIST\<close>, \<open>SIMPLEQ\<close> and \<open>TAILQ\<close> of
  inc/list.h are: a \<open>struct type **\<close> points to the head's first field or to the next field of an
  element (\<open>lval\<close>). A segment of such a list is described through what every lvalue holds (\<open>v\<close>) and
  what every element's back pointer is (\<open>pr\<close>); one lemma covers all insertions, and one all removals.

  The locales are the interfaces of the lists: what every list offers (\<open>linked\<close>), a list with
  insertion behind an element and removal (\<open>edited\<close>), and a queue (\<open>fifo\<close>).
\<close>

type_synonym ptr = "nat option"

datatype lval = First | Next nat

section \<open>Segments\<close>

text \<open>The list \<open>xs\<close> begins in the lvalue \<open>l\<close>; \<open>m\<close> is the lvalue behind it, which holds \<open>q\<close>.\<close>

fun seg :: "(lval \<Rightarrow> ptr option) \<Rightarrow> (nat \<Rightarrow> lval option) \<Rightarrow> lval \<Rightarrow> nat list \<Rightarrow> ptr \<Rightarrow> lval \<Rightarrow> bool" where
  "seg v pr l [] q m \<longleftrightarrow> v l = Some q \<and> m = l"
| "seg v pr l (x # xs) q m \<longleftrightarrow> v l = Some (Some x) \<and> pr x = Some l \<and> seg v pr (Next x) xs q m"

lemma seg_app: "seg v pr l (xs @ ys) q m \<longleftrightarrow> (\<exists>p k. seg v pr l xs p k \<and> seg v pr k ys q m)"
proof (induction xs arbitrary: l)
  case Nil
  then show ?case by (cases ys) auto
qed auto

lemma seg_start: "seg v pr l xs q m \<Longrightarrow> v l = Some (case xs of [] \<Rightarrow> q | x # _ \<Rightarrow> Some x)"
  by (cases xs) auto

lemma seg_end: "seg v pr l xs q m \<Longrightarrow> m = (if xs = [] then l else Next (last xs)) \<and> v m = Some q"
  by (induction xs arbitrary: l) auto

lemma seg_alloc: "seg v pr l xs q m \<Longrightarrow> x \<in> set xs \<Longrightarrow> v (Next x) \<noteq> None \<and> pr x \<noteq> None"
  by (induction xs arbitrary: l) (auto dest: seg_start)

lemma seg_frame:
  "seg v pr l xs q m \<Longrightarrow> \<forall>k \<in> insert l (Next ` set xs). v' k = v k \<Longrightarrow> \<forall>x \<in> set xs. pr' x = pr x \<Longrightarrow>
   seg v' pr' l xs q m"
  by (induction xs arbitrary: l) auto

lemma seg_retarget:
  "seg v pr l xs q m \<Longrightarrow> distinct xs \<Longrightarrow> l \<notin> Next ` set xs \<Longrightarrow> seg (v(m \<mapsto> q')) pr l xs q' m"
proof (induction xs arbitrary: l)
  case (Cons x xs)
  then have "m \<noteq> l" using seg_end [of v pr "Next x" xs q m] by auto
  with Cons show ?case by auto
qed simp

lemma seg_middle:
  "seg v pr l (xs @ x # ys) q m \<Longrightarrow> \<exists>k. pr x = Some k \<and> k = (if xs = [] then l else Next (last xs))
    \<and> v k = Some (Some x) \<and> seg v pr l xs (Some x) k \<and> seg v pr (Next x) ys q m"
  using seg_end by (fastforce simp: seg_app)

text \<open>What the operations do to \<open>v\<close> and \<open>pr\<close>: the element behind the place gets a new back pointer.\<close>

definition back_to :: "nat list \<Rightarrow> lval \<Rightarrow> (nat \<Rightarrow> lval option) \<Rightarrow> nat \<Rightarrow> lval option" where
  "back_to ys k pr = (case ys of [] \<Rightarrow> pr | y # _ \<Rightarrow> pr(y \<mapsto> k))"

lemma back_to_simps [simp]: "back_to [] k pr = pr" "back_to (y # ys) k pr = pr(y \<mapsto> k)"
  by (simp_all add: back_to_def)

lemma last_not_behind: "xs \<noteq> [] \<Longrightarrow> set xs \<inter> set ys = {} \<Longrightarrow> last xs \<notin> set ys"
  using last_in_set by blast

lemma seg_insert:
  assumes "seg v pr First xs p k" "seg v pr k ys q m" "distinct (e # xs @ ys)"
    and "v' = v(Next e := v k, k \<mapsto> Some e)" "pr' = back_to ys (Next e) (pr(e \<mapsto> k))"
  shows "seg v' pr' First (xs @ e # ys) q (if ys = [] then Next e else m)"
proof -
  have k: "k \<noteq> Next e" "k \<notin> Next ` set ys" using seg_end [OF assms(1)] assms(3) last_not_behind [of xs ys] by (auto split: if_splits)
  have pr_xs: "\<forall>x \<in> set xs. pr' x = pr x" using assms(3,5) by (cases ys) auto
  have "seg (v(k \<mapsto> Some e)) pr First xs (Some e) k"
    using assms(3) by (intro seg_retarget [OF assms(1)]) auto
  then have 1: "seg v' pr' First xs (Some e) k"
    using pr_xs assms(3) by (rule_tac seg_frame) (auto simp: assms(4))
  have "seg v' pr' (Next e) ys q (if ys = [] then Next e else m)"
  proof (cases ys)
    case Nil
    with assms(2,4) k show ?thesis by auto
  next
    case (Cons y zs)
    with assms(2) have "seg v pr (Next y) zs q m" by simp
    moreover have "\<forall>j \<in> insert (Next y) (Next ` set zs). v' j = v j" "\<forall>x \<in> set zs. pr' x = pr x"
      using assms(3-5) k Cons by auto
    ultimately have "seg v' pr' (Next y) zs q m" by (rule seg_frame)
    with Cons assms(2,4,5) k show ?thesis by auto
  qed
  moreover have "v' k = Some (Some e)" "pr' e = Some k"
    using assms(3-5) k by (cases ys; auto)+
  ultimately show ?thesis
    using 1 by (auto simp: seg_app)
qed

lemma seg_remove:
  assumes "seg v pr First (xs @ x # ys) q m" "distinct (xs @ x # ys)"
    and "pr x = Some k" "v' = v(k := v (Next x))" "pr' = back_to ys k pr"
  shows "seg v' pr' First (xs @ ys) q (if ys = [] then k else m)"
proof -
  from seg_middle [OF assms(1)] assms(3) have k: "k = (if xs = [] then First else Next (last xs))"
    "seg v pr First xs (Some x) k" "seg v pr (Next x) ys q m" by auto
  have k2: "k \<notin> Next ` set ys" "k \<noteq> Next x" using k(1) assms(2) last_not_behind [of xs ys] by (auto split: if_splits)
  define p where "p = (case ys of [] \<Rightarrow> q | y # _ \<Rightarrow> Some y)"
  have vx: "v (Next x) = Some p" using seg_start [OF k(3)] by (simp add: p_def)
  have "seg (v(k \<mapsto> p)) pr First xs p k"
    using assms(2) by (intro seg_retarget [OF k(2)]) auto
  then have 1: "seg v' pr' First xs p k"
    using assms(2,5) by (rule_tac seg_frame) (cases ys; auto simp: assms(4) vx)+
  have "seg v' pr' k ys q (if ys = [] then k else m)"
  proof (cases ys)
    case Nil
    with assms(4) vx show ?thesis by (simp add: p_def)
  next
    case (Cons y zs)
    with k(3) have "seg v pr (Next y) zs q m" by simp
    moreover have "\<forall>j \<in> insert (Next y) (Next ` set zs). v' j = v j" "\<forall>z \<in> set zs. pr' z = pr z"
      using assms(2,4,5) k2 Cons by auto
    ultimately have "seg v' pr' (Next y) zs q m" by (rule seg_frame)
    with Cons assms(4,5) vx show ?thesis by (simp add: p_def)
  qed
  with 1 show ?thesis unfolding seg_app by blast
qed

section \<open>Traversals\<close>

text \<open>\<open>for (var = first; var; var = next(var))\<close>, with at most \<open>k\<close> rounds; the body collects a value.\<close>

primrec for_ptr :: "nat \<Rightarrow> (nat \<Rightarrow> ('s, ptr) prog) \<Rightarrow> (nat \<Rightarrow> 'v \<Rightarrow> ('s, 'v) prog) \<Rightarrow> ptr \<Rightarrow> 'v \<Rightarrow> ('s, 'v) prog" where
  "for_ptr 0 step body p v = (case p of None \<Rightarrow> sret v | Some x \<Rightarrow> (\<lambda>s. (Wait, s)))"
| "for_ptr (Suc k) step body p v = (case p of
      None \<Rightarrow> sret v
    | Some x \<Rightarrow> sbind (body x v) (\<lambda>v'. sbind (step x) (\<lambda>q. for_ptr k step body q v')))"

text \<open>A body that does not touch the list and a step that follows \<open>xs\<close>.\<close>

definition hd_ptr :: "nat list \<Rightarrow> ptr" where
  "hd_ptr xs = (case xs of [] \<Rightarrow> None | x # _ \<Rightarrow> Some x)"

lemma hd_ptr_simps [simp]: "hd_ptr [] = None" "hd_ptr (x # xs) = Some x"
  by (simp_all add: hd_ptr_def)

lemma for_ptr_visits:
  assumes "\<And>ys x zs. xs = ys @ x # zs \<Longrightarrow> step x s = (Ret (hd_ptr zs), s)"
    and "length xs \<le> k"
  shows "for_ptr k step (\<lambda>x v. sret (f x v)) (hd_ptr xs) v s = (Ret (fold f xs v), s)"
  using assms
proof (induction xs arbitrary: k v)
  case Nil
  then show ?case by (cases k) (simp_all add: sret_def)
next
  case (Cons x xs)
  obtain j where j: "k = Suc j" using Cons.prems(2) by (cases k) auto
  have "step x s = (Ret (hd_ptr xs), s)" using Cons.prems(1) [of "[]" x xs] by simp
  moreover have "for_ptr j step (\<lambda>x v. sret (f x v)) (hd_ptr xs) (f x v) s = (Ret (fold f xs (f x v)), s)"
  proof (rule Cons.IH)
    fix ys y zs assume "xs = ys @ y # zs"
    then show "step y s = (Ret (hd_ptr zs), s)" using Cons.prems(1) [of "x # ys" y zs] by simp
  qed (use Cons.prems(2) j in simp)
  ultimately show ?case by (simp add: j sbind_def sret_def)
qed

section \<open>The interfaces\<close>

primrec do_all :: "(nat \<Rightarrow> ('s, unit) prog) \<Rightarrow> nat list \<Rightarrow> ('s, unit) prog" where
  "do_all f [] = sret ()"
| "do_all f (x # xs) = sseq (f x) (do_all f xs)"

text \<open>
  \<open>ok s xs\<close>: the head of \<open>s\<close> is the list of the elements \<open>xs\<close>; \<open>has s\<close> are the elements that exist.
  An element can be put into a list when it exists and is not in it. \<open>valid\<close> is what the heap has to
  satisfy without its head.
\<close>

locale linked =
  fixes valid :: "'s \<Rightarrow> bool"
    and ok :: "'s \<Rightarrow> nat list \<Rightarrow> bool"
    and has :: "'s \<Rightarrow> nat set"
    and init :: "('s, unit) prog"
    and first :: "'s \<Rightarrow> ptr"
    and next_of :: "nat \<Rightarrow> ('s, ptr) prog"
    and insert_head :: "nat \<Rightarrow> ('s, unit) prog"
  assumes ok_valid: "ok s xs \<Longrightarrow> valid s"
    and ok_elems: "ok s xs \<Longrightarrow> distinct xs \<and> set xs \<subseteq> has s"
    and init_ok: "valid s \<Longrightarrow> \<exists>s'. init s = (Ret (), s') \<and> ok s' [] \<and> has s' = has s"
    and first_ok: "ok s xs \<Longrightarrow> first s = hd_ptr xs"
    and next_ok: "ok s (ys @ x # zs) \<Longrightarrow> next_of x s = (Ret (hd_ptr zs), s)"
    and insert_head_ok: "ok s xs \<Longrightarrow> e \<in> has s \<Longrightarrow> e \<notin> set xs \<Longrightarrow>
      \<exists>s'. insert_head e s = (Ret (), s') \<and> ok s' (e # xs) \<and> has s' = has s"
begin

lemma visits:
  assumes "ok s xs" "length xs \<le> k"
  shows "for_ptr k next_of (\<lambda>x v. sret (f x v)) (first s) v s = (Ret (fold f xs v), s)"
  unfolding first_ok [OF assms(1)]
proof (rule for_ptr_visits [OF _ assms(2)])
  fix ys x zs assume "xs = ys @ x # zs"
  with assms(1) show "next_of x s = (Ret (hd_ptr zs), s)" by (auto intro: next_ok)
qed

lemma insert_head_all:
  assumes "ok s xs" "set es \<subseteq> has s" "distinct es" "set es \<inter> set xs = {}"
  shows "\<exists>s'. do_all insert_head es s = (Ret (), s') \<and> ok s' (rev es @ xs) \<and> has s' = has s"
  using assms
proof (induction es arbitrary: s xs)
  case (Cons e es)
  then obtain s1 where s1: "insert_head e s = (Ret (), s1)" "ok s1 (e # xs)" "has s1 = has s"
    using insert_head_ok [of s xs e] by auto
  with Cons.IH [of s1 "e # xs"] Cons.prems show ?case by (auto simp: sseq_Ret)
qed (simp add: sret_def)

text \<open>A head that is initialised and filled, then traversed: the elements come out in reverse order.\<close>

lemma fill_and_visit:
  assumes "valid s" "set es \<subseteq> has s" "distinct es"
  shows "\<exists>s'. sseq init (do_all insert_head es) s = (Ret (), s')
    \<and> for_ptr (length es) next_of (\<lambda>x v. sret (f x v)) (first s') v s' = (Ret (fold f (rev es) v), s')"
proof -
  obtain s1 where s1: "init s = (Ret (), s1)" "ok s1 []" "has s1 = has s" using init_ok [OF assms(1)] by auto
  with insert_head_all [of s1 "[]" es] assms obtain s2 where
    "do_all insert_head es s1 = (Ret (), s2)" "ok s2 (rev es)" by auto
  with s1 visits [of s2 "rev es" "length es"] show ?thesis by (auto simp: sseq_Ret)
qed

end

locale edited = linked +
  fixes insert_after :: "nat \<Rightarrow> nat \<Rightarrow> ('a, unit) prog"
    and remove :: "nat \<Rightarrow> ('a, unit) prog"
  assumes insert_after_ok: "ok s (ys @ x # zs) \<Longrightarrow> e \<in> has s \<Longrightarrow> e \<notin> set (ys @ x # zs) \<Longrightarrow>
      \<exists>s'. insert_after x e s = (Ret (), s') \<and> ok s' (ys @ x # e # zs) \<and> has s' = has s"
    and remove_ok: "ok s (ys @ x # zs) \<Longrightarrow>
      \<exists>s'. remove x s = (Ret (), s') \<and> ok s' (ys @ zs) \<and> has s' = has s"
begin

lemma remove_all:
  assumes "ok s xs" "distinct es" "set es \<subseteq> set xs"
  shows "\<exists>s'. do_all remove es s = (Ret (), s') \<and> ok s' (filter (\<lambda>x. x \<notin> set es) xs) \<and> has s' = has s"
  using assms
proof (induction es arbitrary: s xs)
  case (Cons e es)
  obtain ys zs where xs: "xs = ys @ e # zs" using Cons.prems(3) by (meson list.set_intros(1) split_list subset_iff)
  with Cons.prems obtain s1 where s1: "remove e s = (Ret (), s1)" "ok s1 (ys @ zs)" "has s1 = has s"
    using remove_ok by blast
  have d: "e \<notin> set ys" "e \<notin> set zs" using ok_elems [OF Cons.prems(1)] xs by auto
  from Cons.prems s1 xs obtain s2 where "do_all remove es s1 = (Ret (), s2)"
    "ok s2 (filter (\<lambda>x. x \<notin> set es) (ys @ zs))" "has s2 = has s"
    using Cons.IH [of s1 "ys @ zs"] by auto
  moreover have "filter (\<lambda>x. x \<noteq> e \<and> x \<notin> set es) ys = filter (\<lambda>x. x \<notin> set es) ys"
    "filter (\<lambda>x. x \<noteq> e \<and> x \<notin> set es) zs = filter (\<lambda>x. x \<notin> set es) zs"
    using d by (auto intro!: filter_cong)
  then have "filter (\<lambda>x. x \<notin> set (e # es)) xs = filter (\<lambda>x. x \<notin> set es) (ys @ zs)"
    by (simp add: xs)
  ultimately show ?case using s1(1) by (auto simp: sseq_Ret)
qed (simp add: sret_def)

text \<open>An insertion behind \<open>x\<close> is undone by the removal of the element.\<close>

lemma insert_after_remove:
  assumes "ok s xs" "x \<in> set xs" "e \<in> has s" "e \<notin> set xs"
  shows "\<exists>s'. sseq (insert_after x e) (remove e) s = (Ret (), s') \<and> ok s' xs"
proof -
  obtain ys zs where xs: "xs = ys @ x # zs" using assms(2) by (meson split_list)
  with assms obtain s1 where s1: "insert_after x e s = (Ret (), s1)" "ok s1 (ys @ x # e # zs)"
    using insert_after_ok by blast
  with remove_ok [of s1 "ys @ [x]" e zs] xs show ?thesis by (auto simp: sseq_Ret)
qed

end

locale fifo = linked +
  fixes insert_tail :: "nat \<Rightarrow> ('a, unit) prog"
  assumes insert_tail_ok: "ok s xs \<Longrightarrow> e \<in> has s \<Longrightarrow> e \<notin> set xs \<Longrightarrow>
      \<exists>s'. insert_tail e s = (Ret (), s') \<and> ok s' (xs @ [e]) \<and> has s' = has s"
begin

lemma insert_tail_all:
  assumes "ok s xs" "set es \<subseteq> has s" "distinct es" "set es \<inter> set xs = {}"
  shows "\<exists>s'. do_all insert_tail es s = (Ret (), s') \<and> ok s' (xs @ es) \<and> has s' = has s"
  using assms
proof (induction es arbitrary: s xs)
  case (Cons e es)
  then obtain s1 where s1: "insert_tail e s = (Ret (), s1)" "ok s1 (xs @ [e])" "has s1 = has s"
    using insert_tail_ok [of s xs e] by auto
  with Cons.IH [of s1 "xs @ [e]"] Cons.prems show ?case by (auto simp: sseq_Ret)
qed (simp add: sret_def)

text \<open>A head that is initialised and filled at the tail, then traversed: first in, first out.\<close>

lemma queue_and_visit:
  assumes "valid s" "set es \<subseteq> has s" "distinct es"
  shows "\<exists>s'. sseq init (do_all insert_tail es) s = (Ret (), s') \<and> ok s' es \<and> has s' = has s
    \<and> for_ptr (length es) next_of (\<lambda>x v. sret (f x v)) (first s') v s' = (Ret (fold f es v), s')"
proof -
  obtain s1 where s1: "init s = (Ret (), s1)" "ok s1 []" "has s1 = has s" using init_ok [OF assms(1)] by auto
  with insert_tail_all [of s1 "[]" es] assms obtain s2 where
    s2: "do_all insert_tail es s1 = (Ret (), s2)" "ok s2 es" "has s2 = has s" by auto
  with s1 visits [of s2 es "length es"] show ?thesis by (auto simp: sseq_Ret)
qed

end

end
