(* ===== verification/ListQueue.thy ===== *)
theory ListQueue
  imports Lval
begin

text \<open>
  The doubly-linked lists of inc/list.h (\<open>LIST\<close>): the head is a pointer, and every element has the
  address of the next field (or of the head) that points to it.
\<close>

record list_entry =
  le_next :: ptr
  le_prev :: lval

record list_head =
  lh_first :: ptr
  ls_cells :: "nat \<Rightarrow> list_entry option"

section \<open>Access through pointers\<close>

definition ls_val :: "list_head \<Rightarrow> lval \<Rightarrow> ptr option" where
  "ls_val s l = (case l of First \<Rightarrow> Some (lh_first s) | Next x \<Rightarrow> map_option le_next (ls_cells s x))"

definition ls_back :: "list_head \<Rightarrow> nat \<Rightarrow> lval option" where
  "ls_back s x = map_option le_prev (ls_cells s x)"

definition ls_load :: "lval \<Rightarrow> (list_head, ptr) prog" where
  "ls_load l s = (case ls_val s l of None \<Rightarrow> (Fault, s) | Some p \<Rightarrow> (Ret p, s))"

definition ls_put_next :: "nat \<Rightarrow> ptr \<Rightarrow> list_head \<Rightarrow> list_head" where
  "ls_put_next x p s = s\<lparr>ls_cells := (ls_cells s)(x := map_option (\<lambda>n. n\<lparr>le_next := p\<rparr>) (ls_cells s x))\<rparr>"

definition ls_put_prev :: "nat \<Rightarrow> lval \<Rightarrow> list_head \<Rightarrow> list_head" where
  "ls_put_prev x l s = s\<lparr>ls_cells := (ls_cells s)(x := map_option (\<lambda>n. n\<lparr>le_prev := l\<rparr>) (ls_cells s x))\<rparr>"

definition ls_put_first :: "ptr \<Rightarrow> list_head \<Rightarrow> list_head" where
  "ls_put_first p s = s\<lparr>lh_first := p\<rparr>"

definition ls_store :: "lval \<Rightarrow> ptr \<Rightarrow> (list_head, unit) prog" where
  "ls_store l p s = (case l of
      First \<Rightarrow> (Ret (), ls_put_first p s)
    | Next x \<Rightarrow> if ls_cells s x = None then (Fault, s) else (Ret (), ls_put_next x p s))"

definition ls_set_prev :: "ptr \<Rightarrow> lval \<Rightarrow> (list_head, unit) prog" where
  "ls_set_prev p l s = (case p of
      None \<Rightarrow> (Fault, s)
    | Some x \<Rightarrow> if ls_cells s x = None then (Fault, s) else (Ret (), ls_put_prev x l s))"

definition ls_prev :: "nat \<Rightarrow> (list_head, lval) prog" where
  "ls_prev x s = (case ls_back s x of None \<Rightarrow> (Fault, s) | Some l \<Rightarrow> (Ret l, s))"

section \<open>The macros\<close>

definition LIST_INIT :: "(list_head, unit) prog" where
  "LIST_INIT = smod (ls_put_first None)"

definition LIST_HEAD_INITIALIZER :: "(nat \<Rightarrow> list_entry option) \<Rightarrow> list_head" where
  "LIST_HEAD_INITIALIZER cs = \<lparr>lh_first = None, ls_cells = cs\<rparr>"

lemma LIST_is_initializer: "LIST_INIT s = (Ret (), LIST_HEAD_INITIALIZER (ls_cells s))"
  by (simp add: LIST_INIT_def LIST_HEAD_INITIALIZER_def ls_put_first_def smod_def)

definition LIST_EMPTY :: "list_head \<Rightarrow> bool" where
  "LIST_EMPTY s \<longleftrightarrow> lh_first s = None"

definition LIST_FIRST :: "list_head \<Rightarrow> ptr" where
  "LIST_FIRST s = lh_first s"

definition LIST_NEXT :: "nat \<Rightarrow> (list_head, ptr) prog" where
  "LIST_NEXT elm = ls_load (Next elm)"

definition LIST_INSERT_AFTER :: "nat \<Rightarrow> nat \<Rightarrow> (list_head, unit) prog" where
  "LIST_INSERT_AFTER listelm elm =
     sbind (LIST_NEXT listelm) (\<lambda>p.
     sseq (ls_store (Next elm) p)
     (sseq (if p \<noteq> None then sbind (LIST_NEXT listelm) (\<lambda>q. ls_set_prev q (Next elm)) else sret ())
     (sseq (ls_store (Next listelm) (Some elm))
        (ls_set_prev (Some elm) (Next listelm)))))"

definition LIST_INSERT_BEFORE :: "nat \<Rightarrow> nat \<Rightarrow> (list_head, unit) prog" where
  "LIST_INSERT_BEFORE listelm elm =
     sseq (sbind (ls_prev listelm) (ls_set_prev (Some elm)))
     (sseq (ls_store (Next elm) (Some listelm))
     (sseq (sbind (ls_prev listelm) (\<lambda>l. ls_store l (Some elm)))
        (ls_set_prev (Some listelm) (Next elm))))"

definition LIST_INSERT_HEAD :: "nat \<Rightarrow> (list_head, unit) prog" where
  "LIST_INSERT_HEAD elm =
     sbind (sget lh_first) (\<lambda>p.
     sseq (ls_store (Next elm) p)
     (sseq (if p \<noteq> None then sbind (sget lh_first) (\<lambda>q. ls_set_prev q (Next elm)) else sret ())
     (sseq (smod (ls_put_first (Some elm)))
        (ls_set_prev (Some elm) First))))"

definition LIST_REMOVE :: "nat \<Rightarrow> (list_head, unit) prog" where
  "LIST_REMOVE elm =
     sseq (sbind (LIST_NEXT elm) (\<lambda>p.
            if p \<noteq> None then sbind (LIST_NEXT elm) (\<lambda>q. sbind (ls_prev elm) (ls_set_prev q)) else sret ()))
       (sbind (ls_prev elm) (\<lambda>l. sbind (LIST_NEXT elm) (ls_store l)))"

definition LIST_FOREACH ::
  "nat \<Rightarrow> (nat \<Rightarrow> 'v \<Rightarrow> (list_head, 'v) prog) \<Rightarrow> 'v \<Rightarrow> (list_head, 'v) prog" where
  "LIST_FOREACH k body v = sbind (sget LIST_FIRST) (\<lambda>p. for_ptr k LIST_NEXT body p v)"

section \<open>Projections\<close>

lemma ls_put_cells [simp]:
  "ls_cells (ls_put_first p s) = ls_cells s"
  "dom (ls_cells (ls_put_next x p s)) = dom (ls_cells s)"
  "dom (ls_cells (ls_put_prev x l s)) = dom (ls_cells s)"
  "ls_cells (ls_put_next x p s) y = None \<longleftrightarrow> ls_cells s y = None"
  "ls_cells (ls_put_prev x l s) y = None \<longleftrightarrow> ls_cells s y = None"
  by (auto simp: ls_put_first_def ls_put_next_def ls_put_prev_def split: if_splits)

lemma ls_put_head [simp]:
  "lh_first (ls_put_first p s) = p"
  "lh_first (ls_put_next x p s) = lh_first s" "lh_first (ls_put_prev x l s) = lh_first s"
  by (simp_all add: ls_put_first_def ls_put_next_def ls_put_prev_def)

lemma ls_val_put [simp]:
  "ls_val (ls_put_first p s) = (ls_val s)(First \<mapsto> p)"
  "x \<in> dom (ls_cells s) \<Longrightarrow> ls_val (ls_put_next x p s) = (ls_val s)(Next x \<mapsto> p)"
  "ls_val (ls_put_prev x l s) = ls_val s"
  by (auto simp: ls_val_def ls_put_first_def ls_put_next_def ls_put_prev_def fun_eq_iff
      option.map_comp comp_def split: lval.split)

lemma ls_back_put [simp]:
  "ls_back (ls_put_first p s) = ls_back s" "ls_back (ls_put_next x p s) = ls_back s"
  "x \<in> dom (ls_cells s) \<Longrightarrow> ls_back (ls_put_prev x l s) = (ls_back s)(x \<mapsto> l)"
  by (auto simp: ls_back_def ls_put_first_def ls_put_next_def ls_put_prev_def fun_eq_iff
      option.map_comp comp_def)

lemma ls_val_simps [simp]:
  "ls_val s First = Some (lh_first s)"
  "ls_val s (Next x) = None \<longleftrightarrow> x \<notin> dom (ls_cells s)"
  "ls_back s x = None \<longleftrightarrow> x \<notin> dom (ls_cells s)"
  by (auto simp: ls_val_def ls_back_def)

lemma ls_access:
  "ls_val s l = Some p \<Longrightarrow> ls_load l s = (Ret p, s)"
  "ls_back s x = Some l \<Longrightarrow> ls_prev x s = (Ret l, s)"
  "x \<in> dom (ls_cells s) \<Longrightarrow> ls_store (Next x) p s = (Ret (), ls_put_next x p s)"
  "ls_store First p s = (Ret (), ls_put_first p s)"
  "x \<in> dom (ls_cells s) \<Longrightarrow> ls_set_prev (Some x) l s = (Ret (), ls_put_prev x l s)"
  by (auto simp: ls_load_def ls_prev_def ls_store_def ls_set_prev_def)

lemmas ls_run = sseq_def sbind_def smod_def sget_def sret_def ls_access LIST_NEXT_def

section \<open>The operations on the list\<close>

definition list_ok :: "list_head \<Rightarrow> nat list \<Rightarrow> bool" where
  "list_ok s xs \<longleftrightarrow> (\<exists>m. seg (ls_val s) (ls_back s) First xs None m) \<and> distinct xs"

lemma list_ok_dom: "list_ok s xs \<Longrightarrow> set xs \<subseteq> dom (ls_cells s)"
  unfolding list_ok_def using seg_alloc by (metis subsetI ls_val_simps(3))

lemma list_inserted:
  assumes "list_ok s (xs @ ys)" "e \<notin> set (xs @ ys)"
    and "ls_val s' = (ls_val s)(Next e := ls_val s k, k \<mapsto> Some e)"
    and "ls_back s' = back_to ys (Next e) ((ls_back s)(e \<mapsto> k))"
    and "k = (if xs = [] then First else Next (last xs))"
  shows "list_ok s' (xs @ e # ys)"
proof -
  obtain p k' m where "seg (ls_val s) (ls_back s) First xs p k'" "seg (ls_val s) (ls_back s) k' ys None m"
    using assms(1) unfolding list_ok_def seg_app by blast
  moreover from seg_end [OF this(1)] assms(5) have "k' = k" by simp
  ultimately show ?thesis
    using seg_insert [of "ls_val s" "ls_back s" xs p k ys None m e "ls_val s'" "ls_back s'"] assms
    unfolding list_ok_def by auto
qed

lemma list_place:
  assumes "list_ok s (xs @ ys)"
  shows "ls_val s (if xs = [] then First else Next (last xs)) = Some (hd_ptr ys)"
proof -
  obtain p k m where k: "seg (ls_val s) (ls_back s) First xs p k" "seg (ls_val s) (ls_back s) k ys None m"
    using assms unfolding list_ok_def seg_app by blast
  from seg_end [OF k(1)] seg_start [OF k(2)] show ?thesis by (simp add: hd_ptr_def)
qed

lemma list_back:
  assumes "list_ok s (xs @ x # ys)"
  shows "ls_back s x = Some (if xs = [] then First else Next (last xs))"
proof -
  obtain m where "seg (ls_val s) (ls_back s) First (xs @ x # ys) None m"
    using assms unfolding list_ok_def by blast
  from seg_middle [OF this] show ?thesis by auto
qed

lemma LIST_INSERT_HEAD_ok:
  assumes "list_ok s xs" "e \<in> dom (ls_cells s)" "e \<notin> set xs"
  shows "\<exists>s'. LIST_INSERT_HEAD e s = (Ret (), s') \<and> list_ok s' (e # xs)
    \<and> dom (ls_cells s') = dom (ls_cells s)"
proof -
  have f: "lh_first s = hd_ptr xs" using list_place [of s "[]" xs] assms(1) by simp
  have d: "set xs \<subseteq> dom (ls_cells s)" by (rule list_ok_dom [OF assms(1)])
  have "\<exists>s'. LIST_INSERT_HEAD e s = (Ret (), s')
    \<and> ls_val s' = (ls_val s)(Next e := ls_val s First, First \<mapsto> Some e)
    \<and> ls_back s' = back_to xs (Next e) ((ls_back s)(e \<mapsto> First))
    \<and> dom (ls_cells s') = dom (ls_cells s)"
    using f d assms(2,3)
    by (cases xs) (auto simp: LIST_INSERT_HEAD_def ls_run fun_upd_twist simp del: domIff)
  with list_inserted [of s "[]" xs e _ First] assms show ?thesis by auto
qed

lemma LIST_INSERT_AFTER_ok:
  assumes "list_ok s (xs @ x # ys)" "e \<in> dom (ls_cells s)" "e \<notin> set (xs @ x # ys)"
  shows "\<exists>s'. LIST_INSERT_AFTER x e s = (Ret (), s') \<and> list_ok s' (xs @ x # e # ys)
    \<and> dom (ls_cells s') = dom (ls_cells s)"
proof -
  have v: "ls_val s (Next x) = Some (hd_ptr ys)" using list_place [of s "xs @ [x]" ys] assms(1) by simp
  have d: "insert x (set ys) \<subseteq> dom (ls_cells s)" using list_ok_dom [OF assms(1)] by (simp del: domIff)
  have ne: "x \<noteq> e" "x \<notin> set ys" "e \<notin> set ys" using assms(1,3) by (auto simp: list_ok_def)
  have "\<exists>s'. LIST_INSERT_AFTER x e s = (Ret (), s')
    \<and> ls_val s' = (ls_val s)(Next e := ls_val s (Next x), Next x \<mapsto> Some e)
    \<and> ls_back s' = back_to ys (Next e) ((ls_back s)(e \<mapsto> Next x))
    \<and> dom (ls_cells s') = dom (ls_cells s)"
  proof (cases ys)
    case Nil
    with v d assms(2) ne show ?thesis
      by (simp add: LIST_INSERT_AFTER_def ls_run del: domIff)
  next
    case (Cons y zs)
    with v d assms(2) ne have "LIST_INSERT_AFTER x e s = (Ret (), ls_put_prev e (Next x) (ls_put_next x (Some e)
        (ls_put_prev y (Next e) (ls_put_next e (Some y) s))))"
      by (simp add: LIST_INSERT_AFTER_def ls_run del: domIff)
    with Cons v d assms(2) ne show ?thesis by (simp add: fun_upd_twist del: domIff)
  qed
  then obtain s' where s': "LIST_INSERT_AFTER x e s = (Ret (), s')"
    "ls_val s' = (ls_val s)(Next e := ls_val s (Next x), Next x \<mapsto> Some e)"
    "ls_back s' = back_to ys (Next e) ((ls_back s)(e \<mapsto> Next x))" "dom (ls_cells s') = dom (ls_cells s)"
    by blast
  have "list_ok s' ((xs @ [x]) @ e # ys)"
    using assms(1,3) by (intro list_inserted [OF _ _ s'(2,3)]) simp_all
  with s' show ?thesis by auto
qed

lemma LIST_INSERT_BEFORE_ok:
  assumes "list_ok s (xs @ x # ys)" "e \<in> dom (ls_cells s)" "e \<notin> set (xs @ x # ys)"
  shows "\<exists>s'. LIST_INSERT_BEFORE x e s = (Ret (), s') \<and> list_ok s' (xs @ e # x # ys)
    \<and> dom (ls_cells s') = dom (ls_cells s)"
proof -
  define k where "k = (if xs = [] then First else Next (last xs))"
  have v: "ls_val s k = Some (Some x)" using list_place [of s xs "x # ys"] assms(1) by (simp add: k_def)
  have b: "ls_back s x = Some k" using list_back [OF assms(1)] by (simp add: k_def)
  have d: "x \<in> dom (ls_cells s)" "xs \<noteq> [] \<Longrightarrow> last xs \<in> dom (ls_cells s)"
    using list_ok_dom [OF assms(1)] by (auto simp del: domIff dest: last_in_set)
  have ne: "x \<noteq> e" "xs \<noteq> [] \<Longrightarrow> last xs \<noteq> e" using assms(3) last_in_set [of xs] by auto
  have "\<exists>s'. LIST_INSERT_BEFORE x e s = (Ret (), s')
    \<and> ls_val s' = (ls_val s)(Next e := ls_val s k, k \<mapsto> Some e)
    \<and> ls_back s' = back_to (x # ys) (Next e) ((ls_back s)(e \<mapsto> k))
    \<and> dom (ls_cells s') = dom (ls_cells s)"
    using v b d assms(2) ne
    by (cases "xs = []") (auto simp: LIST_INSERT_BEFORE_def ls_run fun_upd_twist k_def simp del: domIff)
  with list_inserted [of s xs "x # ys" e _ k] assms show ?thesis by (auto simp: k_def)
qed

lemma LIST_REMOVE_ok:
  assumes "list_ok s (xs @ x # ys)"
  shows "\<exists>s'. LIST_REMOVE x s = (Ret (), s') \<and> list_ok s' (xs @ ys)
    \<and> dom (ls_cells s') = dom (ls_cells s)"
proof -
  define k where "k = (if xs = [] then First else Next (last xs))"
  obtain m where s: "seg (ls_val s) (ls_back s) First (xs @ x # ys) None m" "distinct (xs @ x # ys)"
    using assms unfolding list_ok_def by blast
  have v: "ls_val s (Next x) = Some (hd_ptr ys)" using list_place [of s "xs @ [x]" ys] assms(1) by simp
  have b: "ls_back s x = Some k" using list_back [OF assms(1)] by (simp add: k_def)
  have d: "insert x (set ys) \<subseteq> dom (ls_cells s)" "xs \<noteq> [] \<Longrightarrow> last xs \<in> dom (ls_cells s)"
    using list_ok_dom [OF assms(1)] by (auto simp del: domIff dest: last_in_set)
  have "\<exists>s'. LIST_REMOVE x s = (Ret (), s')
    \<and> ls_val s' = (ls_val s)(k := ls_val s (Next x)) \<and> ls_back s' = back_to ys k (ls_back s)
    \<and> dom (ls_cells s') = dom (ls_cells s)"
    using v b d s(2)
    by (cases "xs = []"; cases ys) (auto simp: LIST_REMOVE_def ls_run fun_upd_twist k_def simp del: domIff)
  then obtain s' where s': "LIST_REMOVE x s = (Ret (), s')"
    "ls_val s' = (ls_val s)(k := ls_val s (Next x))" "ls_back s' = back_to ys k (ls_back s)"
    "dom (ls_cells s') = dom (ls_cells s)"
    by blast
  from seg_remove [OF s b s'(2,3)] s(2) have "list_ok s' (xs @ ys)"
    unfolding list_ok_def by auto
  with s' show ?thesis by blast
qed

lemma LIST_NEXT_ok: "list_ok s (xs @ x # ys) \<Longrightarrow> LIST_NEXT x s = (Ret (hd_ptr ys), s)"
  using list_place [of s "xs @ [x]" ys] by (simp add: LIST_NEXT_def ls_access)

interpretation LIST: linked "\<lambda>_. True" list_ok "\<lambda>s. dom (ls_cells s)" LIST_INIT LIST_FIRST
  LIST_NEXT LIST_INSERT_HEAD
proof unfold_locales
  show "LIST_FIRST s = hd_ptr xs" if "list_ok s xs" for s xs
    using list_place [of s "[]" xs] that by (simp add: LIST_FIRST_def)
  show "\<exists>s'. LIST_INIT s = (Ret (), s') \<and> list_ok s' [] \<and> dom (ls_cells s') = dom (ls_cells s)" for s
    by (simp add: LIST_INIT_def smod_def list_ok_def)
  show "distinct xs \<and> set xs \<subseteq> dom (ls_cells s)" if "list_ok s xs" for s xs
    using list_ok_dom [OF that] that by (simp add: list_ok_def)
qed (simp_all add: LIST_INSERT_HEAD_ok LIST_NEXT_ok del: domIff)

interpretation LIST: edited "\<lambda>_. True" list_ok "\<lambda>s. dom (ls_cells s)" LIST_INIT LIST_FIRST
  LIST_NEXT LIST_INSERT_HEAD LIST_INSERT_AFTER LIST_REMOVE
  by unfold_locales (simp_all add: LIST_INSERT_AFTER_ok LIST_REMOVE_ok del: domIff)

lemma LIST_FOREACH_ok:
  "list_ok s xs \<Longrightarrow> length xs \<le> k \<Longrightarrow> LIST_FOREACH k (\<lambda>x v. sret (f x v)) v s = (Ret (fold f xs v), s)"
  using LIST.visits [of s xs k f v] by (simp add: LIST_FOREACH_def sbind_def sget_def)

text \<open>Any set of elements can be taken out, in any order, without touching the head's list otherwise.\<close>

text \<open>
  C28: LIST_REMOVE of any elements in any order leaves the others in their order, as
  LIST_FOREACH visits them.
\<close>

theorem list_remove_any:
  assumes "list_ok s xs" "distinct es" "set es \<subseteq> set xs" "length xs \<le> k"
  shows "\<exists>s'. do_all LIST_REMOVE es s = (Ret (), s')
    \<and> LIST_FOREACH k (\<lambda>x v. sret (v @ [x])) [] s' = (Ret (filter (\<lambda>x. x \<notin> set es) xs), s')"
proof -
  obtain s' where s': "do_all LIST_REMOVE es s = (Ret (), s')" "list_ok s' (filter (\<lambda>x. x \<notin> set es) xs)"
    using LIST.remove_all [OF assms(1-3)] by blast
  have "fold (\<lambda>x v. v @ [x]) ys zs = zs @ ys" for ys zs :: "nat list"
    by (induction ys arbitrary: zs) simp_all
  with s' LIST_FOREACH_ok [OF s'(2), of k "\<lambda>x v. v @ [x]" "[]"] assms(4) show ?thesis
    by (auto intro: order_trans [OF length_filter_le])
qed

theorem list_remove_any_witness:
  "\<exists>s'. do_all LIST_REMOVE [3, 1] \<lparr>lh_first = Some 1, ls_cells =
      [1 \<mapsto> \<lparr>le_next = Some 2, le_prev = First\<rparr>, 2 \<mapsto> \<lparr>le_next = Some 3, le_prev = Next 1\<rparr>,
       3 \<mapsto> \<lparr>le_next = None, le_prev = Next 2\<rparr>]\<rparr> = (Ret (), s')
    \<and> LIST_FOREACH 3 (\<lambda>x v. sret (v @ [x])) [] s' = (Ret [2], s')"
  using list_remove_any [of "\<lparr>lh_first = Some 1, ls_cells =
      [1 \<mapsto> \<lparr>le_next = Some 2, le_prev = First\<rparr>, 2 \<mapsto> \<lparr>le_next = Some 3, le_prev = Next 1\<rparr>,
       3 \<mapsto> \<lparr>le_next = None, le_prev = Next 2\<rparr>]\<rparr>" "[1, 2, 3]" "[3, 1]" 3]
  by (simp add: list_ok_def ls_val_def ls_back_def)

theorem list_operations:
  assumes "list_ok s (xs @ x # ys)" "e \<in> dom (ls_cells s)" "e \<notin> set (xs @ x # ys)"
  shows "(\<exists>s'. LIST_INSERT_HEAD e s = (Ret (), s') \<and> list_ok s' (e # xs @ x # ys))
    \<and> (\<exists>s'. LIST_INSERT_AFTER x e s = (Ret (), s') \<and> list_ok s' (xs @ x # e # ys))
    \<and> (\<exists>s'. LIST_INSERT_BEFORE x e s = (Ret (), s') \<and> list_ok s' (xs @ e # x # ys))
    \<and> (\<exists>s'. LIST_REMOVE x s = (Ret (), s') \<and> list_ok s' (xs @ ys))
    \<and> LIST_NEXT x s = (Ret (hd_ptr ys), s)"
  using LIST_INSERT_HEAD_ok [OF assms] LIST_INSERT_AFTER_ok [OF assms]
    LIST_INSERT_BEFORE_ok [OF assms] LIST_REMOVE_ok [OF assms(1)] LIST_NEXT_ok [OF assms(1)]
  by blast

end
