(* ===== verification/SimpleQueue.thy ===== *)
theory SimpleQueue
  imports Lval
begin

text \<open>
  The simple queues of inc/list.h (\<open>SIMPLEQ\<close>): singly linked, with the address of the last next field
  in the head. There are no back pointers; \<open>simpleq_ok\<close> supplies them to describe the list.
\<close>

record simpleq_entry =
  sqe_next :: ptr

record simpleq_head =
  sqh_first :: ptr
  sqh_last :: lval
  sq_cells :: "nat \<Rightarrow> simpleq_entry option"

section \<open>Access through pointers\<close>

definition sq_val :: "simpleq_head \<Rightarrow> lval \<Rightarrow> ptr option" where
  "sq_val s l = (case l of First \<Rightarrow> Some (sqh_first s) | Next x \<Rightarrow> map_option sqe_next (sq_cells s x))"

definition sq_load :: "lval \<Rightarrow> (simpleq_head, ptr) prog" where
  "sq_load l s = (case sq_val s l of None \<Rightarrow> (Fault, s) | Some p \<Rightarrow> (Ret p, s))"

definition sq_put :: "lval \<Rightarrow> ptr \<Rightarrow> simpleq_head \<Rightarrow> simpleq_head" where
  "sq_put l p s = (case l of
      First \<Rightarrow> s\<lparr>sqh_first := p\<rparr>
    | Next x \<Rightarrow> s\<lparr>sq_cells := (sq_cells s)(x := map_option (\<lambda>n. n\<lparr>sqe_next := p\<rparr>) (sq_cells s x))\<rparr>)"

definition sq_put_last :: "lval \<Rightarrow> simpleq_head \<Rightarrow> simpleq_head" where
  "sq_put_last l s = s\<lparr>sqh_last := l\<rparr>"

definition sq_store :: "lval \<Rightarrow> ptr \<Rightarrow> (simpleq_head, unit) prog" where
  "sq_store l p s = (if sq_val s l = None then (Fault, s) else (Ret (), sq_put l p s))"

section \<open>The macros\<close>

definition SIMPLEQ_INIT :: "(simpleq_head, unit) prog" where
  "SIMPLEQ_INIT = sseq (sq_store First None) (smod (sq_put_last First))"

definition SIMPLEQ_HEAD_INITIALIZER :: "(nat \<Rightarrow> simpleq_entry option) \<Rightarrow> simpleq_head" where
  "SIMPLEQ_HEAD_INITIALIZER cs = \<lparr>sqh_first = None, sqh_last = First, sq_cells = cs\<rparr>"

lemma SIMPLEQ_is_initializer: "SIMPLEQ_INIT s = (Ret (), SIMPLEQ_HEAD_INITIALIZER (sq_cells s))"
  by (simp add: SIMPLEQ_INIT_def SIMPLEQ_HEAD_INITIALIZER_def sq_store_def sq_val_def sq_put_def sq_put_last_def smod_def sseq_def sbind_def)

definition SIMPLEQ_EMPTY :: "simpleq_head \<Rightarrow> bool" where
  "SIMPLEQ_EMPTY s \<longleftrightarrow> sqh_first s = None"

definition SIMPLEQ_FIRST :: "simpleq_head \<Rightarrow> ptr" where
  "SIMPLEQ_FIRST s = sqh_first s"

definition SIMPLEQ_NEXT :: "nat \<Rightarrow> (simpleq_head, ptr) prog" where
  "SIMPLEQ_NEXT elm = sq_load (Next elm)"

definition SIMPLEQ_INSERT_HEAD :: "nat \<Rightarrow> (simpleq_head, unit) prog" where
  "SIMPLEQ_INSERT_HEAD elm =
     sbind (sget sqh_first) (\<lambda>p.
     sseq (sq_store (Next elm) p)
     (sseq (if p = None then smod (sq_put_last (Next elm)) else sret ())
        (sq_store First (Some elm))))"

definition SIMPLEQ_INSERT_TAIL :: "nat \<Rightarrow> (simpleq_head, unit) prog" where
  "SIMPLEQ_INSERT_TAIL elm =
     sseq (sq_store (Next elm) None)
     (sseq (sbind (sget sqh_last) (\<lambda>l. sq_store l (Some elm)))
        (smod (sq_put_last (Next elm))))"

definition SIMPLEQ_INSERT_AFTER :: "nat \<Rightarrow> nat \<Rightarrow> (simpleq_head, unit) prog" where
  "SIMPLEQ_INSERT_AFTER listelm elm =
     sbind (SIMPLEQ_NEXT listelm) (\<lambda>p.
     sseq (sq_store (Next elm) p)
     (sseq (if p = None then smod (sq_put_last (Next elm)) else sret ())
        (sq_store (Next listelm) (Some elm))))"

definition SIMPLEQ_REMOVE_HEAD :: "nat \<Rightarrow> (simpleq_head, unit) prog" where
  "SIMPLEQ_REMOVE_HEAD elm =
     sbind (SIMPLEQ_NEXT elm) (\<lambda>p.
     sseq (sq_store First p)
       (if p = None then smod (sq_put_last First) else sret ()))"

definition SIMPLEQ_FOREACH ::
  "nat \<Rightarrow> (nat \<Rightarrow> 'v \<Rightarrow> (simpleq_head, 'v) prog) \<Rightarrow> 'v \<Rightarrow> (simpleq_head, 'v) prog" where
  "SIMPLEQ_FOREACH k body v = sbind (sget SIMPLEQ_FIRST) (\<lambda>p. for_ptr k SIMPLEQ_NEXT body p v)"

section \<open>Projections\<close>

lemma sq_val_simps [simp]:
  "sq_val s First = Some (sqh_first s)"
  "sq_val s (Next x) = None \<longleftrightarrow> x \<notin> dom (sq_cells s)"
  "sqh_last (sq_put l p s) = sqh_last s" "sqh_last (sq_put_last l s) = l"
  "sq_val (sq_put_last l s) = sq_val s"
  "dom (sq_cells (sq_put l p s)) = dom (sq_cells s)" "dom (sq_cells (sq_put_last l s)) = dom (sq_cells s)"
  by (auto simp: sq_val_def sq_put_def sq_put_last_def fun_eq_iff split: lval.split if_splits)

lemma sq_val_put [simp]: "sq_val s l \<noteq> None \<Longrightarrow> sq_val (sq_put l p s) = (sq_val s)(l \<mapsto> p)"
  by (auto simp: sq_val_def sq_put_def fun_eq_iff split: lval.splits)

lemma sq_access:
  "sq_val s l = Some p \<Longrightarrow> sq_load l s = (Ret p, s)"
  "sq_val s l \<noteq> None \<Longrightarrow> sq_store l p s = (Ret (), sq_put l p s)"
  by (auto simp: sq_load_def sq_store_def)

lemmas sq_run = sseq_def sbind_def smod_def sget_def sret_def sq_access SIMPLEQ_NEXT_def

section \<open>The operations on the list\<close>

definition simpleq_ok :: "simpleq_head \<Rightarrow> nat list \<Rightarrow> bool" where
  "simpleq_ok s xs \<longleftrightarrow> (\<exists>pr. seg (sq_val s) pr First xs None (sqh_last s)) \<and> distinct xs"

lemma simpleq_ok_dom: "simpleq_ok s xs \<Longrightarrow> set xs \<subseteq> dom (sq_cells s)"
  unfolding simpleq_ok_def using seg_alloc by (metis subsetI sq_val_simps(2))

lemma simpleq_inserted:
  assumes "simpleq_ok s (xs @ ys)" "e \<notin> set (xs @ ys)"
    and "sq_val s' = (sq_val s)(Next e := sq_val s k, k \<mapsto> Some e)"
    and "k = (if xs = [] then First else Next (last xs))"
    and "sqh_last s' = (if ys = [] then Next e else sqh_last s)"
  shows "simpleq_ok s' (xs @ e # ys)"
proof -
  obtain pr p k' where "seg (sq_val s) pr First xs p k'" "seg (sq_val s) pr k' ys None (sqh_last s)"
    using assms(1) unfolding simpleq_ok_def seg_app by blast
  moreover from seg_end [OF this(1)] assms(4) have "k' = k" by simp
  ultimately show ?thesis
    using seg_insert [of "sq_val s" pr xs p k ys None "sqh_last s" e "sq_val s'" _, OF _ _ _ assms(3) refl]
      assms(1,2,5) unfolding simpleq_ok_def by auto
qed

lemma simpleq_place:
  assumes "simpleq_ok s (xs @ ys)"
  shows "sq_val s (if xs = [] then First else Next (last xs)) = Some (hd_ptr ys)"
proof -
  obtain pr p k where k: "seg (sq_val s) pr First xs p k" "seg (sq_val s) pr k ys None (sqh_last s)"
    using assms unfolding simpleq_ok_def seg_app by blast
  from seg_end [OF k(1)] seg_start [OF k(2)] show ?thesis by (simp add: hd_ptr_def)
qed

lemma simpleq_last: "simpleq_ok s xs \<Longrightarrow> sqh_last s = (if xs = [] then First else Next (last xs))"
  unfolding simpleq_ok_def using seg_end by blast

lemma SIMPLEQ_INSERT_HEAD_ok:
  assumes "simpleq_ok s xs" "e \<in> dom (sq_cells s)" "e \<notin> set xs"
  shows "\<exists>s'. SIMPLEQ_INSERT_HEAD e s = (Ret (), s') \<and> simpleq_ok s' (e # xs)
    \<and> dom (sq_cells s') = dom (sq_cells s)"
proof -
  have f: "sqh_first s = hd_ptr xs" using simpleq_place [of s "[]" xs] assms(1) by simp
  have "\<exists>s'. SIMPLEQ_INSERT_HEAD e s = (Ret (), s')
    \<and> sq_val s' = (sq_val s)(Next e := sq_val s First, First \<mapsto> Some e)
    \<and> sqh_last s' = (if xs = [] then Next e else sqh_last s) \<and> dom (sq_cells s') = dom (sq_cells s)"
    using f assms(2) by (cases xs) (simp_all add: SIMPLEQ_INSERT_HEAD_def sq_run del: domIff)
  with simpleq_inserted [of s "[]" xs e _ First] assms show ?thesis by auto
qed

lemma SIMPLEQ_INSERT_TAIL_ok:
  assumes "simpleq_ok s xs" "e \<in> dom (sq_cells s)" "e \<notin> set xs"
  shows "\<exists>s'. SIMPLEQ_INSERT_TAIL e s = (Ret (), s') \<and> simpleq_ok s' (xs @ [e])
    \<and> dom (sq_cells s') = dom (sq_cells s)"
proof -
  note l = simpleq_last [OF assms(1)]
  have v: "sq_val s (sqh_last s) = Some None" using simpleq_place [of s xs "[]"] assms(1) l by simp
  have ne: "sqh_last s \<noteq> Next e" using l assms(3) last_in_set [of xs] by auto
  have "\<exists>s'. SIMPLEQ_INSERT_TAIL e s = (Ret (), s')
    \<and> sq_val s' = (sq_val s)(Next e := sq_val s (sqh_last s), sqh_last s \<mapsto> Some e)
    \<and> sqh_last s' = Next e \<and> dom (sq_cells s') = dom (sq_cells s)"
    using v assms(2) ne by (simp add: SIMPLEQ_INSERT_TAIL_def sq_run del: domIff)
  with simpleq_inserted [of s xs "[]" e _ "sqh_last s"] assms l show ?thesis by auto
qed

lemma SIMPLEQ_INSERT_AFTER_ok:
  assumes "simpleq_ok s (xs @ x # ys)" "e \<in> dom (sq_cells s)" "e \<notin> set (xs @ x # ys)"
  shows "\<exists>s'. SIMPLEQ_INSERT_AFTER x e s = (Ret (), s') \<and> simpleq_ok s' (xs @ x # e # ys)
    \<and> dom (sq_cells s') = dom (sq_cells s)"
proof -
  have v: "sq_val s (Next x) = Some (hd_ptr ys)" using simpleq_place [of s "xs @ [x]" ys] assms(1) by simp
  have "\<exists>s'. SIMPLEQ_INSERT_AFTER x e s = (Ret (), s')
    \<and> sq_val s' = (sq_val s)(Next e := sq_val s (Next x), Next x \<mapsto> Some e)
    \<and> sqh_last s' = (if ys = [] then Next e else sqh_last s) \<and> dom (sq_cells s') = dom (sq_cells s)"
    using v assms(2,3) by (cases ys) (simp_all add: SIMPLEQ_INSERT_AFTER_def sq_run del: domIff)
  then obtain s' where s': "SIMPLEQ_INSERT_AFTER x e s = (Ret (), s')"
    "sq_val s' = (sq_val s)(Next e := sq_val s (Next x), Next x \<mapsto> Some e)"
    "sqh_last s' = (if ys = [] then Next e else sqh_last s)" "dom (sq_cells s') = dom (sq_cells s)"
    by blast
  have "simpleq_ok s' ((xs @ [x]) @ e # ys)"
    using assms(1,3) s'(3) by (intro simpleq_inserted [OF _ _ s'(2)]) simp_all
  with s' show ?thesis by auto
qed

text \<open>\<open>SIMPLEQ_REMOVE_HEAD\<close> takes the element as an argument: the list goes on behind it, whether or not
  it was the first.\<close>

lemma SIMPLEQ_REMOVE_HEAD_ok:
  assumes "simpleq_ok s (xs @ x # ys)"
  shows "\<exists>s'. SIMPLEQ_REMOVE_HEAD x s = (Ret (), s') \<and> simpleq_ok s' ys
    \<and> dom (sq_cells s') = dom (sq_cells s)"
proof -
  have v: "sq_val s (Next x) = Some (hd_ptr ys)" using simpleq_place [of s "xs @ [x]" ys] assms(1) by simp
  obtain pr where "seg (sq_val s) pr First (xs @ x # ys) None (sqh_last s)"
    using assms unfolding simpleq_ok_def by blast
  from seg_middle [OF this] have s: "seg (sq_val s) pr (Next x) ys None (sqh_last s)" by auto
  have d: "distinct ys" using assms by (simp add: simpleq_ok_def)
  have "\<exists>s'. SIMPLEQ_REMOVE_HEAD x s = (Ret (), s') \<and> sq_val s' = (sq_val s)(First \<mapsto> hd_ptr ys)
    \<and> sqh_last s' = (if ys = [] then First else sqh_last s) \<and> dom (sq_cells s') = dom (sq_cells s)"
    using v by (cases ys) (simp_all add: SIMPLEQ_REMOVE_HEAD_def sq_run del: domIff)
  then obtain s' where s': "SIMPLEQ_REMOVE_HEAD x s = (Ret (), s')" "sq_val s' = (sq_val s)(First \<mapsto> hd_ptr ys)"
    "sqh_last s' = (if ys = [] then First else sqh_last s)" "dom (sq_cells s') = dom (sq_cells s)"
    by blast
  have "seg (sq_val s') (back_to ys First pr) First ys None (sqh_last s')"
  proof (cases ys)
    case Nil
    with s' show ?thesis by simp
  next
    case (Cons y zs)
    with s have "seg (sq_val s) pr (Next y) zs None (sqh_last s)" by simp
    then have "seg (sq_val s') (pr(y \<mapsto> First)) (Next y) zs None (sqh_last s)"
      using d Cons by (rule_tac seg_frame) (auto simp: s'(2))
    with Cons s' show ?thesis by simp
  qed
  with d s' show ?thesis unfolding simpleq_ok_def by blast
qed

lemma SIMPLEQ_NEXT_ok: "simpleq_ok s (xs @ x # ys) \<Longrightarrow> SIMPLEQ_NEXT x s = (Ret (hd_ptr ys), s)"
  using simpleq_place [of s "xs @ [x]" ys] by (simp add: SIMPLEQ_NEXT_def sq_access)

interpretation SIMPLEQ: fifo "\<lambda>_. True" simpleq_ok "\<lambda>s. dom (sq_cells s)" SIMPLEQ_INIT SIMPLEQ_FIRST
  SIMPLEQ_NEXT SIMPLEQ_INSERT_HEAD SIMPLEQ_INSERT_TAIL
proof unfold_locales
  show "SIMPLEQ_FIRST s = hd_ptr xs" if "simpleq_ok s xs" for s xs
    using simpleq_place [of s "[]" xs] that by (simp add: SIMPLEQ_FIRST_def)
  show "\<exists>s'. SIMPLEQ_INIT s = (Ret (), s') \<and> simpleq_ok s' [] \<and> dom (sq_cells s') = dom (sq_cells s)" for s
    by (simp add: SIMPLEQ_INIT_def sq_run simpleq_ok_def sq_put_def sq_put_last_def)
  show "distinct xs \<and> set xs \<subseteq> dom (sq_cells s)" if "simpleq_ok s xs" for s xs
    using simpleq_ok_dom [OF that] that by (simp add: simpleq_ok_def)
qed (simp_all add: SIMPLEQ_INSERT_HEAD_ok SIMPLEQ_INSERT_TAIL_ok SIMPLEQ_NEXT_ok del: domIff)

section \<open>First in, first out\<close>

text \<open>\<open>while ((elm = SIMPLEQ_FIRST(head))) SIMPLEQ_REMOVE_HEAD(head, elm);\<close>\<close>

primrec drain :: "nat \<Rightarrow> (simpleq_head, nat list) prog" where
  "drain 0 = (\<lambda>s. (if SIMPLEQ_EMPTY s then Ret [] else Wait, s))"
| "drain (Suc k) = sbind (sget SIMPLEQ_FIRST) (\<lambda>p. case p of
      None \<Rightarrow> sret []
    | Some x \<Rightarrow> sseq (SIMPLEQ_REMOVE_HEAD x) (sbind (drain k) (\<lambda>xs. sret (x # xs))))"

lemma drain_ok: "simpleq_ok s xs \<Longrightarrow> \<exists>s'. drain (length xs) s = (Ret xs, s') \<and> simpleq_ok s' []"
proof (induction xs arbitrary: s)
  case Nil
  then show ?case using SIMPLEQ.first_ok [OF Nil] by (simp add: SIMPLEQ_EMPTY_def SIMPLEQ_FIRST_def)
next
  case (Cons x xs)
  obtain s1 where s1: "SIMPLEQ_REMOVE_HEAD x s = (Ret (), s1)" "simpleq_ok s1 xs"
    using SIMPLEQ_REMOVE_HEAD_ok [of s "[]" x xs] Cons.prems by auto
  from Cons.IH [OF s1(2)] s1(1) SIMPLEQ.first_ok [OF Cons.prems] show ?case
    by (auto simp: sbind_def sseq_def sget_def sret_def)
qed

text \<open>
  C40: Elements inserted at the tail of a simple queue and taken with SIMPLEQ_FIRST and
  SIMPLEQ_REMOVE_HEAD come out in the order they went in, and leave the queue empty.
\<close>

theorem simpleq_fifo:
  assumes "set es \<subseteq> dom (sq_cells s)" "distinct es"
  shows "\<exists>s'. sseq SIMPLEQ_INIT (sseq (do_all SIMPLEQ_INSERT_TAIL es) (drain (length es))) s = (Ret es, s')
    \<and> SIMPLEQ_EMPTY s'"
proof -
  obtain s1 where s1: "SIMPLEQ_INIT s = (Ret (), s1)" "simpleq_ok s1 []" "dom (sq_cells s1) = dom (sq_cells s)"
    using SIMPLEQ.init_ok by blast
  with assms obtain s2 where s2: "do_all SIMPLEQ_INSERT_TAIL es s1 = (Ret (), s2)" "simpleq_ok s2 es"
    using SIMPLEQ.insert_tail_all [of s1 "[]" es] by auto
  obtain s3 where "drain (length es) s2 = (Ret es, s3)" "simpleq_ok s3 []" using drain_ok [OF s2(2)] by blast
  with s1(1) s2(1) SIMPLEQ.first_ok [of s3 "[]"] show ?thesis
    by (auto simp: sseq_Ret SIMPLEQ_EMPTY_def SIMPLEQ_FIRST_def)
qed

theorem simpleq_fifo_witness:
  "\<exists>s'. sseq SIMPLEQ_INIT (sseq (do_all SIMPLEQ_INSERT_TAIL [5, 1, 3]) (drain (length [5::nat, 1, 3])))
      \<lparr>sqh_first = None, sqh_last = First, sq_cells = (\<lambda>x. Some \<lparr>sqe_next = None\<rparr>)\<rparr> = (Ret [5, 1, 3], s')
    \<and> SIMPLEQ_EMPTY s'"
  by (rule simpleq_fifo) (simp_all add: dom_def)

text \<open>Removing an element that is not the first takes everything in front of it out of the queue.\<close>

theorem simpleq_remove_head_drops:
  assumes "simpleq_ok s (xs @ x # ys)" "length ys \<le> k"
  shows "\<exists>s'. SIMPLEQ_REMOVE_HEAD x s = (Ret (), s')
    \<and> SIMPLEQ_FOREACH k (\<lambda>x v. sret (f x v)) v s' = (Ret (fold f ys v), s')"
proof -
  obtain s' where "SIMPLEQ_REMOVE_HEAD x s = (Ret (), s')" "simpleq_ok s' ys"
    using SIMPLEQ_REMOVE_HEAD_ok [OF assms(1)] by blast
  with SIMPLEQ.visits [of s' ys k f v] assms(2) show ?thesis
    by (simp add: SIMPLEQ_FOREACH_def sbind_def sget_def)
qed

end
