(* ===== verification/TailQueue.thy ===== *)
theory TailQueue
  imports Lval
begin

text \<open>
  The tail queues of inc/list.h (\<open>TAILQ\<close>): the head has the address of the last next field, and every
  element the address of the next field before it. \<open>TAILQ_LAST\<close> and \<open>TAILQ_PREV\<close> read such an address
  as the address of a head: its second field is then the back pointer of the element it lies in.
\<close>

record tailq_entry =
  tqe_next :: ptr
  tqe_prev :: lval

record tailq_head =
  tqh_first :: ptr
  tqh_last :: lval
  tq_cells :: "nat \<Rightarrow> tailq_entry option"

section \<open>Access through pointers\<close>

definition tq_val :: "tailq_head \<Rightarrow> lval \<Rightarrow> ptr option" where
  "tq_val s l = (case l of First \<Rightarrow> Some (tqh_first s) | Next x \<Rightarrow> map_option tqe_next (tq_cells s x))"

definition tq_back :: "tailq_head \<Rightarrow> nat \<Rightarrow> lval option" where
  "tq_back s x = map_option tqe_prev (tq_cells s x)"

definition tq_load :: "lval \<Rightarrow> (tailq_head, ptr) prog" where
  "tq_load l s = (case tq_val s l of None \<Rightarrow> (Fault, s) | Some p \<Rightarrow> (Ret p, s))"

definition put_next :: "nat \<Rightarrow> ptr \<Rightarrow> tailq_head \<Rightarrow> tailq_head" where
  "put_next x p s = s\<lparr>tq_cells := (tq_cells s)(x := map_option (\<lambda>n. n\<lparr>tqe_next := p\<rparr>) (tq_cells s x))\<rparr>"

definition put_prev :: "nat \<Rightarrow> lval \<Rightarrow> tailq_head \<Rightarrow> tailq_head" where
  "put_prev x l s = s\<lparr>tq_cells := (tq_cells s)(x := map_option (\<lambda>n. n\<lparr>tqe_prev := l\<rparr>) (tq_cells s x))\<rparr>"

definition put_first :: "ptr \<Rightarrow> tailq_head \<Rightarrow> tailq_head" where
  "put_first p s = s\<lparr>tqh_first := p\<rparr>"

definition put_last :: "lval \<Rightarrow> tailq_head \<Rightarrow> tailq_head" where
  "put_last l s = s\<lparr>tqh_last := l\<rparr>"

definition tq_store :: "lval \<Rightarrow> ptr \<Rightarrow> (tailq_head, unit) prog" where
  "tq_store l p s = (case l of
      First \<Rightarrow> (Ret (), put_first p s)
    | Next x \<Rightarrow> if tq_cells s x = None then (Fault, s) else (Ret (), put_next x p s))"

definition tq_set_prev :: "ptr \<Rightarrow> lval \<Rightarrow> (tailq_head, unit) prog" where
  "tq_set_prev p l s = (case p of
      None \<Rightarrow> (Fault, s)
    | Some x \<Rightarrow> if tq_cells s x = None then (Fault, s) else (Ret (), put_prev x l s))"

definition tq_prev :: "nat \<Rightarrow> (tailq_head, lval) prog" where
  "tq_prev x s = (case tq_back s x of None \<Rightarrow> (Fault, s) | Some l \<Rightarrow> (Ret l, s))"

section \<open>The macros\<close>

definition TAILQ_INIT :: "(tailq_head, unit) prog" where
  "TAILQ_INIT = sseq (smod (put_first None)) (smod (put_last First))"

definition TAILQ_HEAD_INITIALIZER :: "(nat \<Rightarrow> tailq_entry option) \<Rightarrow> tailq_head" where
  "TAILQ_HEAD_INITIALIZER cs = \<lparr>tqh_first = None, tqh_last = First, tq_cells = cs\<rparr>"

lemma TAILQ_is_initializer: "TAILQ_INIT s = (Ret (), TAILQ_HEAD_INITIALIZER (tq_cells s))"
  by (simp add: TAILQ_INIT_def TAILQ_HEAD_INITIALIZER_def put_first_def put_last_def smod_def sseq_def sbind_def)

definition TAILQ_NEXT :: "nat \<Rightarrow> (tailq_head, ptr) prog" where
  "TAILQ_NEXT elm = tq_load (Next elm)"

definition TAILQ_FIRST :: "tailq_head \<Rightarrow> ptr" where
  "TAILQ_FIRST s = tqh_first s"

definition TAILQ_EMPTY :: "tailq_head \<Rightarrow> bool" where
  "TAILQ_EMPTY s \<longleftrightarrow> tqh_first s = None"

definition TAILQ_INSERT_HEAD :: "nat \<Rightarrow> (tailq_head, unit) prog" where
  "TAILQ_INSERT_HEAD elm =
     sbind (sget tqh_first) (\<lambda>p.
     sseq (tq_store (Next elm) p)
     (sseq (if p \<noteq> None then sbind (sget tqh_first) (\<lambda>q. tq_set_prev q (Next elm))
            else smod (put_last (Next elm)))
     (sseq (smod (put_first (Some elm)))
        (tq_set_prev (Some elm) First))))"

definition TAILQ_INSERT_TAIL :: "nat \<Rightarrow> (tailq_head, unit) prog" where
  "TAILQ_INSERT_TAIL elm =
     sseq (tq_store (Next elm) None)
     (sseq (sbind (sget tqh_last) (\<lambda>l. tq_set_prev (Some elm) l))
     (sseq (sbind (sget tqh_last) (\<lambda>l. tq_store l (Some elm)))
        (smod (put_last (Next elm)))))"

definition TAILQ_INSERT_AFTER :: "nat \<Rightarrow> nat \<Rightarrow> (tailq_head, unit) prog" where
  "TAILQ_INSERT_AFTER listelm elm =
     sbind (TAILQ_NEXT listelm) (\<lambda>p.
     sseq (tq_store (Next elm) p)
     (sseq (if p \<noteq> None then sbind (TAILQ_NEXT elm) (\<lambda>q. tq_set_prev q (Next elm))
            else smod (put_last (Next elm)))
     (sseq (tq_store (Next listelm) (Some elm))
        (tq_set_prev (Some elm) (Next listelm)))))"

definition TAILQ_INSERT_BEFORE :: "nat \<Rightarrow> nat \<Rightarrow> (tailq_head, unit) prog" where
  "TAILQ_INSERT_BEFORE listelm elm =
     sseq (sbind (tq_prev listelm) (tq_set_prev (Some elm)))
     (sseq (tq_store (Next elm) (Some listelm))
     (sseq (sbind (tq_prev listelm) (\<lambda>l. tq_store l (Some elm)))
        (tq_set_prev (Some listelm) (Next elm))))"

definition TAILQ_REMOVE :: "nat \<Rightarrow> (tailq_head, unit) prog" where
  "TAILQ_REMOVE elm =
     sseq (sbind (TAILQ_NEXT elm) (\<lambda>p.
            if p \<noteq> None then sbind (TAILQ_NEXT elm) (\<lambda>q. sbind (tq_prev elm) (tq_set_prev q))
            else sbind (tq_prev elm) (\<lambda>l. smod (put_last l))))
       (sbind (tq_prev elm) (\<lambda>l. sbind (TAILQ_NEXT elm) (tq_store l)))"

text \<open>The second field of the head that an lvalue is read as.\<close>

definition as_head_last :: "lval \<Rightarrow> (tailq_head, lval) prog" where
  "as_head_last l = (case l of First \<Rightarrow> sget tqh_last | Next x \<Rightarrow> tq_prev x)"

definition TAILQ_LAST :: "(tailq_head, ptr) prog" where
  "TAILQ_LAST = sbind (sget tqh_last) (\<lambda>l. sbind (as_head_last l) tq_load)"

definition TAILQ_PREV :: "nat \<Rightarrow> (tailq_head, ptr) prog" where
  "TAILQ_PREV elm = sbind (tq_prev elm) (\<lambda>l. sbind (as_head_last l) tq_load)"

definition TAILQ_FOREACH ::
  "nat \<Rightarrow> (nat \<Rightarrow> 'v \<Rightarrow> (tailq_head, 'v) prog) \<Rightarrow> 'v \<Rightarrow> (tailq_head, 'v) prog" where
  "TAILQ_FOREACH k body v = sbind (sget TAILQ_FIRST) (\<lambda>p. for_ptr k TAILQ_NEXT body p v)"

definition TAILQ_FOREACH_REVERSE ::
  "nat \<Rightarrow> (nat \<Rightarrow> 'v \<Rightarrow> (tailq_head, 'v) prog) \<Rightarrow> 'v \<Rightarrow> (tailq_head, 'v) prog" where
  "TAILQ_FOREACH_REVERSE k body v = sbind TAILQ_LAST (\<lambda>p. for_ptr k TAILQ_PREV body p v)"

section \<open>Projections\<close>

lemma put_cells [simp]:
  "tq_cells (put_first p s) = tq_cells s" "tq_cells (put_last l s) = tq_cells s"
  "dom (tq_cells (put_next x p s)) = dom (tq_cells s)"
  "dom (tq_cells (put_prev x l s)) = dom (tq_cells s)"
  "tq_cells (put_next x p s) y = None \<longleftrightarrow> tq_cells s y = None"
  "tq_cells (put_prev x l s) y = None \<longleftrightarrow> tq_cells s y = None"
  by (auto simp: put_first_def put_last_def put_next_def put_prev_def split: if_splits)

lemma put_head [simp]:
  "tqh_first (put_first p s) = p" "tqh_first (put_last l s) = tqh_first s"
  "tqh_first (put_next x p s) = tqh_first s" "tqh_first (put_prev x l s) = tqh_first s"
  "tqh_last (put_first p s) = tqh_last s" "tqh_last (put_last l s) = l"
  "tqh_last (put_next x p s) = tqh_last s" "tqh_last (put_prev x l s) = tqh_last s"
  by (simp_all add: put_first_def put_last_def put_next_def put_prev_def)

lemma tq_val_put [simp]:
  "tq_val (put_first p s) = (tq_val s)(First \<mapsto> p)"
  "tq_val (put_last l s) = tq_val s"
  "x \<in> dom (tq_cells s) \<Longrightarrow> tq_val (put_next x p s) = (tq_val s)(Next x \<mapsto> p)"
  "tq_val (put_prev x l s) = tq_val s"
  by (auto simp: tq_val_def put_first_def put_last_def put_next_def put_prev_def fun_eq_iff
      option.map_comp comp_def split: lval.split)

lemma tq_back_put [simp]:
  "tq_back (put_first p s) = tq_back s" "tq_back (put_last l s) = tq_back s"
  "tq_back (put_next x p s) = tq_back s"
  "x \<in> dom (tq_cells s) \<Longrightarrow> tq_back (put_prev x l s) = (tq_back s)(x \<mapsto> l)"
  by (auto simp: tq_back_def put_first_def put_last_def put_next_def put_prev_def fun_eq_iff
      option.map_comp comp_def)

lemma tq_val_simps [simp]:
  "tq_val s First = Some (tqh_first s)"
  "tq_val s (Next x) = None \<longleftrightarrow> x \<notin> dom (tq_cells s)"
  "tq_back s x = None \<longleftrightarrow> x \<notin> dom (tq_cells s)"
  by (auto simp: tq_val_def tq_back_def)

lemma tq_access:
  "tq_val s l = Some p \<Longrightarrow> tq_load l s = (Ret p, s)"
  "tq_back s x = Some l \<Longrightarrow> tq_prev x s = (Ret l, s)"
  "x \<in> dom (tq_cells s) \<Longrightarrow> tq_store (Next x) p s = (Ret (), put_next x p s)"
  "tq_store First p s = (Ret (), put_first p s)"
  "x \<in> dom (tq_cells s) \<Longrightarrow> tq_set_prev (Some x) l s = (Ret (), put_prev x l s)"
  by (auto simp: tq_load_def tq_prev_def tq_store_def tq_set_prev_def)

lemmas tq_run = sseq_def sbind_def smod_def sget_def sret_def tq_access TAILQ_NEXT_def

section \<open>The operations on the list\<close>

definition tailq_ok :: "tailq_head \<Rightarrow> nat list \<Rightarrow> bool" where
  "tailq_ok s xs \<longleftrightarrow> seg (tq_val s) (tq_back s) First xs None (tqh_last s) \<and> distinct xs"

lemma tailq_ok_dom: "tailq_ok s xs \<Longrightarrow> set xs \<subseteq> dom (tq_cells s)"
  unfolding tailq_ok_def using seg_alloc by (metis subsetI tq_val_simps(3))

lemma TAILQ_INIT_ok: "\<exists>s'. TAILQ_INIT s = (Ret (), s') \<and> tailq_ok s' [] \<and> tq_cells s' = tq_cells s"
  by (simp add: TAILQ_INIT_def tq_run tailq_ok_def)

text \<open>Every insertion is the insertion of the element in front of \<open>ys\<close>, into the lvalue \<open>k\<close>.\<close>

lemma tailq_inserted:
  assumes "tailq_ok s (xs @ ys)" "e \<notin> set (xs @ ys)"
    and "tq_val s' = (tq_val s)(Next e := tq_val s k, k \<mapsto> Some e)"
    and "tq_back s' = back_to ys (Next e) ((tq_back s)(e \<mapsto> k))"
    and "k = (if xs = [] then First else Next (last xs))"
    and "tqh_last s' = (if ys = [] then Next e else tqh_last s)"
  shows "tailq_ok s' (xs @ e # ys)"
proof -
  obtain p k' where "seg (tq_val s) (tq_back s) First xs p k'" "seg (tq_val s) (tq_back s) k' ys None (tqh_last s)"
    using assms(1) unfolding tailq_ok_def seg_app by blast
  moreover from seg_end [OF this(1)] assms(5) have "k' = k" by simp
  ultimately show ?thesis
    using seg_insert [of "tq_val s" "tq_back s" xs p k ys None "tqh_last s" e "tq_val s'" "tq_back s'"] assms
    by (auto simp: tailq_ok_def)
qed

lemma tailq_place:
  assumes "tailq_ok s (xs @ ys)"
  shows "tq_val s (if xs = [] then First else Next (last xs)) = Some (hd_ptr ys)"
proof -
  obtain p k where k: "seg (tq_val s) (tq_back s) First xs p k" "seg (tq_val s) (tq_back s) k ys None (tqh_last s)"
    using assms unfolding tailq_ok_def seg_app by blast
  from seg_end [OF k(1)] seg_start [OF k(2)] show ?thesis by (simp add: hd_ptr_def)
qed

lemma TAILQ_INSERT_HEAD_ok:
  assumes "tailq_ok s xs" "e \<in> dom (tq_cells s)" "e \<notin> set xs"
  shows "\<exists>s'. TAILQ_INSERT_HEAD e s = (Ret (), s') \<and> tailq_ok s' (e # xs)
    \<and> dom (tq_cells s') = dom (tq_cells s)"
proof -
  have f: "tqh_first s = hd_ptr xs" using tailq_place [of s "[]" xs] assms(1) by simp
  have d: "set xs \<subseteq> dom (tq_cells s)" by (rule tailq_ok_dom [OF assms(1)])
  have "\<exists>s'. TAILQ_INSERT_HEAD e s = (Ret (), s')
    \<and> tq_val s' = (tq_val s)(Next e := tq_val s First, First \<mapsto> Some e)
    \<and> tq_back s' = back_to xs (Next e) ((tq_back s)(e \<mapsto> First))
    \<and> tqh_last s' = (if xs = [] then Next e else tqh_last s)
    \<and> dom (tq_cells s') = dom (tq_cells s)"
    using f d assms(2,3)
    by (cases xs) (auto simp: TAILQ_INSERT_HEAD_def tq_run fun_upd_twist simp del: domIff)
  with tailq_inserted [of s "[]" xs e _ First] assms show ?thesis by auto
qed

lemma TAILQ_INSERT_TAIL_ok:
  assumes "tailq_ok s xs" "e \<in> dom (tq_cells s)" "e \<notin> set xs"
  shows "\<exists>s'. TAILQ_INSERT_TAIL e s = (Ret (), s') \<and> tailq_ok s' (xs @ [e])
    \<and> dom (tq_cells s') = dom (tq_cells s)"
proof -
  have l: "tqh_last s = (if xs = [] then First else Next (last xs))"
    using assms(1) seg_end unfolding tailq_ok_def by blast
  have v: "tq_val s (tqh_last s) = Some None" using tailq_place [of s xs "[]"] assms(1) l by simp
  have d: "xs \<noteq> [] \<Longrightarrow> last xs \<in> dom (tq_cells s)" "xs \<noteq> [] \<Longrightarrow> last xs \<noteq> e"
    using tailq_ok_dom [OF assms(1)] assms(3) last_in_set by blast+
  have "\<exists>s'. TAILQ_INSERT_TAIL e s = (Ret (), s')
    \<and> tq_val s' = (tq_val s)(Next e := tq_val s (tqh_last s), tqh_last s \<mapsto> Some e)
    \<and> tq_back s' = back_to [] (Next e) ((tq_back s)(e \<mapsto> tqh_last s))
    \<and> tqh_last s' = Next e \<and> dom (tq_cells s') = dom (tq_cells s)"
    using d assms(2) l v
    by (cases "xs = []") (auto simp: TAILQ_INSERT_TAIL_def tq_run fun_upd_twist simp del: domIff)
  with tailq_inserted [of s xs "[]" e _ "tqh_last s"] assms l show ?thesis by auto
qed

lemma TAILQ_INSERT_AFTER_ok:
  assumes "tailq_ok s (xs @ x # ys)" "e \<in> dom (tq_cells s)" "e \<notin> set (xs @ x # ys)"
  shows "\<exists>s'. TAILQ_INSERT_AFTER x e s = (Ret (), s') \<and> tailq_ok s' (xs @ x # e # ys)
    \<and> dom (tq_cells s') = dom (tq_cells s)"
proof -
  have v: "tq_val s (Next x) = Some (hd_ptr ys)" using tailq_place [of s "xs @ [x]" ys] assms(1) by simp
  have d: "insert x (set ys) \<subseteq> dom (tq_cells s)" using tailq_ok_dom [OF assms(1)] by auto
  have ne: "x \<noteq> e" "x \<notin> set ys" "e \<notin> set ys" using assms(1,3) by (auto simp: tailq_ok_def)
  have "\<exists>s'. TAILQ_INSERT_AFTER x e s = (Ret (), s')
    \<and> tq_val s' = (tq_val s)(Next e := tq_val s (Next x), Next x \<mapsto> Some e)
    \<and> tq_back s' = back_to ys (Next e) ((tq_back s)(e \<mapsto> Next x))
    \<and> tqh_last s' = (if ys = [] then Next e else tqh_last s)
    \<and> dom (tq_cells s') = dom (tq_cells s)"
  proof (cases ys)
    case Nil
    with v d assms(2) ne show ?thesis
      by (simp add: TAILQ_INSERT_AFTER_def tq_run del: domIff)
  next
    case (Cons y zs)
    with v d assms(2) ne have "TAILQ_INSERT_AFTER x e s = (Ret (), put_prev e (Next x) (put_next x (Some e)
        (put_prev y (Next e) (put_next e (Some y) s))))"
      by (simp add: TAILQ_INSERT_AFTER_def tq_run del: domIff)
    with Cons v d assms(2) ne show ?thesis by (simp add: fun_upd_twist del: domIff)
  qed
  then obtain s' where s': "TAILQ_INSERT_AFTER x e s = (Ret (), s')"
    "tq_val s' = (tq_val s)(Next e := tq_val s (Next x), Next x \<mapsto> Some e)"
    "tq_back s' = back_to ys (Next e) ((tq_back s)(e \<mapsto> Next x))"
    "tqh_last s' = (if ys = [] then Next e else tqh_last s)" "dom (tq_cells s') = dom (tq_cells s)"
    by blast
  have "tailq_ok s' ((xs @ [x]) @ e # ys)"
    using assms(1,3) s'(4) by (intro tailq_inserted [OF _ _ s'(2,3)]) simp_all
  with s' show ?thesis by auto
qed

lemma TAILQ_INSERT_BEFORE_ok:
  assumes "tailq_ok s (xs @ x # ys)" "e \<in> dom (tq_cells s)" "e \<notin> set (xs @ x # ys)"
  shows "\<exists>s'. TAILQ_INSERT_BEFORE x e s = (Ret (), s') \<and> tailq_ok s' (xs @ e # x # ys)
    \<and> dom (tq_cells s') = dom (tq_cells s)"
proof -
  define k where "k = (if xs = [] then First else Next (last xs))"
  have v: "tq_val s k = Some (Some x)" using tailq_place [of s xs "x # ys"] assms(1) by (simp add: k_def)
  have b: "tq_back s x = Some k"
    using assms(1) seg_middle [of "tq_val s" "tq_back s" First xs x ys None "tqh_last s"]
    by (auto simp: tailq_ok_def k_def)
  have d: "x \<in> dom (tq_cells s)" "xs \<noteq> [] \<Longrightarrow> last xs \<in> dom (tq_cells s)"
    using tailq_ok_dom [OF assms(1)] by (auto simp del: domIff dest: last_in_set)
  have ne: "x \<noteq> e" "xs \<noteq> [] \<Longrightarrow> last xs \<noteq> e" using assms(3) last_in_set [of xs] by auto
  have "\<exists>s'. TAILQ_INSERT_BEFORE x e s = (Ret (), s')
    \<and> tq_val s' = (tq_val s)(Next e := tq_val s k, k \<mapsto> Some e)
    \<and> tq_back s' = back_to (x # ys) (Next e) ((tq_back s)(e \<mapsto> k))
    \<and> tqh_last s' = tqh_last s \<and> dom (tq_cells s') = dom (tq_cells s)"
    using v b d assms(2) ne
    by (cases "xs = []") (auto simp: TAILQ_INSERT_BEFORE_def tq_run fun_upd_twist k_def simp del: domIff)
  with tailq_inserted [of s xs "x # ys" e _ k] assms show ?thesis by (auto simp: k_def)
qed

lemma TAILQ_REMOVE_ok:
  assumes "tailq_ok s (xs @ x # ys)"
  shows "\<exists>s'. TAILQ_REMOVE x s = (Ret (), s') \<and> tailq_ok s' (xs @ ys)
    \<and> dom (tq_cells s') = dom (tq_cells s)"
proof -
  define k where "k = (if xs = [] then First else Next (last xs))"
  have s: "seg (tq_val s) (tq_back s) First (xs @ x # ys) None (tqh_last s)" "distinct (xs @ x # ys)"
    using assms by (simp_all add: tailq_ok_def)
  have v: "tq_val s (Next x) = Some (hd_ptr ys)" using tailq_place [of s "xs @ [x]" ys] assms(1) by simp
  have b: "tq_back s x = Some k" using seg_middle [OF s(1)] by (auto simp: k_def)
  have d: "insert x (set ys) \<subseteq> dom (tq_cells s)" "xs \<noteq> [] \<Longrightarrow> last xs \<in> dom (tq_cells s)"
    using tailq_ok_dom [OF assms(1)] by (auto simp del: domIff dest: last_in_set)
  have "\<exists>s'. TAILQ_REMOVE x s = (Ret (), s')
    \<and> tq_val s' = (tq_val s)(k := tq_val s (Next x)) \<and> tq_back s' = back_to ys k (tq_back s)
    \<and> tqh_last s' = (if ys = [] then k else tqh_last s) \<and> dom (tq_cells s') = dom (tq_cells s)"
    using v b d s(2)
    by (cases "xs = []"; cases ys) (auto simp: TAILQ_REMOVE_def tq_run fun_upd_twist k_def simp del: domIff)
  then obtain s' where s': "TAILQ_REMOVE x s = (Ret (), s')"
    "tq_val s' = (tq_val s)(k := tq_val s (Next x))" "tq_back s' = back_to ys k (tq_back s)"
    "tqh_last s' = (if ys = [] then k else tqh_last s)" "dom (tq_cells s') = dom (tq_cells s)"
    by blast
  from seg_remove [OF s b s'(2,3)] s(2) s'(4) have "tailq_ok s' (xs @ ys)"
    by (simp add: tailq_ok_def)
  with s' show ?thesis by blast
qed

lemma TAILQ_NEXT_ok: "tailq_ok s (xs @ x # ys) \<Longrightarrow> TAILQ_NEXT x s = (Ret (hd_ptr ys), s)"
  using tailq_place [of s "xs @ [x]" ys] by (simp add: TAILQ_NEXT_def tq_access)

interpretation TAILQ: linked "\<lambda>_. True" tailq_ok "\<lambda>s. dom (tq_cells s)" TAILQ_INIT TAILQ_FIRST
  TAILQ_NEXT TAILQ_INSERT_HEAD
proof unfold_locales
  show "TAILQ_FIRST s = hd_ptr xs" if "tailq_ok s xs" for s xs
    using tailq_place [of s "[]" xs] that by (simp add: TAILQ_FIRST_def)
  show "\<exists>s'. TAILQ_INIT s = (Ret (), s') \<and> tailq_ok s' [] \<and> dom (tq_cells s') = dom (tq_cells s)" for s
    using TAILQ_INIT_ok [of s] by auto
  show "distinct xs \<and> set xs \<subseteq> dom (tq_cells s)" if "tailq_ok s xs" for s xs
    using tailq_ok_dom [OF that] that by (simp add: tailq_ok_def)
qed (simp_all add: TAILQ_INSERT_HEAD_ok TAILQ_NEXT_ok del: domIff)

interpretation TAILQ: edited "\<lambda>_. True" tailq_ok "\<lambda>s. dom (tq_cells s)" TAILQ_INIT TAILQ_FIRST
  TAILQ_NEXT TAILQ_INSERT_HEAD TAILQ_INSERT_AFTER TAILQ_REMOVE
  by unfold_locales (simp_all add: TAILQ_INSERT_AFTER_ok TAILQ_REMOVE_ok del: domIff)

interpretation TAILQ: fifo "\<lambda>_. True" tailq_ok "\<lambda>s. dom (tq_cells s)" TAILQ_INIT TAILQ_FIRST
  TAILQ_NEXT TAILQ_INSERT_HEAD TAILQ_INSERT_TAIL
  by unfold_locales (simp_all add: TAILQ_INSERT_TAIL_ok del: domIff)

section \<open>Backwards\<close>

lemma tailq_back:
  assumes "tailq_ok s (xs @ x # ys)"
  shows "tq_back s x = Some (if xs = [] then First else Next (last xs))"
  using assms seg_middle [of "tq_val s" "tq_back s" First xs x ys None "tqh_last s"]
  by (auto simp: tailq_ok_def)

lemma tailq_last: "tailq_ok s xs \<Longrightarrow> tqh_last s = (if xs = [] then First else Next (last xs))"
  using seg_end unfolding tailq_ok_def by blast

text \<open>Reading the lvalue behind the first elements \<open>xs\<close> as a head gives the last of them.\<close>

lemma as_head_last_ok:
  assumes "tailq_ok s (xs @ ys)"
  shows "sbind (as_head_last (if xs = [] then First else Next (last xs))) tq_load s = (Ret (hd_ptr (rev xs)), s)"
proof (cases xs rule: rev_cases)
  case Nil
  have "tq_val s (tqh_last s) = Some None"
    using assms Nil tailq_last [of s ys] tailq_place [of s ys "[]"] by auto
  with Nil show ?thesis by (simp add: as_head_last_def tq_run)
next
  case (snoc zs z)
  with assms have "tailq_ok s (zs @ z # ys)" by simp
  from tailq_back [OF this] tailq_place [OF this] snoc show ?thesis
    by (simp add: as_head_last_def tq_run)
qed

lemma TAILQ_LAST_ok: "tailq_ok s xs \<Longrightarrow> TAILQ_LAST s = (Ret (hd_ptr (rev xs)), s)"
  using as_head_last_ok [of s xs "[]"] tailq_last [of s xs]
  by (simp add: TAILQ_LAST_def sbind_def sget_def)

lemma TAILQ_PREV_ok: "tailq_ok s (xs @ x # ys) \<Longrightarrow> TAILQ_PREV x s = (Ret (hd_ptr (rev xs)), s)"
  using as_head_last_ok [of s xs "x # ys"] tailq_back [of s xs x ys]
  by (simp add: TAILQ_PREV_def sbind_Ret tq_access)

lemma TAILQ_FOREACH_REVERSE_ok:
  assumes "tailq_ok s xs" "length xs \<le> k"
  shows "TAILQ_FOREACH_REVERSE k (\<lambda>x v. sret (f x v)) v s = (Ret (fold f (rev xs) v), s)"
proof -
  have "for_ptr k TAILQ_PREV (\<lambda>x v. sret (f x v)) (hd_ptr (rev xs)) v s = (Ret (fold f (rev xs) v), s)"
  proof (rule for_ptr_visits)
    fix ys x zs assume "rev xs = ys @ x # zs"
    then have "xs = rev zs @ x # rev ys" by (metis rev_append rev_rev_ident rev.simps(2) append.assoc append_Cons append_Nil)
    with assms(1) TAILQ_PREV_ok [of s "rev zs" x "rev ys"]
    show "TAILQ_PREV x s = (Ret (hd_ptr zs), s)" by simp
  qed (use assms(2) in simp)
  with TAILQ_LAST_ok [OF assms(1)] show ?thesis
    by (simp add: TAILQ_FOREACH_REVERSE_def sbind_Ret)
qed

lemma TAILQ_FOREACH_ok:
  assumes "tailq_ok s xs" "length xs \<le> k"
  shows "TAILQ_FOREACH k (\<lambda>x v. sret (f x v)) v s = (Ret (fold f xs v), s)"
  using TAILQ.visits [OF assms] by (simp add: TAILQ_FOREACH_def sbind_def sget_def)

text \<open>
  C26: A tail queue filled by TAILQ_INSERT_TAIL is visited in that order by TAILQ_FOREACH and
  in the opposite one by TAILQ_FOREACH_REVERSE, which follows the addresses of next fields.
\<close>

theorem tailq_both_ways:
  assumes "set es \<subseteq> dom (tq_cells s)" "distinct es"
  shows "\<exists>s'. sseq TAILQ_INIT (do_all TAILQ_INSERT_TAIL es) s = (Ret (), s')
    \<and> TAILQ_FOREACH (length es) (\<lambda>x v. sret (f x v)) v s' = (Ret (fold f es v), s')
    \<and> TAILQ_FOREACH_REVERSE (length es) (\<lambda>x v. sret (f x v)) v s' = (Ret (fold f (rev es) v), s')"
proof -
  obtain s' where "sseq TAILQ_INIT (do_all TAILQ_INSERT_TAIL es) s = (Ret (), s')" "tailq_ok s' es"
    using TAILQ.queue_and_visit [OF TrueI assms, of f v] by blast
  then show ?thesis
    using TAILQ_FOREACH_ok [of s' es "length es"] TAILQ_FOREACH_REVERSE_ok [of s' es "length es"] by auto
qed

theorem tailq_both_ways_witness:
  "\<exists>s'. sseq TAILQ_INIT (do_all TAILQ_INSERT_TAIL [4, 2, 7])
      \<lparr>tqh_first = Some 9, tqh_last = First, tq_cells = (\<lambda>x. Some \<lparr>tqe_next = None, tqe_prev = First\<rparr>)\<rparr> = (Ret (), s')
    \<and> TAILQ_FOREACH 3 (\<lambda>x v. sret (v @ [x])) [] s' = (Ret [4, 2, 7], s')
    \<and> TAILQ_FOREACH_REVERSE 3 (\<lambda>x v. sret (v @ [x])) [] s' = (Ret [7, 2, 4], s')"
  using tailq_both_ways [of "[4, 2, 7]" "\<lparr>tqh_first = Some 9, tqh_last = First,
      tq_cells = (\<lambda>x. Some \<lparr>tqe_next = None, tqe_prev = First\<rparr>)\<rparr>" "\<lambda>x v. v @ [x]" "[]"]
  by (simp add: dom_def eval_nat_numeral)

text \<open>Every operation, as the operation on the list of elements.\<close>

text \<open>
  C25: Each TAILQ operation, on an empty queue too where it takes one, keeps the well-
  formedness of the queue (next fields, addresses of previous next fields, address of the last
  one) and does to the list of elements what its name says.
\<close>

theorem tailq_operations:
  assumes "tailq_ok s zs" "e \<in> dom (tq_cells s)" "e \<notin> set zs"
  shows "(\<exists>s'. TAILQ_INIT s = (Ret (), s') \<and> tailq_ok s' [])
    \<and> (\<exists>s'. TAILQ_INSERT_HEAD e s = (Ret (), s') \<and> tailq_ok s' (e # zs))
    \<and> (\<exists>s'. TAILQ_INSERT_TAIL e s = (Ret (), s') \<and> tailq_ok s' (zs @ [e]))
    \<and> TAILQ_EMPTY s = (zs = []) \<and> TAILQ_FIRST s = hd_ptr zs \<and> TAILQ_LAST s = (Ret (hd_ptr (rev zs)), s)
    \<and> (\<forall>xs x ys. zs = xs @ x # ys \<longrightarrow>
         (\<exists>s'. TAILQ_INSERT_AFTER x e s = (Ret (), s') \<and> tailq_ok s' (xs @ x # e # ys))
       \<and> (\<exists>s'. TAILQ_INSERT_BEFORE x e s = (Ret (), s') \<and> tailq_ok s' (xs @ e # x # ys))
       \<and> (\<exists>s'. TAILQ_REMOVE x s = (Ret (), s') \<and> tailq_ok s' (xs @ ys))
       \<and> TAILQ_NEXT x s = (Ret (hd_ptr ys), s) \<and> TAILQ_PREV x s = (Ret (hd_ptr (rev xs)), s))"
proof (intro conjI allI impI)
  show "TAILQ_FIRST s = hd_ptr zs" by (rule TAILQ.first_ok [OF assms(1)])
  then show "TAILQ_EMPTY s = (zs = [])"
    by (cases zs) (simp_all add: TAILQ_EMPTY_def TAILQ_FIRST_def)
  show "TAILQ_LAST s = (Ret (hd_ptr (rev zs)), s)" by (rule TAILQ_LAST_ok [OF assms(1)])
next
  fix xs x ys assume z: "zs = xs @ x # ys"
  note ok = assms [unfolded z]
  show "\<exists>s'. TAILQ_INSERT_AFTER x e s = (Ret (), s') \<and> tailq_ok s' (xs @ x # e # ys)"
    "\<exists>s'. TAILQ_INSERT_BEFORE x e s = (Ret (), s') \<and> tailq_ok s' (xs @ e # x # ys)"
    "\<exists>s'. TAILQ_REMOVE x s = (Ret (), s') \<and> tailq_ok s' (xs @ ys)"
    using TAILQ_INSERT_AFTER_ok [OF ok] TAILQ_INSERT_BEFORE_ok [OF ok] TAILQ_REMOVE_ok [OF ok(1)] by blast+
  show "TAILQ_NEXT x s = (Ret (hd_ptr ys), s)" "TAILQ_PREV x s = (Ret (hd_ptr (rev xs)), s)"
    using TAILQ_NEXT_ok [OF ok(1)] TAILQ_PREV_ok [OF ok(1)] by simp_all
qed (use TAILQ_INIT_ok [of s] TAILQ_INSERT_HEAD_ok [OF assms] TAILQ_INSERT_TAIL_ok [OF assms] in blast)+

theorem tailq_operations_witness:
  "\<exists>s' s''. TAILQ_REMOVE 2 \<lparr>tqh_first = Some 1, tqh_last = Next 2, tq_cells =
     [1 \<mapsto> \<lparr>tqe_next = Some 2, tqe_prev = First\<rparr>, 2 \<mapsto> \<lparr>tqe_next = None, tqe_prev = Next 1\<rparr>,
      3 \<mapsto> \<lparr>tqe_next = None, tqe_prev = First\<rparr>]\<rparr> = (Ret (), s') \<and> tailq_ok s' [1]
    \<and> TAILQ_INSERT_HEAD 3 \<lparr>tqh_first = None, tqh_last = First, tq_cells =
     [3 \<mapsto> \<lparr>tqe_next = Some 7, tqe_prev = First\<rparr>]\<rparr> = (Ret (), s'') \<and> tailq_ok s'' [3]"
proof -
  let ?s = "\<lparr>tqh_first = Some 1, tqh_last = Next 2, tq_cells =
     [1 \<mapsto> \<lparr>tqe_next = Some 2, tqe_prev = First\<rparr>, 2 \<mapsto> \<lparr>tqe_next = None, tqe_prev = Next 1\<rparr>,
      3 \<mapsto> \<lparr>tqe_next = None, tqe_prev = First\<rparr>]\<rparr>"
  let ?t = "\<lparr>tqh_first = None, tqh_last = First, tq_cells =
     [3 \<mapsto> \<lparr>tqe_next = Some 7, tqe_prev = First\<rparr>]\<rparr>"
  have ok: "tailq_ok ?s [1, 2]" "tailq_ok ?t []" by (simp_all add: tailq_ok_def tq_val_def tq_back_def)
  have "\<forall>xs x ys. [1, 2] = xs @ x # ys \<longrightarrow>
      (\<exists>s'. TAILQ_REMOVE x ?s = (Ret (), s') \<and> tailq_ok s' (xs @ ys))"
    using tailq_operations [OF ok(1), of 3] by simp
  from this [rule_format, of "[1]" 2 "[]"] obtain s' where "TAILQ_REMOVE 2 ?s = (Ret (), s')" "tailq_ok s' [1]" by auto
  moreover obtain s'' where "TAILQ_INSERT_HEAD 3 ?t = (Ret (), s'')" "tailq_ok s'' [3]"
    using tailq_operations [OF ok(2), of 3] by auto
  ultimately show ?thesis by blast
qed

end
