(* ===== verification/CircleQueue.thy ===== *)
theory CircleQueue
  imports Lval
begin

text \<open>
  The circular queues of inc/list.h (\<open>CIRCLEQ\<close>): the head closes the circle, so a link is the address
  of an element or of the head (cast to an element's address). Following a link that is the head as if
  it were an element is a fault.
\<close>

datatype link = Head | Elm nat

record circleq_entry =
  cqe_next :: link
  cqe_prev :: link

record circleq_head =
  cqh_first :: link
  cqh_last :: link
  cq_cells :: "nat \<Rightarrow> circleq_entry option"

section \<open>Access through pointers\<close>

definition cq_next :: "circleq_head \<Rightarrow> link \<Rightarrow> link option" where
  "cq_next s a = (case a of Head \<Rightarrow> Some (cqh_first s) | Elm x \<Rightarrow> map_option cqe_next (cq_cells s x))"

definition cq_prev :: "circleq_head \<Rightarrow> link \<Rightarrow> link option" where
  "cq_prev s a = (case a of Head \<Rightarrow> Some (cqh_last s) | Elm x \<Rightarrow> map_option cqe_prev (cq_cells s x))"

definition cq_put_next :: "link \<Rightarrow> link \<Rightarrow> circleq_head \<Rightarrow> circleq_head" where
  "cq_put_next a b s = (case a of
      Head \<Rightarrow> s\<lparr>cqh_first := b\<rparr>
    | Elm x \<Rightarrow> s\<lparr>cq_cells := (cq_cells s)(x := map_option (\<lambda>n. n\<lparr>cqe_next := b\<rparr>) (cq_cells s x))\<rparr>)"

definition cq_put_prev :: "link \<Rightarrow> link \<Rightarrow> circleq_head \<Rightarrow> circleq_head" where
  "cq_put_prev a b s = (case a of
      Head \<Rightarrow> s\<lparr>cqh_last := b\<rparr>
    | Elm x \<Rightarrow> s\<lparr>cq_cells := (cq_cells s)(x := map_option (\<lambda>n. n\<lparr>cqe_prev := b\<rparr>) (cq_cells s x))\<rparr>)"

text \<open>The fields of an element.\<close>

definition get_next :: "link \<Rightarrow> (circleq_head, link) prog" where
  "get_next a s = (if a = Head then (Fault, s) else
     (case cq_next s a of None \<Rightarrow> (Fault, s) | Some b \<Rightarrow> (Ret b, s)))"

definition get_prev :: "link \<Rightarrow> (circleq_head, link) prog" where
  "get_prev a s = (if a = Head then (Fault, s) else
     (case cq_prev s a of None \<Rightarrow> (Fault, s) | Some b \<Rightarrow> (Ret b, s)))"

definition set_cnext :: "link \<Rightarrow> link \<Rightarrow> (circleq_head, unit) prog" where
  "set_cnext a b s =
     (if a = Head \<or> cq_next s a = None then (Fault, s) else (Ret (), cq_put_next a b s))"

definition set_cprev :: "link \<Rightarrow> link \<Rightarrow> (circleq_head, unit) prog" where
  "set_cprev a b s =
     (if a = Head \<or> cq_prev s a = None then (Fault, s) else (Ret (), cq_put_prev a b s))"

section \<open>The macros\<close>

definition CIRCLEQ_INIT :: "(circleq_head, unit) prog" where
  "CIRCLEQ_INIT = sseq (smod (\<lambda>s. s\<lparr>cqh_first := Head\<rparr>)) (smod (\<lambda>s. s\<lparr>cqh_last := Head\<rparr>))"

definition CIRCLEQ_HEAD_INITIALIZER :: "(nat \<Rightarrow> circleq_entry option) \<Rightarrow> circleq_head" where
  "CIRCLEQ_HEAD_INITIALIZER cs = \<lparr>cqh_first = Head, cqh_last = Head, cq_cells = cs\<rparr>"

lemma CIRCLEQ_is_initializer: "CIRCLEQ_INIT s = (Ret (), CIRCLEQ_HEAD_INITIALIZER (cq_cells s))"
  by (simp add: CIRCLEQ_INIT_def CIRCLEQ_HEAD_INITIALIZER_def smod_def sseq_def sbind_def)

definition CIRCLEQ_INSERT_AFTER :: "nat \<Rightarrow> nat \<Rightarrow> (circleq_head, unit) prog" where
  "CIRCLEQ_INSERT_AFTER listelm elm =
     sseq (sbind (get_next (Elm listelm)) (set_cnext (Elm elm)))
     (sseq (set_cprev (Elm elm) (Elm listelm))
     (sseq (sbind (get_next (Elm listelm)) (\<lambda>a.
              if a = Head then smod (cq_put_prev Head (Elm elm))
              else sbind (get_next (Elm listelm)) (\<lambda>b. set_cprev b (Elm elm))))
        (set_cnext (Elm listelm) (Elm elm))))"

definition CIRCLEQ_INSERT_BEFORE :: "nat \<Rightarrow> nat \<Rightarrow> (circleq_head, unit) prog" where
  "CIRCLEQ_INSERT_BEFORE listelm elm =
     sseq (set_cnext (Elm elm) (Elm listelm))
     (sseq (sbind (get_prev (Elm listelm)) (set_cprev (Elm elm)))
     (sseq (sbind (get_prev (Elm listelm)) (\<lambda>a.
              if a = Head then smod (cq_put_next Head (Elm elm))
              else sbind (get_prev (Elm listelm)) (\<lambda>b. set_cnext b (Elm elm))))
        (set_cprev (Elm listelm) (Elm elm))))"

definition CIRCLEQ_INSERT_HEAD :: "nat \<Rightarrow> (circleq_head, unit) prog" where
  "CIRCLEQ_INSERT_HEAD elm =
     sseq (sbind (sget cqh_first) (set_cnext (Elm elm)))
     (sseq (set_cprev (Elm elm) Head)
     (sseq (sbind (sget cqh_last) (\<lambda>a.
              if a = Head then smod (cq_put_prev Head (Elm elm))
              else sbind (sget cqh_first) (\<lambda>b. set_cprev b (Elm elm))))
        (smod (cq_put_next Head (Elm elm)))))"

definition CIRCLEQ_INSERT_TAIL :: "nat \<Rightarrow> (circleq_head, unit) prog" where
  "CIRCLEQ_INSERT_TAIL elm =
     sseq (set_cnext (Elm elm) Head)
     (sseq (sbind (sget cqh_last) (set_cprev (Elm elm)))
     (sseq (sbind (sget cqh_first) (\<lambda>a.
              if a = Head then smod (cq_put_next Head (Elm elm))
              else sbind (sget cqh_last) (\<lambda>b. set_cnext b (Elm elm))))
        (smod (cq_put_prev Head (Elm elm)))))"

definition CIRCLEQ_REMOVE :: "nat \<Rightarrow> (circleq_head, unit) prog" where
  "CIRCLEQ_REMOVE elm =
     sseq (sbind (get_next (Elm elm)) (\<lambda>a.
            if a = Head then sbind (get_prev (Elm elm)) (\<lambda>b. smod (cq_put_prev Head b))
            else sbind (get_prev (Elm elm)) (set_cprev a)))
       (sbind (get_prev (Elm elm)) (\<lambda>a.
            if a = Head then sbind (get_next (Elm elm)) (\<lambda>b. smod (cq_put_next Head b))
            else sbind (get_next (Elm elm)) (set_cnext a)))"

definition CIRCLEQ_EMPTY :: "circleq_head \<Rightarrow> bool" where
  "CIRCLEQ_EMPTY s \<longleftrightarrow> cqh_first s = Head"

definition CIRCLEQ_FIRST :: "circleq_head \<Rightarrow> link" where
  "CIRCLEQ_FIRST s = cqh_first s"

definition CIRCLEQ_LAST :: "circleq_head \<Rightarrow> link" where
  "CIRCLEQ_LAST s = cqh_last s"

definition CIRCLEQ_NEXT :: "nat \<Rightarrow> (circleq_head, link) prog" where
  "CIRCLEQ_NEXT elm = get_next (Elm elm)"

definition CIRCLEQ_PREV :: "nat \<Rightarrow> (circleq_head, link) prog" where
  "CIRCLEQ_PREV elm = get_prev (Elm elm)"

text \<open>The loops end at the head.\<close>

definition elm_of :: "link \<Rightarrow> ptr" where
  "elm_of a = (case a of Head \<Rightarrow> None | Elm x \<Rightarrow> Some x)"

definition CIRCLEQ_FOREACH ::
  "nat \<Rightarrow> (nat \<Rightarrow> 'v \<Rightarrow> (circleq_head, 'v) prog) \<Rightarrow> 'v \<Rightarrow> (circleq_head, 'v) prog" where
  "CIRCLEQ_FOREACH k body v =
     sbind (sget CIRCLEQ_FIRST) (\<lambda>a.
       for_ptr k (\<lambda>x. sbind (CIRCLEQ_NEXT x) (\<lambda>b. sret (elm_of b))) body (elm_of a) v)"

definition CIRCLEQ_FOREACH_REVERSE ::
  "nat \<Rightarrow> (nat \<Rightarrow> 'v \<Rightarrow> (circleq_head, 'v) prog) \<Rightarrow> 'v \<Rightarrow> (circleq_head, 'v) prog" where
  "CIRCLEQ_FOREACH_REVERSE k body v =
     sbind (sget CIRCLEQ_LAST) (\<lambda>a.
       for_ptr k (\<lambda>x. sbind (CIRCLEQ_PREV x) (\<lambda>b. sret (elm_of b))) body (elm_of a) v)"

section \<open>Paths\<close>

text \<open>\<open>xs\<close> is the path from \<open>a\<close> to \<open>b\<close>, linked in both directions.\<close>

fun path :: "(link \<Rightarrow> link option) \<Rightarrow> (link \<Rightarrow> link option) \<Rightarrow> link \<Rightarrow> nat list \<Rightarrow> link \<Rightarrow> bool" where
  "path n p a [] b \<longleftrightarrow> n a = Some b \<and> p b = Some a"
| "path n p a (x # xs) b \<longleftrightarrow> n a = Some (Elm x) \<and> p (Elm x) = Some a \<and> path n p (Elm x) xs b"

lemma path_app: "path n p a (xs @ y # ys) b \<longleftrightarrow> path n p a xs (Elm y) \<and> path n p (Elm y) ys b"
  by (induction xs arbitrary: a) auto

lemma path_frame:
  "path n p a xs b \<Longrightarrow> \<forall>k \<in> insert a (Elm ` set xs). n' k = n k \<Longrightarrow> \<forall>k \<in> insert b (Elm ` set xs). p' k = p k \<Longrightarrow>
   path n' p' a xs b"
  by (induction xs arbitrary: a) auto

definition left_of :: "link \<Rightarrow> nat list \<Rightarrow> link" where
  "left_of a xs = (if xs = [] then a else Elm (last xs))"

definition right_of :: "nat list \<Rightarrow> link \<Rightarrow> link" where
  "right_of ys b = (case ys of [] \<Rightarrow> b | y # _ \<Rightarrow> Elm y)"

lemma right_of_simps [simp]: "right_of [] b = b" "right_of (y # ys) b = Elm y"
  by (simp_all add: right_of_def)

lemma left_of_simps [simp]: "left_of a [] = a" "left_of a (x # xs) = left_of (Elm x) xs"
  by (simp_all add: left_of_def)

lemma path_ends: "path n p a xs b \<Longrightarrow> n a = Some (right_of xs b) \<and> p b = Some (left_of a xs)"
proof (induction xs arbitrary: a)
  case (Cons x xs)
  then have "path n p (Elm x) xs b" "n a = Some (Elm x)" by simp_all
  with Cons.IH show ?case by simp
qed simp

lemma path_retarget:
  "path n p a xs b \<Longrightarrow> distinct xs \<Longrightarrow> a \<notin> Elm ` set xs \<Longrightarrow> t \<notin> Elm ` set xs \<Longrightarrow>
   path (n(left_of a xs \<mapsto> t)) (p(t \<mapsto> left_of a xs)) a xs t"
proof (induction xs arbitrary: a)
  case (Cons x xs)
  then have "left_of (Elm x) xs \<noteq> a" by (auto simp: left_of_def)
  moreover have "path (n(left_of (Elm x) xs \<mapsto> t)) (p(t \<mapsto> left_of (Elm x) xs)) (Elm x) xs t"
    using Cons.prems by (intro Cons.IH) auto
  moreover have "Elm x \<noteq> t" using Cons.prems by auto
  ultimately show ?case using Cons.prems by (simp del: fun_upd_apply add: fun_upd_other)
qed simp

lemma path_split: "path n p a (xs @ ys) b \<Longrightarrow> path n p a xs (right_of ys b)"
  by (cases ys) (auto simp: path_app)

lemma left_of_other: "set xs \<inter> set ys = {} \<Longrightarrow> left_of Head xs \<notin> Elm ` set ys"
  using last_not_behind [of xs ys] by (auto simp: left_of_def)

lemma path_insert:
  assumes "path n p Head (xs @ ys) Head" "distinct (e # xs @ ys)"
    and "k = left_of Head xs" "j = right_of ys Head"
    and "n' = n(k \<mapsto> Elm e, Elm e \<mapsto> j)" "p' = p(Elm e \<mapsto> k, j \<mapsto> Elm e)"
  shows "path n' p' Head (xs @ e # ys) Head"
proof -
  have k: "k \<noteq> Elm e" "k \<notin> Elm ` set ys" using assms(2,3) left_of_other [of xs "e # ys"] by auto
  have j: "j \<noteq> Elm e" "j \<notin> Elm ` set xs" using assms(2,4) by (cases ys; auto)+
  have "path (n(k \<mapsto> Elm e)) (p(Elm e \<mapsto> k)) Head xs (Elm e)"
    using assms(2) path_retarget [OF path_split [OF assms(1)], of "Elm e"] by (auto simp: assms(3))
  then have "path n' p' Head xs (Elm e)"
    using assms(2) j by (rule_tac path_frame) (auto simp: assms(5,6))
  moreover have "path n' p' (Elm e) ys Head"
  proof (cases ys)
    case Nil
    with assms(4-6) show ?thesis by simp
  next
    case (Cons y zs)
    with assms(1) have "path n p (Elm y) zs Head" by (simp add: path_app)
    then have "path n' p' (Elm y) zs Head"
      using assms(2,4) k Cons by (rule_tac path_frame) (auto simp: assms(5,6))
    with Cons assms(4-6) show ?thesis by simp
  qed
  ultimately show ?thesis by (simp add: path_app)
qed

lemma path_remove:
  assumes "path n p Head (xs @ x # ys) Head" "distinct (xs @ x # ys)"
    and "k = left_of Head xs" "j = right_of ys Head"
    and "n' = n(k \<mapsto> j)" "p' = p(j \<mapsto> k)"
  shows "path n' p' Head (xs @ ys) Head"
proof -
  have k: "k \<notin> Elm ` set ys" using assms(2,3) left_of_other [of xs ys] by auto
  have "j \<notin> Elm ` set xs" using assms(2,4) by (cases ys) auto
  with assms(1,2) path_retarget [of n p Head xs "Elm x" j]
  have 1: "path n' p' Head xs j" by (auto simp: path_app assms(3,5,6))
  show ?thesis
  proof (cases ys)
    case Nil
    with 1 assms(4) show ?thesis by simp
  next
    case (Cons y zs)
    with assms(1) have "path n p (Elm y) zs Head" by (auto simp: path_app)
    then have "path n' p' (Elm y) zs Head"
      using assms(2,4) k Cons by (rule_tac path_frame) (auto simp: assms(5,6))
    with 1 Cons assms(4) show ?thesis by (simp add: path_app)
  qed
qed

section \<open>Projections\<close>

definition cq_dom :: "circleq_head \<Rightarrow> link set" where
  "cq_dom s = insert Head (Elm ` dom (cq_cells s))"

lemma cq_put_cells [simp]:
  "dom (cq_cells (cq_put_next a b s)) = dom (cq_cells s)"
  "dom (cq_cells (cq_put_prev a b s)) = dom (cq_cells s)"
  "cq_dom (cq_put_next a b s) = cq_dom s" "cq_dom (cq_put_prev a b s) = cq_dom s"
  by (auto simp: cq_put_next_def cq_put_prev_def cq_dom_def split: link.splits if_splits)

lemma cq_put [simp]:
  "a \<in> cq_dom s \<Longrightarrow> cq_next (cq_put_next a b s) = (cq_next s)(a \<mapsto> b)"
  "cq_next (cq_put_prev a b s) = cq_next s"
  "a \<in> cq_dom s \<Longrightarrow> cq_prev (cq_put_prev a b s) = (cq_prev s)(a \<mapsto> b)"
  "cq_prev (cq_put_next a b s) = cq_prev s"
  by (auto simp: cq_next_def cq_prev_def cq_put_next_def cq_put_prev_def cq_dom_def fun_eq_iff
      option.map_comp comp_def split: link.split)

lemma cq_next_None [simp]: "cq_next s a = None \<longleftrightarrow> a \<notin> cq_dom s" "cq_prev s a = None \<longleftrightarrow> a \<notin> cq_dom s"
  by (auto simp: cq_next_def cq_prev_def cq_dom_def split: link.split)

lemma cq_heads: "cq_next s Head = Some (cqh_first s)" "cq_prev s Head = Some (cqh_last s)" "Head \<in> cq_dom s"
  by (simp_all add: cq_next_def cq_prev_def cq_dom_def)

lemma cq_access:
  "cq_next s (Elm x) = Some b \<Longrightarrow> get_next (Elm x) s = (Ret b, s)"
  "cq_prev s (Elm x) = Some b \<Longrightarrow> get_prev (Elm x) s = (Ret b, s)"
  "Elm x \<in> cq_dom s \<Longrightarrow> set_cnext (Elm x) b s = (Ret (), cq_put_next (Elm x) b s)"
  "Elm x \<in> cq_dom s \<Longrightarrow> set_cprev (Elm x) b s = (Ret (), cq_put_prev (Elm x) b s)"
  by (simp_all add: get_next_def get_prev_def set_cnext_def set_cprev_def)

lemmas cq_run = sseq_def sbind_def smod_def sget_def sret_def cq_access CIRCLEQ_NEXT_def CIRCLEQ_PREV_def

section \<open>The operations on the list\<close>

definition circleq_ok :: "circleq_head \<Rightarrow> nat list \<Rightarrow> bool" where
  "circleq_ok s xs \<longleftrightarrow> path (cq_next s) (cq_prev s) Head xs Head \<and> distinct xs"

lemma path_alloc: "path n p a xs b \<Longrightarrow> x \<in> set xs \<Longrightarrow> n (Elm x) \<noteq> None"
proof (induction xs arbitrary: a)
  case (Cons y ys)
  then show ?case using path_ends [of n p "Elm y" ys b] by auto
qed simp

lemma circleq_ok_dom: "circleq_ok s xs \<Longrightarrow> Elm ` set xs \<subseteq> cq_dom s"
  unfolding circleq_ok_def using path_alloc [of "cq_next s" "cq_prev s" Head xs Head]
  by (metis cq_next_None(1) image_subset_iff)

lemma circleq_nbrs:
  assumes "circleq_ok s (xs @ ys)"
  shows "cq_next s (left_of Head xs) = Some (right_of ys Head)" "cq_prev s (right_of ys Head) = Some (left_of Head xs)"
    "left_of Head xs \<in> cq_dom s" "right_of ys Head \<in> cq_dom s"
proof -
  have p: "path (cq_next s) (cq_prev s) Head (xs @ ys) Head" using assms by (simp add: circleq_ok_def)
  from path_ends [OF path_split [OF p]]
  show 1: "cq_prev s (right_of ys Head) = Some (left_of Head xs)" by simp
  show 2: "cq_next s (left_of Head xs) = Some (right_of ys Head)"
  proof (cases xs rule: rev_cases)
    case Nil
    with path_ends [OF p] show ?thesis by simp
  next
    case (snoc zs z)
    with p have "path (cq_next s) (cq_prev s) (Elm z) ys Head" by (simp add: path_app)
    from path_ends [OF this] snoc show ?thesis by (simp add: left_of_def)
  qed
  show "left_of Head xs \<in> cq_dom s" "right_of ys Head \<in> cq_dom s"
    using 1 2 cq_next_None(1) [of s "left_of Head xs"] cq_next_None(2) [of s "right_of ys Head"] by auto
qed

lemma circleq_inserted:
  assumes "circleq_ok s (xs @ ys)" "e \<notin> set (xs @ ys)"
    and "cq_next s' = (cq_next s)(left_of Head xs \<mapsto> Elm e, Elm e \<mapsto> right_of ys Head)"
    and "cq_prev s' = (cq_prev s)(Elm e \<mapsto> left_of Head xs, right_of ys Head \<mapsto> Elm e)"
  shows "circleq_ok s' (xs @ e # ys)"
  using assms path_insert [OF _ _ refl refl assms(3,4)] by (simp add: circleq_ok_def)

lemma left_of_snoc [simp]: "left_of a (xs @ [x]) = Elm x"
  by (simp add: left_of_def)

lemma cq_stored:
  "a \<in> cq_dom s \<Longrightarrow> (if a = Head then smod (cq_put_prev Head b) else set_cprev a b) s = (Ret (), cq_put_prev a b s)"
  "a \<in> cq_dom s \<Longrightarrow> (if a = Head then smod (cq_put_next Head b) else set_cnext a b) s = (Ret (), cq_put_next a b s)"
  by (cases a; simp add: smod_def cq_access)+

lemma CIRCLEQ_INSERT_AFTER_ok:
  assumes "circleq_ok s (xs @ x # ys)" "e \<in> dom (cq_cells s)" "e \<notin> set (xs @ x # ys)"
  shows "\<exists>s'. CIRCLEQ_INSERT_AFTER x e s = (Ret (), s') \<and> circleq_ok s' (xs @ x # e # ys)
    \<and> dom (cq_cells s') = dom (cq_cells s)"
proof -
  define j where "j = right_of ys Head"
  have ok: "circleq_ok s ((xs @ [x]) @ ys)" using assms(1) by simp
  note nb = circleq_nbrs [OF ok, folded j_def, simplified]
  have e: "Elm e \<in> cq_dom s" "x \<noteq> e" "j \<noteq> Elm e"
    using assms(2,3) by (auto simp: cq_dom_def j_def right_of_def split: list.splits)
  let ?s = "cq_put_next (Elm x) (Elm e) (cq_put_prev j (Elm e) (cq_put_prev (Elm e) (Elm x) (cq_put_next (Elm e) j s)))"
  have "CIRCLEQ_INSERT_AFTER x e s = (Ret (), ?s)"
    using nb e cq_stored(1) [of j "cq_put_prev (Elm e) (Elm x) (cq_put_next (Elm e) j s)" "Elm e"]
    by (cases "j = Head") (simp_all add: CIRCLEQ_INSERT_AFTER_def cq_run)
  moreover have "circleq_ok ?s ((xs @ [x]) @ e # ys)"
    using assms(3) nb e by (intro circleq_inserted [OF ok]) (simp_all add: j_def [symmetric] fun_upd_twist)
  ultimately show ?thesis by (intro exI [of _ ?s]) simp
qed

lemma CIRCLEQ_INSERT_BEFORE_ok:
  assumes "circleq_ok s (xs @ x # ys)" "e \<in> dom (cq_cells s)" "e \<notin> set (xs @ x # ys)"
  shows "\<exists>s'. CIRCLEQ_INSERT_BEFORE x e s = (Ret (), s') \<and> circleq_ok s' (xs @ e # x # ys)
    \<and> dom (cq_cells s') = dom (cq_cells s)"
proof -
  define k where "k = left_of Head xs"
  note nb = circleq_nbrs [OF assms(1), folded k_def, simplified]
  have e: "Elm e \<in> cq_dom s" "x \<noteq> e" "k \<noteq> Elm e"
    using assms(2,3) last_in_set [of xs] by (auto simp: cq_dom_def k_def left_of_def split: if_splits)
  let ?s = "cq_put_prev (Elm x) (Elm e) (cq_put_next k (Elm e) (cq_put_prev (Elm e) k (cq_put_next (Elm e) (Elm x) s)))"
  have "CIRCLEQ_INSERT_BEFORE x e s = (Ret (), ?s)"
    using nb e cq_stored(2) [of k "cq_put_prev (Elm e) k (cq_put_next (Elm e) (Elm x) s)" "Elm e"]
    by (cases "k = Head") (simp_all add: CIRCLEQ_INSERT_BEFORE_def cq_run)
  moreover have "circleq_ok ?s (xs @ e # x # ys)"
    using assms(3) nb e by (intro circleq_inserted [OF assms(1)]) (simp_all add: k_def [symmetric] fun_upd_twist)
  ultimately show ?thesis by (intro exI [of _ ?s]) simp
qed

lemma CIRCLEQ_INSERT_HEAD_ok:
  assumes "circleq_ok s xs" "e \<in> dom (cq_cells s)" "e \<notin> set xs"
  shows "\<exists>s'. CIRCLEQ_INSERT_HEAD e s = (Ret (), s') \<and> circleq_ok s' (e # xs)
    \<and> dom (cq_cells s') = dom (cq_cells s)"
proof -
  define j where "j = right_of xs Head"
  have ok: "circleq_ok s ([] @ xs)" using assms(1) by simp
  note nb = circleq_nbrs [OF ok, folded j_def, simplified]
  have e: "Elm e \<in> cq_dom s" "j \<noteq> Elm e"
    using assms(2,3) by (auto simp: cq_dom_def j_def right_of_def split: list.splits)
  have h: "cqh_first s = j" using nb(1) by (simp add: cq_heads)
  have l: "cqh_last s = Head \<longleftrightarrow> j = Head"
    using circleq_nbrs(2) [of s xs "[]"] assms(1) by (cases xs) (auto simp: cq_heads j_def left_of_def)
  let ?s = "cq_put_next Head (Elm e) (cq_put_prev j (Elm e) (cq_put_prev (Elm e) Head (cq_put_next (Elm e) j s)))"
  have hh: "cqh_last (cq_put_prev (Elm e) Head (cq_put_next (Elm e) j s)) = cqh_last s"
    "cqh_first (cq_put_prev (Elm e) Head (cq_put_next (Elm e) j s)) = cqh_first s"
    by (simp_all add: cq_put_prev_def cq_put_next_def)
  have "CIRCLEQ_INSERT_HEAD e s = (Ret (), ?s)"
    using nb e h l hh cq_stored(1) [of j "cq_put_prev (Elm e) Head (cq_put_next (Elm e) j s)" "Elm e"]
    by (cases "j = Head") (simp_all add: CIRCLEQ_INSERT_HEAD_def cq_run)
  moreover have "circleq_ok ?s ([] @ e # xs)"
    using assms(3) nb e by (intro circleq_inserted [OF ok]) (simp_all add: j_def [symmetric] fun_upd_twist cq_heads)
  ultimately show ?thesis by (intro exI [of _ ?s]) simp
qed

lemma CIRCLEQ_INSERT_TAIL_ok:
  assumes "circleq_ok s xs" "e \<in> dom (cq_cells s)" "e \<notin> set xs"
  shows "\<exists>s'. CIRCLEQ_INSERT_TAIL e s = (Ret (), s') \<and> circleq_ok s' (xs @ [e])
    \<and> dom (cq_cells s') = dom (cq_cells s)"
proof -
  define k where "k = left_of Head xs"
  have ok: "circleq_ok s (xs @ [])" using assms(1) by simp
  note nb = circleq_nbrs [OF ok, folded k_def, simplified]
  have e: "Elm e \<in> cq_dom s" "k \<noteq> Elm e"
    using assms(2,3) last_in_set [of xs] by (auto simp: cq_dom_def k_def left_of_def split: if_splits)
  have h: "cqh_last s = k" using nb(2) by (simp add: cq_heads)
  have l: "cqh_first s = Head \<longleftrightarrow> k = Head"
    using circleq_nbrs(1) [of s "[]" xs] assms(1) by (cases xs) (auto simp: cq_heads k_def left_of_def)
  let ?s = "cq_put_prev Head (Elm e) (cq_put_next k (Elm e) (cq_put_prev (Elm e) k (cq_put_next (Elm e) Head s)))"
  have hh: "cqh_last (cq_put_prev (Elm e) k (cq_put_next (Elm e) Head s)) = cqh_last s"
    "cqh_first (cq_put_prev (Elm e) k (cq_put_next (Elm e) Head s)) = cqh_first s"
    "cqh_last (cq_put_next (Elm e) Head s) = cqh_last s"
    by (simp_all add: cq_put_prev_def cq_put_next_def)
  have "CIRCLEQ_INSERT_TAIL e s = (Ret (), ?s)"
    using nb e h l hh cq_stored(2) [of k "cq_put_prev (Elm e) k (cq_put_next (Elm e) Head s)" "Elm e"]
    by (cases "k = Head") (simp_all add: CIRCLEQ_INSERT_TAIL_def cq_run)
  moreover have "circleq_ok ?s (xs @ e # [])"
    using assms(3) nb e by (intro circleq_inserted [OF ok]) (simp_all add: k_def [symmetric] fun_upd_twist cq_heads)
  ultimately show ?thesis by (intro exI [of _ ?s]) simp
qed

lemma CIRCLEQ_REMOVE_ok:
  assumes "circleq_ok s (xs @ x # ys)"
  shows "\<exists>s'. CIRCLEQ_REMOVE x s = (Ret (), s') \<and> circleq_ok s' (xs @ ys)
    \<and> dom (cq_cells s') = dom (cq_cells s)"
proof -
  define k where "k = left_of Head xs"
  define j where "j = right_of ys Head"
  have ok: "circleq_ok s ((xs @ [x]) @ ys)" using assms(1) by simp
  note nb = circleq_nbrs [OF assms, folded k_def, simplified] circleq_nbrs [OF ok, folded j_def, simplified]
  have d: "distinct (xs @ x # ys)" and p: "path (cq_next s) (cq_prev s) Head (xs @ x # ys) Head"
    using assms by (simp_all add: circleq_ok_def)
  have ne: "j \<noteq> Elm x" using d by (auto simp: j_def right_of_def split: list.splits)
  let ?s = "cq_put_next k j (cq_put_prev j k s)"
  have "CIRCLEQ_REMOVE x s = (Ret (), ?s)"
    using nb ne cq_stored(1) [of j s k] cq_stored(2) [of k "cq_put_prev j k s" j]
    by (cases "j = Head"; cases "k = Head") (simp_all add: CIRCLEQ_REMOVE_def cq_run)
  moreover have "circleq_ok ?s (xs @ ys)"
    using d nb path_remove [OF p d k_def j_def refl refl] by (simp add: circleq_ok_def)
  ultimately show ?thesis by (intro exI [of _ ?s]) simp
qed

section \<open>The interface\<close>

lemma elm_of_ends: "elm_of (right_of ys Head) = hd_ptr ys" "elm_of (left_of Head xs) = hd_ptr (rev xs)"
  by (cases ys; simp add: elm_of_def) (cases xs rule: rev_cases; simp add: elm_of_def left_of_def)

lemma CIRCLEQ_NEXT_ok:
  assumes "circleq_ok s (xs @ x # ys)"
  shows "CIRCLEQ_NEXT x s = (Ret (right_of ys Head), s)" "CIRCLEQ_PREV x s = (Ret (left_of Head xs), s)"
  using circleq_nbrs [of s "xs @ [x]" ys] circleq_nbrs [of s xs "x # ys"] assms
  by (simp_all add: CIRCLEQ_NEXT_def CIRCLEQ_PREV_def cq_access)

lemma circleq_heads:
  assumes "circleq_ok s xs"
  shows "CIRCLEQ_FIRST s = right_of xs Head" "CIRCLEQ_LAST s = left_of Head xs"
  using circleq_nbrs(1) [of s "[]" xs] circleq_nbrs(2) [of s xs "[]"] assms
  by (simp_all add: CIRCLEQ_FIRST_def CIRCLEQ_LAST_def cq_heads)

interpretation CIRCLEQ: linked "\<lambda>_. True" circleq_ok "\<lambda>s. dom (cq_cells s)" CIRCLEQ_INIT
  "\<lambda>s. elm_of (CIRCLEQ_FIRST s)" "\<lambda>x. sbind (CIRCLEQ_NEXT x) (\<lambda>b. sret (elm_of b))" CIRCLEQ_INSERT_HEAD
proof unfold_locales
  show "\<exists>s'. CIRCLEQ_INIT s = (Ret (), s') \<and> circleq_ok s' [] \<and> dom (cq_cells s') = dom (cq_cells s)" for s
    by (simp add: CIRCLEQ_INIT_def sseq_def sbind_def smod_def circleq_ok_def cq_next_def cq_prev_def)
  show "distinct xs \<and> set xs \<subseteq> dom (cq_cells s)" if "circleq_ok s xs" for s xs
    using circleq_ok_dom [OF that] that by (auto simp: circleq_ok_def cq_dom_def)
qed (simp_all add: CIRCLEQ_INSERT_HEAD_ok CIRCLEQ_NEXT_ok circleq_heads elm_of_ends sbind_Ret sret_def del: domIff)

interpretation CIRCLEQ: edited "\<lambda>_. True" circleq_ok "\<lambda>s. dom (cq_cells s)" CIRCLEQ_INIT
  "\<lambda>s. elm_of (CIRCLEQ_FIRST s)" "\<lambda>x. sbind (CIRCLEQ_NEXT x) (\<lambda>b. sret (elm_of b))" CIRCLEQ_INSERT_HEAD
  CIRCLEQ_INSERT_AFTER CIRCLEQ_REMOVE
  by unfold_locales (simp_all add: CIRCLEQ_INSERT_AFTER_ok CIRCLEQ_REMOVE_ok del: domIff)

interpretation CIRCLEQ: fifo "\<lambda>_. True" circleq_ok "\<lambda>s. dom (cq_cells s)" CIRCLEQ_INIT
  "\<lambda>s. elm_of (CIRCLEQ_FIRST s)" "\<lambda>x. sbind (CIRCLEQ_NEXT x) (\<lambda>b. sret (elm_of b))" CIRCLEQ_INSERT_HEAD
  CIRCLEQ_INSERT_TAIL
  by unfold_locales (simp_all add: CIRCLEQ_INSERT_TAIL_ok del: domIff)

lemma CIRCLEQ_FOREACH_ok:
  assumes "circleq_ok s xs" "length xs \<le> k"
  shows "CIRCLEQ_FOREACH k (\<lambda>x v. sret (f x v)) v s = (Ret (fold f xs v), s)"
  using CIRCLEQ.visits [OF assms] by (simp add: CIRCLEQ_FOREACH_def sbind_def sget_def)

lemma CIRCLEQ_FOREACH_REVERSE_ok:
  assumes "circleq_ok s xs" "length xs \<le> k"
  shows "CIRCLEQ_FOREACH_REVERSE k (\<lambda>x v. sret (f x v)) v s = (Ret (fold f (rev xs) v), s)"
proof -
  have "for_ptr k (\<lambda>x. sbind (CIRCLEQ_PREV x) (\<lambda>b. sret (elm_of b))) (\<lambda>x v. sret (f x v)) (hd_ptr (rev xs)) v s =
      (Ret (fold f (rev xs) v), s)"
  proof (rule for_ptr_visits)
    fix ys x zs assume "rev xs = ys @ x # zs"
    then have "xs = rev zs @ x # rev ys" by (simp add: rev_eq_append_conv)
    with assms(1) CIRCLEQ_NEXT_ok(2) [of s "rev zs" x "rev ys"]
    show "sbind (CIRCLEQ_PREV x) (\<lambda>b. sret (elm_of b)) s = (Ret (hd_ptr zs), s)"
      by (simp add: sbind_Ret sret_def elm_of_ends)
  qed (use assms(2) in simp)
  then show ?thesis
    using circleq_heads [OF assms(1)] by (simp add: CIRCLEQ_FOREACH_REVERSE_def sbind_def sget_def elm_of_ends)
qed

text \<open>Every operation, as the operation on the list of elements.\<close>

text \<open>
  C27: Each CIRCLEQ operation, on an empty ring too where it takes one, keeps the ring through
  the head well-formed in both directions and does to the list of elements what its name says;
  the visits in both directions see that list.
\<close>

theorem circleq_operations:
  assumes "circleq_ok s zs" "e \<in> dom (cq_cells s)" "e \<notin> set zs" "length zs \<le> k"
  shows "(\<exists>s'. CIRCLEQ_INIT s = (Ret (), s') \<and> circleq_ok s' [])
    \<and> (\<exists>s'. CIRCLEQ_INSERT_HEAD e s = (Ret (), s') \<and> circleq_ok s' (e # zs))
    \<and> (\<exists>s'. CIRCLEQ_INSERT_TAIL e s = (Ret (), s') \<and> circleq_ok s' (zs @ [e]))
    \<and> CIRCLEQ_EMPTY s = (zs = []) \<and> CIRCLEQ_FIRST s = right_of zs Head \<and> CIRCLEQ_LAST s = left_of Head zs
    \<and> CIRCLEQ_FOREACH k (\<lambda>x v. sret (f x v)) v s = (Ret (fold f zs v), s)
    \<and> CIRCLEQ_FOREACH_REVERSE k (\<lambda>x v. sret (f x v)) v s = (Ret (fold f (rev zs) v), s)
    \<and> (\<forall>xs x ys. zs = xs @ x # ys \<longrightarrow>
         (\<exists>s'. CIRCLEQ_INSERT_AFTER x e s = (Ret (), s') \<and> circleq_ok s' (xs @ x # e # ys))
       \<and> (\<exists>s'. CIRCLEQ_INSERT_BEFORE x e s = (Ret (), s') \<and> circleq_ok s' (xs @ e # x # ys))
       \<and> (\<exists>s'. CIRCLEQ_REMOVE x s = (Ret (), s') \<and> circleq_ok s' (xs @ ys))
       \<and> CIRCLEQ_NEXT x s = (Ret (right_of ys Head), s) \<and> CIRCLEQ_PREV x s = (Ret (left_of Head xs), s))"
proof (intro conjI allI impI)
  show "CIRCLEQ_FIRST s = right_of zs Head" "CIRCLEQ_LAST s = left_of Head zs"
    using circleq_heads [OF assms(1)] by simp_all
  then show "CIRCLEQ_EMPTY s = (zs = [])"
    by (cases zs) (simp_all add: CIRCLEQ_EMPTY_def CIRCLEQ_FIRST_def)
  show "CIRCLEQ_FOREACH k (\<lambda>x v. sret (f x v)) v s = (Ret (fold f zs v), s)"
    "CIRCLEQ_FOREACH_REVERSE k (\<lambda>x v. sret (f x v)) v s = (Ret (fold f (rev zs) v), s)"
    by (rule CIRCLEQ_FOREACH_ok [OF assms(1,4)] CIRCLEQ_FOREACH_REVERSE_ok [OF assms(1,4)])+
  show "\<exists>s'. CIRCLEQ_INIT s = (Ret (), s') \<and> circleq_ok s' []" using CIRCLEQ.init_ok [of s] by blast
next
  fix xs x ys assume z: "zs = xs @ x # ys"
  note ok = assms(1-3) [unfolded z]
  show "\<exists>s'. CIRCLEQ_INSERT_AFTER x e s = (Ret (), s') \<and> circleq_ok s' (xs @ x # e # ys)"
    "\<exists>s'. CIRCLEQ_INSERT_BEFORE x e s = (Ret (), s') \<and> circleq_ok s' (xs @ e # x # ys)"
    "\<exists>s'. CIRCLEQ_REMOVE x s = (Ret (), s') \<and> circleq_ok s' (xs @ ys)"
    using CIRCLEQ_INSERT_AFTER_ok [OF ok] CIRCLEQ_INSERT_BEFORE_ok [OF ok] CIRCLEQ_REMOVE_ok [OF ok(1)] by blast+
  show "CIRCLEQ_NEXT x s = (Ret (right_of ys Head), s)" "CIRCLEQ_PREV x s = (Ret (left_of Head xs), s)"
    using CIRCLEQ_NEXT_ok [OF ok(1)] by simp_all
qed (use CIRCLEQ_INSERT_HEAD_ok [OF assms(1-3)] CIRCLEQ_INSERT_TAIL_ok [OF assms(1-3)] in blast)+

theorem circleq_operations_witness:
  "\<exists>s' s''. CIRCLEQ_INSERT_BEFORE 2 3 \<lparr>cqh_first = Elm 1, cqh_last = Elm 2, cq_cells =
     [1 \<mapsto> \<lparr>cqe_next = Elm 2, cqe_prev = Head\<rparr>, 2 \<mapsto> \<lparr>cqe_next = Head, cqe_prev = Elm 1\<rparr>,
      3 \<mapsto> \<lparr>cqe_next = Head, cqe_prev = Head\<rparr>]\<rparr> = (Ret (), s') \<and> circleq_ok s' [1, 3, 2]
    \<and> CIRCLEQ_INSERT_TAIL 3 \<lparr>cqh_first = Head, cqh_last = Head, cq_cells =
     [3 \<mapsto> \<lparr>cqe_next = Elm 9, cqe_prev = Elm 9\<rparr>]\<rparr> = (Ret (), s'') \<and> circleq_ok s'' [3]"
proof -
  let ?s = "\<lparr>cqh_first = Elm 1, cqh_last = Elm 2, cq_cells =
     [1 \<mapsto> \<lparr>cqe_next = Elm 2, cqe_prev = Head\<rparr>, 2 \<mapsto> \<lparr>cqe_next = Head, cqe_prev = Elm 1\<rparr>,
      3 \<mapsto> \<lparr>cqe_next = Head, cqe_prev = Head\<rparr>]\<rparr>"
  let ?t = "\<lparr>cqh_first = Head, cqh_last = Head, cq_cells =
     [3 \<mapsto> \<lparr>cqe_next = Elm 9, cqe_prev = Elm 9\<rparr>]\<rparr>"
  have ok: "circleq_ok ?s [1, 2]" "circleq_ok ?t []" by (simp_all add: circleq_ok_def cq_next_def cq_prev_def)
  have "\<forall>xs x ys. [1, 2] = xs @ x # ys \<longrightarrow>
      (\<exists>s'. CIRCLEQ_INSERT_BEFORE x 3 ?s = (Ret (), s') \<and> circleq_ok s' (xs @ 3 # x # ys))"
    using circleq_operations [OF ok(1), of 3 2 "\<lambda>x v. v" "0 :: nat"] by simp
  from this [rule_format, of "[1]" 2 "[]"] obtain s' where "CIRCLEQ_INSERT_BEFORE 2 3 ?s = (Ret (), s')" "circleq_ok s' [1, 3, 2]" by auto
  moreover obtain s'' where "CIRCLEQ_INSERT_TAIL 3 ?t = (Ret (), s'')" "circleq_ok s'' [3]"
    using circleq_operations [OF ok(2), of 3 0 "\<lambda>x v. v" "0 :: nat"] by auto
  ultimately show ?thesis by blast
qed

end
