(* ===== verification/TreeHeap.thy ===== *)
theory TreeHeap
  imports Lval "HOL-Library.Tree"
begin

text \<open>
  Binary trees whose nodes are linked through pointers, as the trees of utils/tree.h are. A heap is given
  by what every node's left and right field holds (\<open>lf\<close>, \<open>rg\<close>); \<open>tree_at\<close> relates it to a \<open>tree\<close> of
  addresses, so the order of the elements is \<open>inorder\<close>. The order of the keys, which the user of the
  macros gives as a comparison function, is \<open>orders\<close>. The locale \<open>search_tree\<close> is the interface both
  trees offer: a set of elements that is kept in the order of their keys.
\<close>

type_synonym field = "nat \<Rightarrow> ptr option"

section \<open>Trees in a heap\<close>

fun tree_at :: "field \<Rightarrow> field \<Rightarrow> ptr \<Rightarrow> nat tree \<Rightarrow> bool" where
  "tree_at lf rg p Leaf \<longleftrightarrow> p = None"
| "tree_at lf rg p (Node l x r) \<longleftrightarrow> p = Some x
    \<and> (\<exists>a. lf x = Some a \<and> tree_at lf rg a l) \<and> (\<exists>b. rg x = Some b \<and> tree_at lf rg b r)"

text \<open>What the root pointer is, and that the heap determines the tree.\<close>

fun root_ptr :: "nat tree \<Rightarrow> ptr" where
  "root_ptr Leaf = None"
| "root_ptr (Node l x r) = Some x"

lemma root_ptr_None [simp]: "root_ptr t = None \<longleftrightarrow> t = Leaf" "None = root_ptr t \<longleftrightarrow> t = Leaf"
  by (cases t; auto)+

lemma tree_at_root: "tree_at lf rg p t \<Longrightarrow> p = root_ptr t"
  by (cases t) auto

lemma tree_at_iff:
  "tree_at lf rg p (Node l x r) \<longleftrightarrow> p = Some x \<and> lf x = Some (root_ptr l) \<and> rg x = Some (root_ptr r)
    \<and> tree_at lf rg (root_ptr l) l \<and> tree_at lf rg (root_ptr r) r"
  by (auto dest: tree_at_root)

lemma tree_at_frame:
  "tree_at lf rg p t \<Longrightarrow> \<forall>x \<in> set_tree t. lf' x = lf x \<and> rg' x = rg x \<Longrightarrow> tree_at lf' rg' p t"
  by (induction t arbitrary: p) auto

lemma tree_at_alloc: "tree_at lf rg p t \<Longrightarrow> x \<in> set_tree t \<Longrightarrow> x \<in> dom lf \<and> x \<in> dom rg"
  by (induction t arbitrary: p) auto

lemma tree_at_upd [simp]:
  "x \<notin> set_tree t \<Longrightarrow> tree_at (lf(x := q)) rg p t = tree_at lf rg p t"
  "x \<notin> set_tree t \<Longrightarrow> tree_at lf (rg(x := q)) p t = tree_at lf rg p t"
  by (auto elim!: tree_at_frame)

lemma inorder_Nil [simp]: "inorder t = [] \<longleftrightarrow> t = Leaf"
  by (cases t) auto

section \<open>The order of the keys\<close>

text \<open>The contract of the comparison function \<open>cmp\<close> of the macros: its sign is that of the keys' order.\<close>

definition orders :: "(nat \<Rightarrow> nat \<Rightarrow> int) \<Rightarrow> (nat \<Rightarrow> 'k::linorder) \<Rightarrow> bool" where
  "orders cmp key \<longleftrightarrow> (\<forall>a b. (cmp a b < 0 \<longleftrightarrow> key a < key b) \<and> (cmp a b > 0 \<longleftrightarrow> key b < key a))"

definition by_key :: "(nat \<Rightarrow> 'k::linorder) \<Rightarrow> nat list \<Rightarrow> bool" where
  "by_key key xs \<longleftrightarrow> sorted_wrt (\<lambda>a b. key a < key b) xs"

lemma ordersD:
  assumes "orders cmp key"
  shows "cmp a b < 0 \<longleftrightarrow> key a < key b" "cmp a b > 0 \<longleftrightarrow> key b < key a" "cmp a b = 0 \<longleftrightarrow> key a = key b"
proof -
  show "cmp a b < 0 \<longleftrightarrow> key a < key b" "cmp a b > 0 \<longleftrightarrow> key b < key a" using assms by (simp_all add: orders_def)
  then show "cmp a b = 0 \<longleftrightarrow> key a = key b" by (metis antisym_conv3 less_irrefl)
qed

lemma by_key_simps [simp]:
  "by_key key []"
  "by_key key (x # xs) \<longleftrightarrow> (\<forall>y \<in> set xs. key x < key y) \<and> by_key key xs"
  "by_key key (xs @ ys) \<longleftrightarrow> by_key key xs \<and> by_key key ys \<and> (\<forall>x \<in> set xs. \<forall>y \<in> set ys. key x < key y)"
  by (auto simp: by_key_def sorted_wrt_append)

lemma by_key_distinct: "by_key key xs \<Longrightarrow> distinct xs"
  by (induction xs) auto

lemma by_key_sorted: "by_key key xs \<Longrightarrow> sorted (map key xs) \<and> distinct (map key xs)"
  by (induction xs) (auto simp: less_le)

text \<open>Once the comparison has answered ``not larger'', it answers ``smaller'' for everything behind.\<close>

definition steady :: "(nat \<Rightarrow> int) \<Rightarrow> nat list \<Rightarrow> bool" where
  "steady c xs \<longleftrightarrow> sorted_wrt (\<lambda>a b. c a \<le> 0 \<longrightarrow> c b < 0) xs"

lemma steady_by_key: "orders cmp key \<Longrightarrow> by_key key xs \<Longrightarrow> steady (cmp e) xs"
  unfolding steady_def by_key_def
  by (erule sorted_wrt_mono_rel [rotated]) (smt (verit) ordersD leD le_less_trans not_le)

lemma steady_simps [simp]:
  "steady c []"
  "steady c (x # xs) \<longleftrightarrow> (c x \<le> 0 \<longrightarrow> (\<forall>y \<in> set xs. c y < 0)) \<and> steady c xs"
  "steady c (xs @ ys) \<longleftrightarrow> steady c xs \<and> steady c ys \<and> (\<forall>x \<in> set xs. \<forall>y \<in> set ys. c x \<le> 0 \<longrightarrow> c y < 0)"
  by (auto simp: steady_def sorted_wrt_append)

text \<open>Elements in front of the key, with the key and behind it.\<close>

lemma insort_between:
  "\<forall>x \<in> set xs. key x < key e \<Longrightarrow> \<forall>y \<in> set ys. key e < key y \<Longrightarrow>
   insort_key key e (xs @ ys) = xs @ e # ys"
  by (induction xs) (auto, cases ys, auto)

definition add_key :: "(nat \<Rightarrow> 'k::linorder) \<Rightarrow> nat \<Rightarrow> nat list \<Rightarrow> nat list" where
  "add_key key e xs = (if key e \<in> key ` set xs then xs else insort_key key e xs)"

definition drop_key :: "(nat \<Rightarrow> 'k::linorder) \<Rightarrow> nat \<Rightarrow> nat list \<Rightarrow> nat list" where
  "drop_key key e xs = filter (\<lambda>x. key x \<noteq> key e) xs"

lemma add_key_between:
  "\<forall>x \<in> set xs. key x < key e \<Longrightarrow> \<forall>y \<in> set ys. key e < key y \<Longrightarrow> add_key key e (xs @ ys) = xs @ e # ys"
  by (force simp: add_key_def insort_between)

lemma drop_key_between:
  "\<forall>x \<in> set xs. key x < key e \<Longrightarrow> \<forall>y \<in> set ys. key e < key y \<Longrightarrow> drop_key key e (xs @ ys) = xs @ ys"
  "\<forall>x \<in> set xs. key x < key e \<Longrightarrow> \<forall>y \<in> set ys. key e < key y \<Longrightarrow> key z = key e \<Longrightarrow>
   drop_key key e (xs @ z # ys) = xs @ ys"
proof -
  assume "\<forall>x \<in> set xs. key x < key e" "\<forall>y \<in> set ys. key e < key y"
  then have "filter (\<lambda>x. key x \<noteq> key e) xs = xs" "filter (\<lambda>x. key x \<noteq> key e) ys = ys"
    by (auto intro!: filter_True)
  then show "drop_key key e (xs @ ys) = xs @ ys"
    "key z = key e \<Longrightarrow> drop_key key e (xs @ z # ys) = xs @ ys"
    by (simp_all add: drop_key_def)
qed

lemma set_add_key: "set (add_key key e xs) \<subseteq> insert e (set xs)"
  by (auto simp: add_key_def set_insort_key)

lemma keys_add_key: "key ` set (add_key key e xs) = insert (key e) (key ` set xs)"
  by (auto simp: add_key_def set_insort_key)

lemma keys_drop_key: "key ` set (drop_key key e xs) = key ` set xs - {key e}"
  by (auto simp: drop_key_def)

lemma by_key_add_key: "by_key key xs \<Longrightarrow> by_key key (add_key key e xs)"
  by (induction xs) (auto simp: add_key_def set_insort_key)

lemma by_key_drop_key: "by_key key xs \<Longrightarrow> by_key key (drop_key key e xs)"
  by (induction xs) (auto simp: drop_key_def)

lemma find_key:
  assumes "by_key key xs"
  shows "find (\<lambda>x. key x = key e) xs = Some y \<longleftrightarrow> y \<in> set xs \<and> key y = key e"
    "find (\<lambda>x. key x = key e) xs = None \<longleftrightarrow> key e \<notin> key ` set xs"
proof -
  show "find (\<lambda>x. key x = key e) xs = Some y \<longleftrightarrow> y \<in> set xs \<and> key y = key e"
    using assms by (induction xs) force+
  show "find (\<lambda>x. key x = key e) xs = None \<longleftrightarrow> key e \<notin> key ` set xs"
    by (auto simp: find_None_iff image_iff)
qed

lemma fold_add_key:
  "distinct (map key es) \<Longrightarrow> key ` set es \<inter> key ` set xs = {} \<Longrightarrow>
   fold (add_key key) es xs = fold (insort_key key) es xs"
proof (induction es arbitrary: xs)
  case (Cons e es)
  then have "add_key key e xs = insort_key key e xs" by (auto simp: add_key_def)
  with Cons show ?case by (auto simp: set_insort_key)
qed simp

lemma fold_add_key_sort:
  assumes "distinct (map key es)"
  shows "fold (add_key key) es [] = sort_key key es"
  using assms fold_add_key [of key es "[]"] sort_key_conv_fold [of key es] by (simp add: distinct_map)

lemma keys_fold_add_key: "key ` set (fold (add_key key) es xs) = key ` set es \<union> key ` set xs"
  by (induction es arbitrary: xs) (auto simp: keys_add_key)

lemma length_add_key: "length (add_key key e xs) \<le> Suc (length xs)"
  by (simp add: add_key_def)

lemma length_fold_add_key: "length (fold (add_key key) es xs) \<le> length es + length xs"
proof (induction es arbitrary: xs)
  case (Cons e es)
  from Cons.IH [of "add_key key e xs"] length_add_key [of key e xs] show ?case by simp
qed simp

lemma set_fold_add_key: "set (fold (add_key key) es xs) \<subseteq> set es \<union> set xs"
proof (induction es arbitrary: xs)
  case (Cons e es)
  from Cons.IH [of "add_key key e xs"] set_add_key [of key e xs] show ?case by auto
qed simp

section \<open>A client\<close>

text \<open>A client of a tree: it puts elements in, looks up the element with the key of a given one, and takes
  that element out. The answers are what the look-ups find.\<close>

datatype request = Put nat | Take nat | Get nat

fun serve_one :: "(nat \<Rightarrow> ('s, nat option) prog) \<Rightarrow> (nat \<Rightarrow> ('s, unit) prog) \<Rightarrow> (nat \<Rightarrow> ('s, unit) prog) \<Rightarrow> request
    \<Rightarrow> ('s, nat option) prog" where
  "serve_one look_up put take_out (Put e) = sseq (put e) (sret None)"
| "serve_one look_up put take_out (Get e) = look_up e"
| "serve_one look_up put take_out (Take e) =
     sbind (look_up e) (\<lambda>p. case p of None \<Rightarrow> sret None | Some x \<Rightarrow> sseq (take_out x) (sret (Some x)))"

primrec serve :: "(nat \<Rightarrow> ('s, nat option) prog) \<Rightarrow> (nat \<Rightarrow> ('s, unit) prog) \<Rightarrow> (nat \<Rightarrow> ('s, unit) prog) \<Rightarrow> request list
    \<Rightarrow> ('s, nat option list) prog" where
  "serve look_up put take_out [] = sret []"
| "serve look_up put take_out (q # qs) =
     sbind (serve_one look_up put take_out q) (\<lambda>p. sbind (serve look_up put take_out qs) (\<lambda>ps. sret (p # ps)))"

text \<open>What it is answered by a list in the order of the keys.\<close>

fun list_after :: "(nat \<Rightarrow> 'k::linorder) \<Rightarrow> request \<Rightarrow> nat list \<Rightarrow> nat list" where
  "list_after key (Put e) xs = add_key key e xs"
| "list_after key (Get e) xs = xs"
| "list_after key (Take e) xs = drop_key key e xs"

fun list_answer :: "(nat \<Rightarrow> 'k::linorder) \<Rightarrow> request \<Rightarrow> nat list \<Rightarrow> nat option" where
  "list_answer key (Put e) xs = None"
| "list_answer key (Get e) xs = find (\<lambda>x. key x = key e) xs"
| "list_answer key (Take e) xs = find (\<lambda>x. key x = key e) xs"

primrec list_answers :: "(nat \<Rightarrow> 'k::linorder) \<Rightarrow> request list \<Rightarrow> nat list \<Rightarrow> nat option list" where
  "list_answers key [] xs = []"
| "list_answers key (q # qs) xs = list_answer key q xs # list_answers key qs (list_after key q xs)"

lemma length_list_after: "length (list_after key q xs) \<le> Suc (length xs)"
  using length_add_key [of key _ xs]
  by (cases "(key, q, xs)" rule: list_after.cases) (auto simp: drop_key_def intro: le_SucI length_filter_le)

lemma drop_key_absent: "find (\<lambda>x. key x = key e) xs = None \<Longrightarrow> drop_key key e xs = xs"
  unfolding find_None_iff drop_key_def by (intro filter_True) auto

lemma drop_key_cong: "key x = key e \<Longrightarrow> drop_key key x xs = drop_key key e xs"
  by (simp add: drop_key_def)

lemma fold_snoc: "fold (\<lambda>x v. v @ [x]) xs ys = ys @ xs"
  by (induction xs arbitrary: ys) simp_all

section \<open>The interface\<close>

text \<open>\<open>ok\<close> relates the state to the elements in the order of their keys, \<open>has\<close> is the set of allocated
  elements. The first argument of an operation is its fuel.\<close>

locale search_tree =
  fixes key :: "nat \<Rightarrow> 'k::linorder"
    and ok :: "'s \<Rightarrow> nat list \<Rightarrow> bool"
    and has :: "'s \<Rightarrow> nat set"
    and find_elem :: "nat \<Rightarrow> nat \<Rightarrow> ('s, nat option) prog"
    and insert_elem :: "nat \<Rightarrow> nat \<Rightarrow> ('s, unit) prog"
    and remove_elem :: "nat \<Rightarrow> nat \<Rightarrow> ('s, unit) prog"
    and visit :: "nat \<Rightarrow> (nat \<Rightarrow> 'v \<Rightarrow> 'v) \<Rightarrow> 'v \<Rightarrow> ('s, 'v) prog"
  assumes ok_by_key: "ok s xs \<Longrightarrow> by_key key xs \<and> set xs \<subseteq> has s"
    and find_ok: "ok s xs \<Longrightarrow> length xs \<le> k \<Longrightarrow>
      \<exists>s'. find_elem k e s = (Ret (find (\<lambda>x. key x = key e) xs), s') \<and> ok s' xs \<and> has s' = has s"
    and insert_ok: "ok s xs \<Longrightarrow> length xs \<le> k \<Longrightarrow> e \<in> has s \<Longrightarrow>
      \<exists>s'. insert_elem k e s = (Ret (), s') \<and> ok s' (add_key key e xs) \<and> has s' = has s"
    and remove_ok: "ok s xs \<Longrightarrow> length xs \<le> k \<Longrightarrow> e \<in> set xs \<Longrightarrow>
      \<exists>s'. remove_elem k e s = (Ret (), s') \<and> ok s' (drop_key key e xs) \<and> has s' = has s"
    and visit_ok: "ok s xs \<Longrightarrow> length xs \<le> k \<Longrightarrow> \<exists>s'. visit k f v s = (Ret (fold f xs v), s') \<and> ok s' xs"
begin

lemma insert_all:
  "ok s xs \<Longrightarrow> set es \<subseteq> has s \<Longrightarrow> length xs + length es \<le> k \<Longrightarrow>
   \<exists>s'. do_all (insert_elem k) es s = (Ret (), s') \<and> ok s' (fold (add_key key) es xs) \<and> has s' = has s"
proof (induction es arbitrary: s xs)
  case (Cons e es)
  then obtain s1 where s1: "insert_elem k e s = (Ret (), s1)" "ok s1 (add_key key e xs)" "has s1 = has s"
    using insert_ok [of s xs k e] by auto
  with Cons.prems length_add_key [of key e xs] Cons.IH [of s1 "add_key key e xs"] show ?case
    by (auto simp: sseq_Ret)
qed (auto simp: sret_def)

lemma insert_all_visit:
  assumes "ok s []" "set es \<subseteq> has s" "distinct (map key es)" "length es \<le> k"
  shows "\<exists>s'. sseq (do_all (insert_elem k) es) (visit k f v) s = (Ret (fold f (sort_key key es) v), s')
    \<and> ok s' (sort_key key es)"
proof -
  from insert_all [of s "[]" es k] assms(1,2,4) obtain s1 where s1: "do_all (insert_elem k) es s = (Ret (), s1)"
    "ok s1 (sort_key key es)" by (auto simp: fold_add_key_sort [OF assms(3)])
  with visit_ok [of s1 "sort_key key es" k f v] assms(4) show ?thesis by (auto simp: sseq_Ret)
qed

lemma insert_all_find:
  assumes "ok s []" "set es \<subseteq> has s" "length es \<le> k"
  shows "\<exists>s' p. sseq (do_all (insert_elem k) es) (find_elem k e) s = (Ret p, s')
    \<and> (case p of None \<Rightarrow> key e \<notin> key ` set es | Some x \<Rightarrow> x \<in> set es \<and> key x = key e)"
proof -
  let ?xs = "fold (add_key key) es []"
  from insert_all [of s "[]" es k] assms obtain s1 where s1: "do_all (insert_elem k) es s = (Ret (), s1)"
    "ok s1 ?xs" by auto
  have o: "by_key key ?xs" using ok_by_key [OF s1(2)] by simp
  have "length ?xs \<le> k" using length_fold_add_key [of key es "[]"] assms(3) by simp
  from find_ok [OF s1(2) this, of e] obtain s2 where
    "find_elem k e s1 = (Ret (find (\<lambda>x. key x = key e) ?xs), s2)" by blast
  with s1(1) have "sseq (do_all (insert_elem k) es) (find_elem k e) s = (Ret (find (\<lambda>x. key x = key e) ?xs), s2)"
    by (simp add: sseq_Ret)
  moreover have "case find (\<lambda>x. key x = key e) ?xs of None \<Rightarrow> key e \<notin> key ` set es
    | Some x \<Rightarrow> x \<in> set es \<and> key x = key e"
    using find_key [OF o, of e] set_fold_add_key [of key es "[]"] keys_fold_add_key [of key es "[]"]
    by (auto split: option.split)
  ultimately show ?thesis by blast
qed

lemma remove_find:
  assumes "ok s xs" "length xs \<le> k" "e \<in> set xs"
  shows "\<exists>s'. sseq (remove_elem k e) (find_elem k e) s = (Ret None, s') \<and> ok s' (drop_key key e xs)"
proof -
  obtain s1 where s1: "remove_elem k e s = (Ret (), s1)" "ok s1 (drop_key key e xs)"
    using remove_ok [OF assms] by blast
  have "length (drop_key key e xs) \<le> k" using assms(2) by (simp add: drop_key_def le_trans [OF length_filter_le])
  moreover have "find (\<lambda>x. key x = key e) (drop_key key e xs) = None" by (simp add: find_None_iff drop_key_def)
  ultimately show ?thesis using find_ok [OF s1(2), of k e] s1 by (auto simp: sseq_Ret)
qed

lemma serve_one_ok:
  assumes ok: "ok s xs" and k: "length xs \<le> k" and e: "\<And>e. q = Put e \<Longrightarrow> e \<in> has s"
  shows "\<exists>s'. serve_one (find_elem k) (insert_elem k) (remove_elem k) q s = (Ret (list_answer key q xs), s')
    \<and> ok s' (list_after key q xs) \<and> has s' = has s"
proof (cases q)
  case (Put e)
  with insert_ok [OF ok k, of e] e show ?thesis by (auto simp: sseq_Ret sret_def)
next
  case (Get e)
  with find_ok [OF ok k, of e] show ?thesis by simp
next
  case (Take e)
  let ?p = "find (\<lambda>x. key x = key e) xs"
  obtain s1 where s1: "find_elem k e s = (Ret ?p, s1)" "ok s1 xs" "has s1 = has s" using find_ok [OF ok k] by blast
  show ?thesis
  proof (cases ?p)
    case None
    with Take s1 show ?thesis by (auto simp: sbind_Ret sret_def drop_key_absent)
  next
    case (Some x)
    then have x: "x \<in> set xs" "key x = key e" using find_key(1) ok_by_key [OF ok] by blast+
    with remove_ok [OF s1(2) k x(1)] Take Some s1 drop_key_cong [OF x(2), of xs] show ?thesis
      by (auto simp: sbind_Ret sseq_Ret sret_def)
  qed
qed

lemma serve_ok:
  "ok s xs \<Longrightarrow> length xs + length qs \<le> k \<Longrightarrow> {e. Put e \<in> set qs} \<subseteq> has s \<Longrightarrow>
   \<exists>s'. serve (find_elem k) (insert_elem k) (remove_elem k) qs s = (Ret (list_answers key qs xs), s')"
proof (induction qs arbitrary: s xs)
  case (Cons q qs)
  have "length xs \<le> k" "\<And>e. q = Put e \<Longrightarrow> e \<in> has s" using Cons.prems by auto
  from serve_one_ok [OF Cons.prems(1) this] obtain s1 where
    s1: "serve_one (find_elem k) (insert_elem k) (remove_elem k) q s = (Ret (list_answer key q xs), s1)"
      "ok s1 (list_after key q xs)" "has s1 = has s" by blast
  have "length (list_after key q xs) + length qs \<le> k" "{e. Put e \<in> set qs} \<subseteq> has s1"
    using Cons.prems(2,3) length_list_after [of key q xs] s1(3) by auto
  from Cons.IH [OF s1(2) this] s1(1) show ?case by (auto simp: sbind_Ret sret_def)
qed (simp add: sret_def)

end

end
