(* ===== verification/SplayTree.thy ===== *)
theory SplayTree
  imports TreeHeap
begin

text \<open>
  The splay trees of utils/tree.h. The macros are instantiated with a comparison \<open>cmp\<close> of two elements
  by address. \<open>SPLAY\<close> has a node of its own on the stack (\<open>__node\<close>): its address \<open>nd\<close> is allocated
  on entry and released on return. The loops carry fuel; the number of elements is enough.
\<close>

record splay_entry =
  spe_left :: ptr
  spe_right :: ptr

record splay_head =
  sph_root :: ptr
  sp_cells :: "nat \<Rightarrow> splay_entry option"

section \<open>Access through pointers\<close>

definition sp_lf :: "splay_head \<Rightarrow> field" where
  "sp_lf s x = map_option spe_left (sp_cells s x)"

definition sp_rg :: "splay_head \<Rightarrow> field" where
  "sp_rg s x = map_option spe_right (sp_cells s x)"

definition sp_put_left :: "nat \<Rightarrow> ptr \<Rightarrow> splay_head \<Rightarrow> splay_head" where
  "sp_put_left x p s =
     s\<lparr>sp_cells := (sp_cells s)(x := map_option (\<lambda>n. n\<lparr>spe_left := p\<rparr>) (sp_cells s x))\<rparr>"

definition sp_put_right :: "nat \<Rightarrow> ptr \<Rightarrow> splay_head \<Rightarrow> splay_head" where
  "sp_put_right x p s =
     s\<lparr>sp_cells := (sp_cells s)(x := map_option (\<lambda>n. n\<lparr>spe_right := p\<rparr>) (sp_cells s x))\<rparr>"

definition sp_put_root :: "ptr \<Rightarrow> splay_head \<Rightarrow> splay_head" where
  "sp_put_root p s = s\<lparr>sph_root := p\<rparr>"

definition SPLAY_LEFT :: "ptr \<Rightarrow> (splay_head, ptr) prog" where
  "SPLAY_LEFT p s = (case Option.bind p (sp_lf s) of None \<Rightarrow> (Fault, s) | Some q \<Rightarrow> (Ret q, s))"

definition SPLAY_RIGHT :: "ptr \<Rightarrow> (splay_head, ptr) prog" where
  "SPLAY_RIGHT p s = (case Option.bind p (sp_rg s) of None \<Rightarrow> (Fault, s) | Some q \<Rightarrow> (Ret q, s))"

definition SPLAY_LEFT_set :: "ptr \<Rightarrow> ptr \<Rightarrow> (splay_head, unit) prog" where
  "SPLAY_LEFT_set p q s = (case p of None \<Rightarrow> (Fault, s)
     | Some x \<Rightarrow> if sp_cells s x = None then (Fault, s) else (Ret (), sp_put_left x q s))"

definition SPLAY_RIGHT_set :: "ptr \<Rightarrow> ptr \<Rightarrow> (splay_head, unit) prog" where
  "SPLAY_RIGHT_set p q s = (case p of None \<Rightarrow> (Fault, s)
     | Some x \<Rightarrow> if sp_cells s x = None then (Fault, s) else (Ret (), sp_put_right x q s))"

section \<open>The macros\<close>

definition SPLAY_INIT :: "(splay_head, unit) prog" where
  "SPLAY_INIT = smod (sp_put_root None)"

definition SPLAY_INITIALIZER :: "(nat \<Rightarrow> splay_entry option) \<Rightarrow> splay_head" where
  "SPLAY_INITIALIZER cs = \<lparr>sph_root = None, sp_cells = cs\<rparr>"

lemma SPLAY_is_initializer: "SPLAY_INIT s = (Ret (), SPLAY_INITIALIZER (sp_cells s))"
  by (simp add: SPLAY_INIT_def SPLAY_INITIALIZER_def sp_put_root_def smod_def)

definition SPLAY_ROOT :: "splay_head \<Rightarrow> ptr" where
  "SPLAY_ROOT s = sph_root s"

definition SPLAY_EMPTY :: "splay_head \<Rightarrow> bool" where
  "SPLAY_EMPTY s \<longleftrightarrow> SPLAY_ROOT s = None"

definition SPLAY_ROTATE_RIGHT :: "ptr \<Rightarrow> (splay_head, unit) prog" where
  "SPLAY_ROTATE_RIGHT tmp =
     sbind (SPLAY_RIGHT tmp) (\<lambda>p.
     sbind (sget SPLAY_ROOT) (\<lambda>root.
     sseq (SPLAY_LEFT_set root p)
     (sseq (SPLAY_RIGHT_set tmp root)
        (smod (sp_put_root tmp)))))"

definition SPLAY_ROTATE_LEFT :: "ptr \<Rightarrow> (splay_head, unit) prog" where
  "SPLAY_ROTATE_LEFT tmp =
     sbind (SPLAY_LEFT tmp) (\<lambda>p.
     sbind (sget SPLAY_ROOT) (\<lambda>root.
     sseq (SPLAY_RIGHT_set root p)
     (sseq (SPLAY_LEFT_set tmp root)
        (smod (sp_put_root tmp)))))"

text \<open>The linking macros assign to the variable \<open>tmp\<close> they are given; its new value is the result.\<close>

definition SPLAY_LINKLEFT :: "ptr \<Rightarrow> (splay_head, ptr) prog" where
  "SPLAY_LINKLEFT tmp =
     sbind (sget SPLAY_ROOT) (\<lambda>root.
     sseq (SPLAY_LEFT_set tmp root)
     (sbind (SPLAY_LEFT root) (\<lambda>p.
     sseq (smod (sp_put_root p)) (sret root))))"

definition SPLAY_LINKRIGHT :: "ptr \<Rightarrow> (splay_head, ptr) prog" where
  "SPLAY_LINKRIGHT tmp =
     sbind (sget SPLAY_ROOT) (\<lambda>root.
     sseq (SPLAY_RIGHT_set tmp root)
     (sbind (SPLAY_RIGHT root) (\<lambda>p.
     sseq (smod (sp_put_root p)) (sret root))))"

definition SPLAY_ASSEMBLE :: "ptr \<Rightarrow> ptr \<Rightarrow> ptr \<Rightarrow> (splay_head, unit) prog" where
  "SPLAY_ASSEMBLE node lp rp =
     sbind (sget SPLAY_ROOT) (\<lambda>root.
     sseq (sbind (SPLAY_LEFT root) (SPLAY_RIGHT_set lp))
     (sseq (sbind (SPLAY_RIGHT root) (SPLAY_LEFT_set rp))
     (sseq (sbind (SPLAY_RIGHT node) (SPLAY_LEFT_set root))
        (sbind (SPLAY_LEFT node) (SPLAY_RIGHT_set root)))))"

section \<open>Splaying\<close>

text \<open>The comparison with the root reads the root's key.\<close>

definition cmp_root :: "(nat \<Rightarrow> int) \<Rightarrow> (splay_head, int) prog" where
  "cmp_root c = sbind (sget SPLAY_ROOT) (\<lambda>p. case p of None \<Rightarrow> sfault | Some x \<Rightarrow> sret (c x))"

text \<open>The body of the loops of \<open>SPLAY\<close> and \<open>SPLAY_MINMAX\<close>: \<open>c\<close> is the comparison of the element
  with a node, or the constant \<open>__comp\<close>. \<open>Inl\<close> is a \<open>break\<close>; both carry \<open>__left\<close> and
  \<open>__right\<close>.\<close>

definition splay_turn ::
  "(nat \<Rightarrow> int) \<Rightarrow> int \<Rightarrow> ptr \<Rightarrow> ptr \<Rightarrow> (splay_head, (ptr \<times> ptr) + (ptr \<times> ptr)) prog" where
  "splay_turn c cv lp rp =
     (if cv < 0 then
        sbind (sbind (sget SPLAY_ROOT) SPLAY_LEFT) (\<lambda>tmp. case tmp of
          None \<Rightarrow> sret (Inl (lp, rp))
        | Some y \<Rightarrow>
            sbind (if c y < 0
                   then sseq (SPLAY_ROTATE_RIGHT tmp)
                          (sbind (sbind (sget SPLAY_ROOT) SPLAY_LEFT) (\<lambda>p. sret (p = None)))
                   else sret False) (\<lambda>brk.
            if brk then sret (Inl (lp, rp))
            else sbind (SPLAY_LINKLEFT rp) (\<lambda>rp'. sret (Inr (lp, rp')))))
      else if cv > 0 then
        sbind (sbind (sget SPLAY_ROOT) SPLAY_RIGHT) (\<lambda>tmp. case tmp of
          None \<Rightarrow> sret (Inl (lp, rp))
        | Some y \<Rightarrow>
            sbind (if c y > 0
                   then sseq (SPLAY_ROTATE_LEFT tmp)
                          (sbind (sbind (sget SPLAY_ROOT) SPLAY_RIGHT) (\<lambda>p. sret (p = None)))
                   else sret False) (\<lambda>brk.
            if brk then sret (Inl (lp, rp))
            else sbind (SPLAY_LINKRIGHT lp) (\<lambda>lp'. sret (Inr (lp', rp)))))
      else sret (Inr (lp, rp)))"

primrec splay_loop :: "(nat \<Rightarrow> int) \<Rightarrow> nat \<Rightarrow> ptr \<Rightarrow> ptr \<Rightarrow> (splay_head, ptr \<times> ptr) prog" where
  "splay_loop c 0 lp rp = (\<lambda>s. (Wait, s))"
| "splay_loop c (Suc k) lp rp =
     sbind (cmp_root c) (\<lambda>cv.
     if cv = 0 then sret (lp, rp)
     else sbind (splay_turn c cv lp rp) (\<lambda>r. case r of
         Inl lr \<Rightarrow> sret lr
       | Inr (lp', rp') \<Rightarrow> splay_loop c k lp' rp'))"

primrec minmax_loop :: "int \<Rightarrow> nat \<Rightarrow> ptr \<Rightarrow> ptr \<Rightarrow> (splay_head, ptr \<times> ptr) prog" where
  "minmax_loop cv 0 lp rp = (\<lambda>s. (Wait, s))"
| "minmax_loop cv (Suc k) lp rp =
     sbind (splay_turn (\<lambda>_. cv) cv lp rp) (\<lambda>r. case r of
         Inl lr \<Rightarrow> sret lr
       | Inr (lp', rp') \<Rightarrow> minmax_loop cv k lp' rp')"

text \<open>The stack frame: \<open>__node\<close> with both fields cleared.\<close>

definition node_enter :: "nat \<Rightarrow> (splay_head, unit) prog" where
  "node_enter nd = smod (\<lambda>s. s\<lparr>sp_cells := (sp_cells s)(nd \<mapsto> \<lparr>spe_left = None, spe_right = None\<rparr>)\<rparr>)"

definition node_leave :: "nat \<Rightarrow> (splay_head, unit) prog" where
  "node_leave nd = smod (\<lambda>s. s\<lparr>sp_cells := (sp_cells s)(nd := None)\<rparr>)"

definition SPLAY :: "(nat \<Rightarrow> nat \<Rightarrow> int) \<Rightarrow> nat \<Rightarrow> nat \<Rightarrow> nat \<Rightarrow> (splay_head, unit) prog" where
  "SPLAY cmp nd k elm =
     sseq (node_enter nd)
     (sbind (splay_loop (cmp elm) k (Some nd) (Some nd)) (\<lambda>(lp, rp).
      sseq (SPLAY_ASSEMBLE (Some nd) lp rp) (node_leave nd)))"

definition SPLAY_MINMAX :: "nat \<Rightarrow> nat \<Rightarrow> int \<Rightarrow> (splay_head, unit) prog" where
  "SPLAY_MINMAX nd k cv =
     sseq (node_enter nd)
     (sbind (minmax_loop cv k (Some nd) (Some nd)) (\<lambda>(lp, rp).
      sseq (SPLAY_ASSEMBLE (Some nd) lp rp) (node_leave nd)))"

section \<open>The operations\<close>

definition SPLAY_INSERT :: "(nat \<Rightarrow> nat \<Rightarrow> int) \<Rightarrow> nat \<Rightarrow> nat \<Rightarrow> nat \<Rightarrow> (splay_head, unit) prog" where
  "SPLAY_INSERT cmp nd k elm =
     sbind (sget SPLAY_EMPTY) (\<lambda>empty.
     if empty then
       sseq (SPLAY_RIGHT_set (Some elm) None)
       (sseq (SPLAY_LEFT_set (Some elm) None) (smod (sp_put_root (Some elm))))
     else
       sseq (SPLAY cmp nd k elm)
       (sbind (cmp_root (cmp elm)) (\<lambda>cv.
        sbind (sget SPLAY_ROOT) (\<lambda>root.
        if cv < 0 then
          sseq (sbind (SPLAY_LEFT root) (SPLAY_LEFT_set (Some elm)))
          (sseq (SPLAY_RIGHT_set (Some elm) root)
          (sseq (SPLAY_LEFT_set root None) (smod (sp_put_root (Some elm)))))
        else if cv > 0 then
          sseq (sbind (SPLAY_RIGHT root) (SPLAY_RIGHT_set (Some elm)))
          (sseq (SPLAY_LEFT_set (Some elm) root)
          (sseq (SPLAY_RIGHT_set root None) (smod (sp_put_root (Some elm)))))
        else sret ()))))"

definition SPLAY_REMOVE :: "(nat \<Rightarrow> nat \<Rightarrow> int) \<Rightarrow> nat \<Rightarrow> nat \<Rightarrow> nat \<Rightarrow> (splay_head, unit) prog" where
  "SPLAY_REMOVE cmp nd k elm =
     sbind (sget SPLAY_EMPTY) (\<lambda>empty.
     if empty then sret ()
     else
       sseq (SPLAY cmp nd k elm)
       (sbind (cmp_root (cmp elm)) (\<lambda>cv.
        sbind (sget SPLAY_ROOT) (\<lambda>root.
        if cv = 0 then
          sbind (SPLAY_LEFT root) (\<lambda>l.
          sbind (SPLAY_RIGHT root) (\<lambda>tmp.
          if l = None then smod (sp_put_root tmp)
          else
            sseq (smod (sp_put_root l))
            (sseq (SPLAY cmp nd k elm)
            (sbind (sget SPLAY_ROOT) (\<lambda>root'. SPLAY_RIGHT_set root' tmp)))))
        else sret ()))))"

definition SPLAY_FIND :: "(nat \<Rightarrow> nat \<Rightarrow> int) \<Rightarrow> nat \<Rightarrow> nat \<Rightarrow> nat \<Rightarrow> (splay_head, ptr) prog" where
  "SPLAY_FIND cmp nd k elm =
     sbind (sget SPLAY_EMPTY) (\<lambda>empty.
     if empty then sret None
     else
       sseq (SPLAY cmp nd k elm)
       (sbind (cmp_root (cmp elm)) (\<lambda>cv.
        if cv = 0 then sget SPLAY_ROOT else sret None)))"

primrec leftmost :: "nat \<Rightarrow> ptr \<Rightarrow> (splay_head, ptr) prog" where
  "leftmost 0 elm = (\<lambda>s. (Wait, s))"
| "leftmost (Suc k) elm =
     sbind (SPLAY_LEFT elm) (\<lambda>l. if l \<noteq> None then leftmost k l else sret elm)"

definition SPLAY_NEXT :: "(nat \<Rightarrow> nat \<Rightarrow> int) \<Rightarrow> nat \<Rightarrow> nat \<Rightarrow> nat \<Rightarrow> (splay_head, ptr) prog" where
  "SPLAY_NEXT cmp nd k elm =
     sseq (SPLAY cmp nd k elm)
     (sbind (SPLAY_RIGHT (Some elm)) (\<lambda>r. if r \<noteq> None then leftmost k r else sret None))"

definition SPLAY_MIN_MAX :: "nat \<Rightarrow> nat \<Rightarrow> int \<Rightarrow> (splay_head, ptr) prog" where
  "SPLAY_MIN_MAX nd k val = sseq (SPLAY_MINMAX nd k val) (sget SPLAY_ROOT)"

definition SPLAY_NEGINF :: int where "SPLAY_NEGINF = - 1"

definition SPLAY_INF :: int where "SPLAY_INF = 1"

definition SPLAY_MIN :: "nat \<Rightarrow> nat \<Rightarrow> (splay_head, ptr) prog" where
  "SPLAY_MIN nd k =
     sbind (sget SPLAY_EMPTY) (\<lambda>empty. if empty then sret None else SPLAY_MIN_MAX nd k SPLAY_NEGINF)"

definition SPLAY_MAX :: "nat \<Rightarrow> nat \<Rightarrow> (splay_head, ptr) prog" where
  "SPLAY_MAX nd k =
     sbind (sget SPLAY_EMPTY) (\<lambda>empty. if empty then sret None else SPLAY_MIN_MAX nd k SPLAY_INF)"

text \<open>\<open>SPLAY_FOREACH\<close> with a body that appends the element to a list; \<open>n\<close> bounds the rounds.\<close>

primrec foreach_loop ::
  "(nat \<Rightarrow> nat \<Rightarrow> int) \<Rightarrow> nat \<Rightarrow> nat \<Rightarrow> nat \<Rightarrow> ptr \<Rightarrow> (nat \<Rightarrow> 'v \<Rightarrow> 'v) \<Rightarrow> 'v \<Rightarrow> (splay_head, 'v) prog" where
  "foreach_loop cmp nd k 0 x f v = (\<lambda>s. (if x = None then Ret v else Wait, s))"
| "foreach_loop cmp nd k (Suc n) x f v = (case x of
      None \<Rightarrow> sret v
    | Some a \<Rightarrow> sbind (SPLAY_NEXT cmp nd k a) (\<lambda>y. foreach_loop cmp nd k n y f (f a v)))"

definition SPLAY_FOREACH ::
  "(nat \<Rightarrow> nat \<Rightarrow> int) \<Rightarrow> nat \<Rightarrow> nat \<Rightarrow> nat \<Rightarrow> (nat \<Rightarrow> 'v \<Rightarrow> 'v) \<Rightarrow> 'v \<Rightarrow> (splay_head, 'v) prog" where
  "SPLAY_FOREACH cmp nd k n f v = sbind (SPLAY_MIN nd k) (\<lambda>x. foreach_loop cmp nd k n x f v)"

section \<open>Top-down splaying of trees\<close>

text \<open>The reference: the nodes that are already known to be smaller (with their left subtrees) and
  larger (with their right subtrees), the last first, and the tree that is left.\<close>

type_synonym spine = "(nat tree \<times> nat) list"

fun psplay :: "(nat \<Rightarrow> int) \<Rightarrow> spine \<Rightarrow> nat tree \<Rightarrow> spine \<Rightarrow> spine \<times> nat tree \<times> spine" where
  "psplay c L Leaf R = (L, Leaf, R)"
| "psplay c L (Node l x r) R =
     (if c x < 0 then
        (case l of
          Leaf \<Rightarrow> (L, Node l x r, R)
        | Node ll y lr \<Rightarrow>
            if c y < 0
            then if ll = Leaf then (L, Node ll y (Node lr x r), R) else psplay c L ll ((Node lr x r, y) # R)
            else psplay c L l ((r, x) # R))
      else if c x > 0 then
        (case r of
          Leaf \<Rightarrow> (L, Node l x r, R)
        | Node rl y rr \<Rightarrow>
            if c y > 0
            then if rr = Leaf then (L, Node (Node l x rl) y rr, R) else psplay c ((Node l x rl, y) # L) rr R
            else psplay c ((l, x) # L) r R)
      else (L, Node l x r, R))"

primrec glue_left :: "spine \<Rightarrow> nat tree \<Rightarrow> nat tree" where
  "glue_left [] t = t"
| "glue_left (e # L) t = glue_left L (Node (fst e) (snd e) t)"

primrec glue_right :: "spine \<Rightarrow> nat tree \<Rightarrow> nat tree" where
  "glue_right [] t = t"
| "glue_right (e # R) t = glue_right R (Node t (snd e) (fst e))"

fun assemble :: "spine \<times> nat tree \<times> spine \<Rightarrow> nat tree" where
  "assemble (L, Leaf, R) = Leaf"
| "assemble (L, Node l x r, R) = Node (glue_left L l) x (glue_right R r)"

definition splay_tree :: "(nat \<Rightarrow> int) \<Rightarrow> nat tree \<Rightarrow> nat tree" where
  "splay_tree c t = assemble (psplay c [] t [])"

text \<open>How many turns the loop takes.\<close>

fun turns :: "(nat \<Rightarrow> int) \<Rightarrow> nat tree \<Rightarrow> nat" where
  "turns c Leaf = 0"
| "turns c (Node l x r) =
     (if c x < 0 then
        (case l of
          Leaf \<Rightarrow> 1
        | Node ll y lr \<Rightarrow> if c y < 0 then Suc (turns c ll) else Suc (turns c l))
      else if c x > 0 then
        (case r of
          Leaf \<Rightarrow> 1
        | Node rl y rr \<Rightarrow> if c y > 0 then Suc (turns c rr) else Suc (turns c r))
      else 1)"

lemma turns_le_size: "turns c t \<le> size t"
proof (induction t rule: measure_induct_rule [of size])
  case (less t)
  show ?case
  proof (cases t)
    case (Node l x r)
    have "turns c l \<le> size l" "turns c r \<le> size r" using less.IH by (simp_all add: Node)
    moreover have "turns c ll \<le> size ll" "turns c lr \<le> size lr" if "l = Node ll y lr \<or> r = Node ll y lr" for ll y lr
      using less.IH that by (auto simp: Node)
    ultimately show ?thesis
      unfolding Node by (subst turns.simps) (fastforce simp del: turns.simps split: tree.split)
  qed simp
qed


text \<open>The order of the elements does not change, whatever the comparison answers.\<close>

primrec lin :: "spine \<Rightarrow> nat list" where
  "lin [] = []"
| "lin (e # L) = lin L @ inorder (fst e) @ [snd e]"

primrec rin :: "spine \<Rightarrow> nat list" where
  "rin [] = []"
| "rin (e # R) = snd e # inorder (fst e) @ rin R"

lemma inorder_glue [simp]:
  "inorder (glue_left L t) = lin L @ inorder t"
  "inorder (glue_right R t) = inorder t @ rin R"
proof -
  show "inorder (glue_left L t) = lin L @ inorder t" by (induction L arbitrary: t) simp_all
  show "inorder (glue_right R t) = inorder t @ rin R" by (induction R arbitrary: t) simp_all
qed


lemma set_glue [simp]:
  "set_tree (glue_left L t) = set (lin L) \<union> set_tree t"
  "set_tree (glue_right R t) = set_tree t \<union> set (rin R)"
  by (simp_all flip: set_inorder)

text \<open>The four moves of the loop.\<close>

inductive move :: "(nat \<Rightarrow> int) \<Rightarrow> spine \<times> nat tree \<times> spine \<Rightarrow> spine \<times> nat tree \<times> spine \<Rightarrow> bool" for c where
  rotate_right: "c x < 0 \<Longrightarrow> c y < 0 \<Longrightarrow>
    move c (L, Node (Node ll y lr) x r, R) (L, Node ll y (Node lr x r), R)"
| link_left: "c x < 0 \<Longrightarrow> l \<noteq> Leaf \<Longrightarrow> move c (L, Node l x r, R) (L, l, (r, x) # R)"
| rotate_left: "c x > 0 \<Longrightarrow> c y > 0 \<Longrightarrow>
    move c (L, Node l x (Node rl y rr), R) (L, Node (Node l x rl) y rr, R)"
| link_right: "c x > 0 \<Longrightarrow> r \<noteq> Leaf \<Longrightarrow> move c (L, Node l x r, R) ((l, x) # L, r, R)"

definition final :: "(nat \<Rightarrow> int) \<Rightarrow> nat tree \<Rightarrow> bool" where
  "final c t \<longleftrightarrow> (\<exists>l x r. t = Node l x r \<and> (c x < 0 \<longrightarrow> l = Leaf) \<and> (c x > 0 \<longrightarrow> r = Leaf))"

lemma move2: "move c a b \<Longrightarrow> move c b d \<Longrightarrow> (move c)\<^sup>*\<^sup>* d e \<Longrightarrow> (move c)\<^sup>*\<^sup>* a e"
  by (meson converse_rtranclp_into_rtranclp)

lemma psplay_moves:
  "psplay c L t R = (L', t', R') \<Longrightarrow> t \<noteq> Leaf \<Longrightarrow> (move c)\<^sup>*\<^sup>* (L, t, R) (L', t', R') \<and> final c t'"
proof (induction c L t R rule: psplay.induct)
  case (2 c L l x r R)
  note run = "2.prems"(1)
  consider "c x < 0" | "c x > 0" | "c x = 0" by linarith
  then show ?case
  proof cases
    case 1
    show ?thesis
    proof (cases l)
      case (Node ll y lr)
      note rot = move.rotate_right [of c x, OF 1, of y L ll lr r R]
      show ?thesis
      proof (cases "c y < 0")
        case True
        show ?thesis
        proof (cases "ll = Leaf")
          case False
          with "2.IH"(1) [OF 1 Node True False] run 1 Node True
          show ?thesis using move2 [OF rot [OF True] move.link_left [of c y, OF True False]] by simp
        qed (use run 1 Node True rot [OF True] in \<open>auto simp: final_def\<close>)
      next
        case False
        with "2.IH"(2) [OF 1 Node False] run 1 Node
        show ?thesis using move.link_left [of c x, OF 1, of l L r R] converse_rtranclp_into_rtranclp by fastforce
      qed
    qed (use run 1 in \<open>auto simp: final_def\<close>)
  next
    case 2
    then have n: "\<not> c x < 0" by simp
    show ?thesis
    proof (cases r)
      case (Node rl y rr)
      note rot = move.rotate_left [of c x, OF 2, of y L l rl rr R]
      show ?thesis
      proof (cases "c y > 0")
        case True
        show ?thesis
        proof (cases "rr = Leaf")
          case False
          with "2.IH"(3) [OF n 2 Node True False] run 2 Node True
          show ?thesis using move2 [OF rot [OF True] move.link_right [of c y, OF True False]] by simp
        qed (use run 2 Node True rot [OF True] in \<open>auto simp: final_def\<close>)
      next
        case False
        with "2.IH"(4) [OF n 2 Node False] run 2 Node
        show ?thesis using move.link_right [of c x, OF 2, of r L l R] converse_rtranclp_into_rtranclp by fastforce
      qed
    qed (use run 2 in \<open>auto simp: final_def\<close>)
  qed (use run in \<open>auto simp: final_def\<close>)
qed simp

definition in_order :: "spine \<times> nat tree \<times> spine \<Rightarrow> nat list" where
  "in_order = (\<lambda>(L, t, R). lin L @ inorder t @ rin R)"

definition split_ok :: "(nat \<Rightarrow> int) \<Rightarrow> spine \<times> nat tree \<times> spine \<Rightarrow> bool" where
  "split_ok c = (\<lambda>(L, t, R). (\<forall>y \<in> set (lin L). c y > 0) \<and> (\<forall>y \<in> set (rin R). c y < 0))"

lemma moves_in_order: "(move c)\<^sup>*\<^sup>* a b \<Longrightarrow> in_order b = in_order a"
  by (induction rule: rtranclp_induct) (auto simp: in_order_def elim!: move.cases)

lemma inorder_assemble: "t \<noteq> Leaf \<Longrightarrow> inorder (assemble (L, t, R)) = lin L @ inorder t @ rin R"
  by (cases t) auto

lemma inorder_splay_tree: "inorder (splay_tree c t) = inorder t"
proof (cases "t = Leaf")
  case False
  obtain L t' R where p: "psplay c [] t [] = (L, t', R)" using prod_cases3 by blast
  with psplay_moves [OF this] False moves_in_order [of c "([], t, [])" "(L, t', R)"]
  show ?thesis by (auto simp: splay_tree_def inorder_assemble final_def in_order_def)
qed (simp add: splay_tree_def)

lemma move_split: "move c a b \<Longrightarrow> steady c (in_order a) \<Longrightarrow> split_ok c a \<Longrightarrow> split_ok c b"
  by (induction rule: move.induct) (auto simp: split_ok_def in_order_def)

lemma moves_split: "(move c)\<^sup>*\<^sup>* a b \<Longrightarrow> steady c (in_order a) \<Longrightarrow> split_ok c a \<Longrightarrow> split_ok c b"
  by (induction rule: rtranclp_induct) (auto intro: move_split simp: moves_in_order)

lemma splay_tree_root:
  assumes "t \<noteq> Leaf" "steady c (inorder t)"
  shows "\<exists>l x r. splay_tree c t = Node l x r
    \<and> (\<forall>y \<in> set (inorder l). c y > 0) \<and> (\<forall>y \<in> set (inorder r). c y < 0)"
proof -
  obtain L t' R where p: "psplay c [] t [] = (L, t', R)" using prod_cases3 by blast
  note m = psplay_moves [OF p assms(1)]
  then obtain l x r where t': "t' = Node l x r" "c x < 0 \<longrightarrow> l = Leaf" "c x > 0 \<longrightarrow> r = Leaf"
    by (auto simp: final_def)
  have s0: "steady c (in_order ([], t, []))" "split_ok c ([], t, [])"
    using assms(2) by (simp_all add: in_order_def split_ok_def)
  have s: "split_ok c (L, t', R)" by (rule moves_split [OF conjunct1 [OF m] s0])
  have o: "steady c (in_order (L, t', R))" using s0(1) by (simp only: moves_in_order [OF conjunct1 [OF m]])
  have st: "\<forall>y \<in> set_tree l. c y \<le> 0 \<longrightarrow> c x < 0" "c x \<le> 0 \<longrightarrow> (\<forall>y \<in> set_tree r. c y < 0)"
    using o by (simp_all add: in_order_def t'(1))
  have l: "\<forall>y \<in> set_tree l. c y > 0"
    using st(1) t'(2) by (cases "c x < 0") (simp, meson not_less)
  have r: "\<forall>y \<in> set_tree r. c y < 0"
    using st(2) t'(3) by (cases "c x > 0") (simp_all add: not_less)
  from s l r show ?thesis by (auto simp: splay_tree_def p t' split_ok_def)
qed

section \<open>The heap\<close>

lemma sp_fields [simp]:
  "sp_lf (sp_put_left x p s) = (sp_lf s)(x := map_option (\<lambda>_. p) (sp_lf s x))"
  "sp_rg (sp_put_left x p s) = sp_rg s" "SPLAY_ROOT (sp_put_left x p s) = SPLAY_ROOT s"
  "sp_rg (sp_put_right x p s) = (sp_rg s)(x := map_option (\<lambda>_. p) (sp_rg s x))"
  "sp_lf (sp_put_right x p s) = sp_lf s" "SPLAY_ROOT (sp_put_right x p s) = SPLAY_ROOT s"
  "sp_lf (sp_put_root p s) = sp_lf s" "sp_rg (sp_put_root p s) = sp_rg s"
  "SPLAY_ROOT (sp_put_root p s) = p" "sp_cells (sp_put_root p s) = sp_cells s"
  by (auto simp: sp_lf_def sp_rg_def sp_put_left_def sp_put_right_def sp_put_root_def SPLAY_ROOT_def
      fun_eq_iff option.map_comp comp_def)

lemma sp_cells_put [simp]:
  "y \<noteq> x \<Longrightarrow> sp_cells (sp_put_left x p s) y = sp_cells s y"
  "y \<noteq> x \<Longrightarrow> sp_cells (sp_put_right x p s) y = sp_cells s y"
  "dom (sp_cells (sp_put_left x p s)) = dom (sp_cells s)"
  "dom (sp_cells (sp_put_right x p s)) = dom (sp_cells s)"
  by (auto simp: sp_put_left_def sp_put_right_def)

lemma sp_lf_alloc: "sp_lf s x = Some p \<Longrightarrow> sp_cells s x \<noteq> None \<and> sp_rg s x \<noteq> None"
  and sp_rg_alloc: "sp_rg s x = Some p \<Longrightarrow> sp_cells s x \<noteq> None \<and> sp_lf s x \<noteq> None"
  by (auto simp: sp_lf_def sp_rg_def)

lemma sp_access:
  "sp_lf s x = Some p \<Longrightarrow> SPLAY_LEFT (Some x) s = (Ret p, s)"
  "sp_rg s x = Some p \<Longrightarrow> SPLAY_RIGHT (Some x) s = (Ret p, s)"
  "sp_lf s x = Some p \<Longrightarrow> SPLAY_LEFT_set (Some x) q s = (Ret (), sp_put_left x q s)"
  "sp_rg s x = Some p \<Longrightarrow> SPLAY_RIGHT_set (Some x) q s = (Ret (), sp_put_right x q s)"
  by (auto simp: SPLAY_LEFT_def SPLAY_RIGHT_def SPLAY_LEFT_set_def SPLAY_RIGHT_set_def
      dest: sp_lf_alloc sp_rg_alloc)

lemmas sp_run = sbind_def sseq_def prog_eval sp_access

text \<open>The spines: every node but the last points to the next, and keeps its other subtree.\<close>

definition hang :: "field \<Rightarrow> field \<Rightarrow> field \<Rightarrow> nat \<Rightarrow> nat tree \<Rightarrow> bool" where
  "hang lf rg fld x t \<longleftrightarrow> fld x = Some (root_ptr t) \<and> tree_at lf rg (root_ptr t) t"

primrec tip :: "nat \<Rightarrow> spine \<Rightarrow> nat" where
  "tip nd [] = nd"
| "tip nd (e # L) = snd e"

primrec spine_at :: "(nat \<Rightarrow> nat tree \<Rightarrow> bool) \<Rightarrow> field \<Rightarrow> nat \<Rightarrow> spine \<Rightarrow> bool" where
  "spine_at T nx nd [] \<longleftrightarrow> nx nd \<noteq> None"
| "spine_at T nx nd (e # L) \<longleftrightarrow> nx (snd e) \<noteq> None \<and> T (snd e) (fst e)
    \<and> nx (tip nd L) = Some (Some (snd e)) \<and> spine_at T nx nd L"

lemma tip_in: "tip nd L \<in> insert nd (set (lin L))" "tip nd L \<in> insert nd (set (rin L))"
  by (cases L; simp)+

lemma set_rin [simp]: "set (rin L) = set (lin L)"
  by (induction L) auto

lemma distinct_rin [simp]: "distinct (rin L) = distinct (lin L)"
  by (induction L) auto

lemma spine_frame:
  "spine_at (hang lf rg fld) nx nd L \<Longrightarrow> distinct (nd # lin L) \<Longrightarrow> \<forall>x \<in> set (lin L). fld' x = fld x \<Longrightarrow>
   \<forall>x \<in> set (lin L) - {tip nd L}. lf' x = lf x \<and> rg' x = rg x \<Longrightarrow>
   \<forall>x \<in> insert nd (set (lin L)) - {tip nd L}. nx' x = nx x \<Longrightarrow>
   nx' (tip nd L) \<noteq> None \<Longrightarrow> spine_at (hang lf' rg' fld') nx' nd L"
proof (induction L)
  case (Cons e L)
  have t: "tip nd L \<noteq> snd e" using tip_in(1) [of nd L] Cons.prems(2) by auto
  have "hang lf' rg' fld' (snd e) (fst e)"
    using Cons.prems by (auto simp: hang_def elim!: tree_at_frame)
  moreover have "spine_at (hang lf' rg' fld') nx' nd L"
    using Cons.prems t tip_in(1) [of nd L] by (intro Cons.IH) auto
  ultimately show ?case using Cons.prems t tip_in(1) [of nd L] by auto
qed simp

lemma spine_tip: "spine_at T nx nd L \<Longrightarrow> nx (tip nd L) \<noteq> None"
  by (cases L) auto

lemma spine_same:
  assumes "spine_at (hang lf rg fld) nx nd L" "distinct (nd # lin L)"
    and "\<And>x. x \<in> set (lin L) \<Longrightarrow> lf' x = lf x"
    and "\<And>x. x \<in> set (lin L) \<Longrightarrow> rg' x = rg x"
    and "\<And>x. x \<in> insert nd (set (lin L)) \<Longrightarrow> nx' x = nx x"
    and "\<And>x. x \<in> set (lin L) \<Longrightarrow> fld' x = fld x"
  shows "spine_at (hang lf' rg' fld') nx' nd L"
  by (rule spine_frame [OF assms(1,2)]) (use assms(3-) tip_in(1) [of nd L] spine_tip [OF assms(1)] in simp_all)

text \<open>Gluing the remaining subtree to the end of a spine.\<close>

lemma spine_glue_left:
  "spine_at (hang lf rg lf) rg nd L \<Longrightarrow> rg (tip nd L) = Some (root_ptr t) \<Longrightarrow> tree_at lf rg (root_ptr t) t \<Longrightarrow>
   rg nd = Some (root_ptr (glue_left L t)) \<and> tree_at lf rg (root_ptr (glue_left L t)) (glue_left L t)"
proof (induction L arbitrary: t)
  case (Cons e L)
  then show ?case using Cons.IH [of "Node (fst e) (snd e) t"] by (simp add: hang_def)
qed simp

lemma spine_glue_right:
  "spine_at (hang lf rg rg) lf nd L \<Longrightarrow> lf (tip nd L) = Some (root_ptr t) \<Longrightarrow> tree_at lf rg (root_ptr t) t \<Longrightarrow>
   lf nd = Some (root_ptr (glue_right L t)) \<and> tree_at lf rg (root_ptr (glue_right L t)) (glue_right L t)"
proof (induction L arbitrary: t)
  case (Cons e L)
  then show ?case using Cons.IH [of "Node t (snd e) (fst e)"] by (simp add: hang_def)
qed simp

definition mid :: "nat \<Rightarrow> splay_head \<Rightarrow> ptr \<Rightarrow> ptr \<Rightarrow> spine \<times> nat tree \<times> spine \<Rightarrow> bool" where
  "mid nd s lp rp = (\<lambda>(L, t, R). lp = Some (tip nd L) \<and> rp = Some (tip nd R) \<and> SPLAY_ROOT s = root_ptr t
    \<and> tree_at (sp_lf s) (sp_rg s) (root_ptr t) t
    \<and> spine_at (hang (sp_lf s) (sp_rg s) (sp_lf s)) (sp_rg s) nd L
    \<and> spine_at (hang (sp_lf s) (sp_rg s) (sp_rg s)) (sp_lf s) nd R
    \<and> distinct (nd # in_order (L, t, R)))"

text \<open>What the loop may change.\<close>

definition touch :: "nat set \<Rightarrow> splay_head \<Rightarrow> splay_head \<Rightarrow> bool" where
  "touch A s s' \<longleftrightarrow> (\<forall>z. z \<notin> A \<longrightarrow> sp_cells s' z = sp_cells s z) \<and> dom (sp_cells s') = dom (sp_cells s)"

lemma touch_refl [simp]: "touch A s s"
  by (simp add: touch_def)

lemma touch_trans: "touch A s s' \<Longrightarrow> touch A s' s'' \<Longrightarrow> touch A s s''"
  by (simp add: touch_def)

lemma touch_put [simp]:
  "x \<in> A \<Longrightarrow> touch A s (sp_put_left x p s') \<longleftrightarrow> touch A s s'"
  "x \<in> A \<Longrightarrow> touch A s (sp_put_right x p s') \<longleftrightarrow> touch A s s'"
  "touch A s (sp_put_root p s') \<longleftrightarrow> touch A s s'"
  by (simp_all add: touch_def del: domIff) (metis sp_cells_put(1,2))+

lemma mid_alloc: "mid nd s lp rp (L, t, R) \<Longrightarrow> x \<in> set_tree t \<Longrightarrow> sp_lf s x \<noteq> None \<and> sp_rg s x \<noteq> None"
  by (auto simp: mid_def dest: tree_at_alloc)

text \<open>The tree and the spines have no address in common, so a store changes one of them.\<close>

lemma mid_tree_store:
  assumes "mid nd s lp rp (L, t, R)" "\<forall>x \<in> - set_tree t. sp_lf s' x = sp_lf s x \<and> sp_rg s' x = sp_rg s x"
    and "SPLAY_ROOT s' = root_ptr t'" "tree_at (sp_lf s') (sp_rg s') (root_ptr t') t'" "inorder t' = inorder t"
  shows "mid nd s' lp rp (L, t', R)"
proof -
  have p: "spine_at (hang (sp_lf s) (sp_rg s) (sp_lf s)) (sp_rg s) nd L"
    "spine_at (hang (sp_lf s) (sp_rg s) (sp_rg s)) (sp_lf s) nd R" "distinct (nd # lin L)" "distinct (nd # lin R)"
    and out: "insert nd (set (lin L)) \<subseteq> - set_tree t" "insert nd (set (lin R)) \<subseteq> - set_tree t"
    using assms(1) by (auto simp: mid_def in_order_def)
  have "spine_at (hang (sp_lf s') (sp_rg s') (sp_lf s')) (sp_rg s') nd L"
    by (rule spine_same [OF p(1,3)]; use assms(2) out(1) in blast)
  moreover have "spine_at (hang (sp_lf s') (sp_rg s') (sp_rg s')) (sp_lf s') nd R"
    by (rule spine_same [OF p(2,4)]; use assms(2) out(2) in blast)
  moreover have "set_tree t' = set_tree t" using assms(5) by (metis set_inorder)
  ultimately show ?thesis using assms(1,3,4,5) by (simp add: mid_def in_order_def)
qed

lemma ROTATE_RIGHT_mid:
  assumes "mid nd s lp rp (L, Node (Node ll y lr) x r, R)"
  shows "\<exists>s'. SPLAY_ROTATE_RIGHT (Some y) s = (Ret (), s') \<and> mid nd s' lp rp (L, Node ll y (Node lr x r), R)
    \<and> touch {x, y} s s'"
proof -
  define s' where "s' = sp_put_root (Some y) (sp_put_right y (Some x) (sp_put_left x (root_ptr lr) s))"
  have t: "tree_at (sp_lf s) (sp_rg s) (Some x) (Node (Node ll y lr) x r)" "SPLAY_ROOT s = Some x"
    "distinct (inorder (Node (Node ll y lr) x r))"
    using assms by (simp_all add: mid_def in_order_def)
  then have "SPLAY_ROTATE_RIGHT (Some y) s = (Ret (), s')"
    by (simp add: SPLAY_ROTATE_RIGHT_def sp_run tree_at_iff s'_def del: tree_at.simps)
  moreover have "tree_at (sp_lf s') (sp_rg s') (Some y) (Node ll y (Node lr x r))"
    using t(1,3) by (auto simp: tree_at_iff s'_def simp del: tree_at.simps)
  then have "mid nd s' lp rp (L, Node ll y (Node lr x r), R)"
    by (intro mid_tree_store [OF assms]) (auto simp: s'_def)
  ultimately show ?thesis by (auto simp: s'_def)
qed

lemma ROTATE_LEFT_mid:
  assumes "mid nd s lp rp (L, Node l x (Node rl y rr), R)"
  shows "\<exists>s'. SPLAY_ROTATE_LEFT (Some y) s = (Ret (), s') \<and> mid nd s' lp rp (L, Node (Node l x rl) y rr, R)
    \<and> touch {x, y} s s'"
proof -
  define s' where "s' = sp_put_root (Some y) (sp_put_left y (Some x) (sp_put_right x (root_ptr rl) s))"
  have t: "tree_at (sp_lf s) (sp_rg s) (Some x) (Node l x (Node rl y rr))" "SPLAY_ROOT s = Some x"
    "distinct (inorder (Node l x (Node rl y rr)))"
    using assms by (simp_all add: mid_def in_order_def)
  then have "SPLAY_ROTATE_LEFT (Some y) s = (Ret (), s')"
    by (simp add: SPLAY_ROTATE_LEFT_def sp_run tree_at_iff s'_def del: tree_at.simps)
  moreover have "tree_at (sp_lf s') (sp_rg s') (Some y) (Node (Node l x rl) y rr)"
    using t(1,3) by (auto simp: tree_at_iff s'_def simp del: tree_at.simps)
  then have "mid nd s' lp rp (L, Node (Node l x rl) y rr, R)"
    by (intro mid_tree_store [OF assms]) (auto simp: s'_def)
  ultimately show ?thesis by (auto simp: s'_def)
qed

lemma LINKLEFT_mid:
  assumes "mid nd s lp rp (L, Node l x r, R)"
  shows "\<exists>s'. SPLAY_LINKLEFT rp s = (Ret (Some x), s') \<and> mid nd s' lp (Some x) (L, l, (r, x) # R)
    \<and> touch {tip nd R} s s'"
proof -
  define s' where "s' = sp_put_root (root_ptr l) (sp_put_left (tip nd R) (Some x) s)"
  have t: "tree_at (sp_lf s) (sp_rg s) (Some x) (Node l x r)" "SPLAY_ROOT s = Some x"
    and p: "spine_at (hang (sp_lf s) (sp_rg s) (sp_lf s)) (sp_rg s) nd L"
      "spine_at (hang (sp_lf s) (sp_rg s) (sp_rg s)) (sp_lf s) nd R"
    and d: "distinct (nd # lin L)" "distinct (nd # lin R)" "tip nd R \<notin> set (lin L)" "tip nd R \<notin> set_tree l"
      "tip nd R \<notin> set_tree r" "tip nd R \<noteq> x" "x \<notin> set (lin R)" "x \<noteq> nd"
    using assms tip_in(1) [of nd R] by (auto simp: mid_def in_order_def)
  from spine_tip [OF p(2)] obtain q where q: "sp_lf s (tip nd R) = Some q" by blast
  have rp: "rp = Some (tip nd R)" using assms by (simp add: mid_def)
  have "SPLAY_LINKLEFT rp s = (Ret (Some x), s')"
    using t q d(6) by (simp add: SPLAY_LINKLEFT_def sp_run tree_at_iff s'_def rp del: tree_at.simps)
  moreover have "spine_at (hang (sp_lf s') (sp_rg s') (sp_lf s')) (sp_rg s') nd L"
    by (rule spine_same [OF p(1) d(1)]) (use d(3) in \<open>auto simp: s'_def\<close>)
  moreover have "spine_at (hang (sp_lf s') (sp_rg s') (sp_rg s')) (sp_lf s') nd R"
    by (rule spine_frame [OF p(2) d(2)]) (use q in \<open>auto simp: s'_def\<close>)
  moreover have "tree_at (sp_lf s') (sp_rg s') (root_ptr l) l" "hang (sp_lf s') (sp_rg s') (sp_rg s') x r"
    using t(1) d by (simp_all add: tree_at_iff s'_def hang_def del: tree_at.simps)
  ultimately show ?thesis using assms t(1) d(6) q
    by (auto simp: mid_def in_order_def tree_at_iff s'_def)
qed

lemma LINKRIGHT_mid:
  assumes "mid nd s lp rp (L, Node l x r, R)"
  shows "\<exists>s'. SPLAY_LINKRIGHT lp s = (Ret (Some x), s') \<and> mid nd s' (Some x) rp ((l, x) # L, r, R)
    \<and> touch {tip nd L} s s'"
proof -
  define s' where "s' = sp_put_root (root_ptr r) (sp_put_right (tip nd L) (Some x) s)"
  have t: "tree_at (sp_lf s) (sp_rg s) (Some x) (Node l x r)" "SPLAY_ROOT s = Some x"
    and p: "spine_at (hang (sp_lf s) (sp_rg s) (sp_lf s)) (sp_rg s) nd L"
      "spine_at (hang (sp_lf s) (sp_rg s) (sp_rg s)) (sp_lf s) nd R"
    and d: "distinct (nd # lin L)" "distinct (nd # lin R)" "tip nd L \<notin> set (lin R)" "tip nd L \<notin> set_tree l"
      "tip nd L \<notin> set_tree r" "tip nd L \<noteq> x" "x \<notin> set (lin L)" "x \<noteq> nd"
    using assms tip_in(1) [of nd L] by (auto simp: mid_def in_order_def)
  from spine_tip [OF p(1)] obtain q where q: "sp_rg s (tip nd L) = Some q" by blast
  have lp: "lp = Some (tip nd L)" using assms by (simp add: mid_def)
  have "SPLAY_LINKRIGHT lp s = (Ret (Some x), s')"
    using t q d(6) by (simp add: SPLAY_LINKRIGHT_def sp_run tree_at_iff s'_def lp del: tree_at.simps)
  moreover have "spine_at (hang (sp_lf s') (sp_rg s') (sp_rg s')) (sp_lf s') nd R"
    by (rule spine_same [OF p(2) d(2)]) (use d(3) in \<open>auto simp: s'_def\<close>)
  moreover have "spine_at (hang (sp_lf s') (sp_rg s') (sp_lf s')) (sp_rg s') nd L"
    by (rule spine_frame [OF p(1) d(1)]) (use q in \<open>auto simp: s'_def\<close>)
  moreover have "tree_at (sp_lf s') (sp_rg s') (root_ptr r) r" "hang (sp_lf s') (sp_rg s') (sp_lf s') x l"
    using t(1) d by (simp_all add: tree_at_iff s'_def hang_def del: tree_at.simps)
  ultimately show ?thesis using assms t(1) d(6) q
    by (auto simp: mid_def in_order_def tree_at_iff s'_def)
qed

lemma ASSEMBLE_mid:
  assumes "mid nd s lp rp (L, Node l x r, R)"
  shows "\<exists>s'. SPLAY_ASSEMBLE (Some nd) lp rp s = (Ret (), s') \<and> SPLAY_ROOT s' = Some x
    \<and> tree_at (sp_lf s') (sp_rg s') (Some x) (assemble (L, Node l x r, R))
    \<and> touch {tip nd L, tip nd R, x} s s'"
proof -
  define s1 where "s1 = sp_put_right (tip nd L) (root_ptr l) s"
  define s2 where "s2 = sp_put_left (tip nd R) (root_ptr r) s1"
  define s3 where "s3 = sp_put_left x (root_ptr (glue_left L l)) s2"
  define s4 where "s4 = sp_put_right x (root_ptr (glue_right R r)) s3"
  have t: "tree_at (sp_lf s) (sp_rg s) (Some x) (Node l x r)" "SPLAY_ROOT s = Some x"
    "lp = Some (tip nd L)" "rp = Some (tip nd R)"
    and p: "spine_at (hang (sp_lf s) (sp_rg s) (sp_lf s)) (sp_rg s) nd L"
      "spine_at (hang (sp_lf s) (sp_rg s) (sp_rg s)) (sp_lf s) nd R"
    and d: "distinct (nd # lin L)" "distinct (nd # lin R)" "tip nd L \<notin> set (lin R)" "tip nd R \<notin> set (lin L)"
      "tip nd L \<notin> set_tree l" "tip nd R \<notin> set_tree l" "tip nd L \<notin> set_tree r" "tip nd R \<notin> set_tree r"
      "tip nd L \<noteq> x" "tip nd R \<noteq> x" "nd \<noteq> x" "x \<notin> set_tree (glue_left L l)" "x \<notin> set_tree (glue_right R r)"
    using assms tip_in(1) [of nd L] tip_in(1) [of nd R] by (auto simp: mid_def in_order_def)
  from spine_tip [OF p(1)] obtain ql where ql: "sp_rg s (tip nd L) = Some ql" by blast
  from spine_tip [OF p(2)] obtain qr where qr: "sp_lf s (tip nd R) = Some qr" by blast
  have tl: "tree_at (sp_lf s) (sp_rg s) (root_ptr l) l" "tree_at (sp_lf s) (sp_rg s) (root_ptr r) r"
    using t(1) by (simp_all only: tree_at_iff)
  have a: "sp_rg s2 (tip nd L) = Some (root_ptr l)" "tree_at (sp_lf s2) (sp_rg s2) (root_ptr l) l"
    "sp_lf s2 (tip nd R) = Some (root_ptr r)" "tree_at (sp_lf s2) (sp_rg s2) (root_ptr r) r"
    using tl d(5-8) ql qr by (simp_all add: s2_def s1_def)
  have "spine_at (hang (sp_lf s2) (sp_rg s2) (sp_lf s2)) (sp_rg s2) nd L"
    by (rule spine_frame [OF p(1) d(1)]) (use d(4) ql in \<open>auto simp: s2_def s1_def\<close>)
  note gl = conjunct1 [OF spine_glue_left [OF this a(1,2)]] conjunct2 [OF spine_glue_left [OF this a(1,2)]]
  have "spine_at (hang (sp_lf s2) (sp_rg s2) (sp_rg s2)) (sp_lf s2) nd R"
    by (rule spine_frame [OF p(2) d(2)]) (use d(3) qr in \<open>auto simp: s2_def s1_def\<close>)
  note gr = conjunct1 [OF spine_glue_right [OF this a(3,4)]] conjunct2 [OF spine_glue_right [OF this a(3,4)]]
  have x: "sp_lf s x = Some (root_ptr l)" "sp_rg s x = Some (root_ptr r)"
    using t(1) by (simp_all only: tree_at_iff)
  have e: "SPLAY_LEFT (Some x) s = (Ret (root_ptr l), s)"
    "SPLAY_RIGHT_set lp (root_ptr l) s = (Ret (), s1)"
    "SPLAY_RIGHT (Some x) s1 = (Ret (root_ptr r), s1)"
    "SPLAY_LEFT_set rp (root_ptr r) s1 = (Ret (), s2)"
    "SPLAY_RIGHT (Some nd) s2 = (Ret (root_ptr (glue_left L l)), s2)"
    "SPLAY_LEFT_set (Some x) (root_ptr (glue_left L l)) s2 = (Ret (), s3)"
    "SPLAY_LEFT (Some nd) s3 = (Ret (root_ptr (glue_right R r)), s3)"
    "SPLAY_RIGHT_set (Some x) (root_ptr (glue_right R r)) s3 = (Ret (), s4)"
    unfolding s4_def using t(3,4) d(9-11) ql qr gl(1) gr(1) x
    by (auto intro!: sp_access simp: s1_def s2_def s3_def)
  have "SPLAY_ASSEMBLE (Some nd) lp rp s = (Ret (), s4)"
    using t(2) by (simp add: SPLAY_ASSEMBLE_def sbind_def sseq_def prog_eval e)
  moreover have "tree_at (sp_lf s4) (sp_rg s4) (Some x) (assemble (L, Node l x r, R))"
    using gl(2) gr(2) d(9,10,12,13) x by (auto simp: s4_def s3_def tree_at_iff s2_def s1_def simp del: tree_at.simps)
  moreover have "touch {tip nd L, tip nd R, x} s s4" "SPLAY_ROOT s4 = Some x"
    by (simp_all add: s4_def s3_def s2_def s1_def t(2))
  ultimately show ?thesis by blast
qed

section \<open>The loops\<close>

text \<open>One turn of the loop makes the moves of one unfolding of \<open>psplay\<close>.\<close>

definition turned :: "nat \<Rightarrow> (nat \<Rightarrow> int) \<Rightarrow> splay_head \<Rightarrow> spine \<Rightarrow> nat tree \<Rightarrow> spine \<Rightarrow>
    (ptr \<times> ptr) + (ptr \<times> ptr) \<Rightarrow> splay_head \<Rightarrow> bool" where
  "turned nd c s L t R r s' \<longleftrightarrow> touch (insert nd (set (in_order (L, t, R)))) s s' \<and>
     (case r of
       Inl (lp, rp) \<Rightarrow> mid nd s' lp rp (psplay c L t R)
     | Inr (lp, rp) \<Rightarrow> \<exists>L' t' R'. mid nd s' lp rp (L', t', R') \<and> t' \<noteq> Leaf \<and> size t' < size t
         \<and> turns c t = Suc (turns c t') \<and> psplay c L t R = psplay c L' t' R' \<and> in_order (L', t', R') = in_order (L, t, R))"

lemma touch_mono: "touch A s s' \<Longrightarrow> A \<subseteq> B \<Longrightarrow> touch B s s'"
  by (auto simp: touch_def)

lemma tip_set: "tip nd L \<in> insert nd (set (lin L))"
  by (rule tip_in)

lemma root_read: "mid nd s lp rp (L, Node l x r, R) \<Longrightarrow>
  sbind (sget SPLAY_ROOT) SPLAY_LEFT s = (Ret (root_ptr l), s) \<and>
  sbind (sget SPLAY_ROOT) SPLAY_RIGHT s = (Ret (root_ptr r), s) \<and>
  cmp_root c s = (Ret (c x), s)"
  by (auto simp: mid_def sbind_def prog_eval tree_at_iff sp_access cmp_root_def simp del: tree_at.simps)

lemma turn_left:
  assumes m: "mid nd s lp rp (L, Node l x r, R)" and c: "c x < 0"
  shows "\<exists>res s'. splay_turn c (c x) lp rp s = (Ret res, s') \<and> turned nd c s L (Node l x r) R res s'"
proof (cases l)
  case Leaf
  have "splay_turn c (c x) lp rp s = (Ret (Inl (lp, rp)), s)"
    using c root_read [OF m] Leaf by (simp add: splay_turn_def sbind_def prog_eval)
  moreover have "turned nd c s L (Node l x r) R (Inl (lp, rp)) s" using m c Leaf by (simp add: turned_def)
  ultimately show ?thesis by blast
next
  case (Node ll y lr)
  note rd = root_read [OF m]
  let ?A = "insert nd (set (in_order (L, Node l x r, R)))"
  show ?thesis
  proof (cases "c y < 0")
    case True
    from ROTATE_RIGHT_mid m Node obtain s1 where s1: "SPLAY_ROTATE_RIGHT (Some y) s = (Ret (), s1)"
      "mid nd s1 lp rp (L, Node ll y (Node lr x r), R)" "touch {x, y} s s1" by blast
    have t1: "touch ?A s s1" by (rule touch_mono [OF s1(3)]) (simp add: in_order_def Node)
    note rd1 = root_read [OF s1(2)]
    show ?thesis
    proof (cases "ll = Leaf")
      case L: True
      have "splay_turn c (c x) lp rp s = (Ret (Inl (lp, rp)), s1)"
        using c rd Node True s1(1) rd1 L by (simp add: splay_turn_def sbind_def sseq_def prog_eval)
      moreover have "turned nd c s L (Node l x r) R (Inl (lp, rp)) s1"
        using t1 s1(2) c Node True L by (simp add: turned_def)
      ultimately show ?thesis by blast
    next
      case False
      from LINKLEFT_mid [OF s1(2)] obtain s2 where s2: "SPLAY_LINKLEFT rp s1 = (Ret (Some y), s2)"
        "mid nd s2 lp (Some y) (L, ll, (Node lr x r, y) # R)" "touch {tip nd R} s1 s2" by blast
      have "touch ?A s1 s2" by (rule touch_mono [OF s2(3)]) (use tip_set [of nd R] in \<open>auto simp: in_order_def\<close>)
      with t1 have t2: "touch ?A s s2" by (rule touch_trans)
      have "splay_turn c (c x) lp rp s = (Ret (Inr (lp, Some y)), s2)"
        using c rd Node True s1(1) rd1 False s2(1) by (simp add: splay_turn_def sbind_def sseq_def prog_eval)
      moreover have "turned nd c s L (Node l x r) R (Inr (lp, Some y)) s2"
        unfolding turned_def sum.case prod.case using t2 s2(2) c Node True False
        by (intro conjI exI [of _ L] exI [of _ ll] exI [of _ "(Node lr x r, y) # R"]) (simp_all add: in_order_def)
      ultimately show ?thesis by blast
    qed
  next
    case False
    from LINKLEFT_mid [OF m] obtain s2 where s2: "SPLAY_LINKLEFT rp s = (Ret (Some x), s2)"
      "mid nd s2 lp (Some x) (L, l, (r, x) # R)" "touch {tip nd R} s s2" by blast
    have t2: "touch ?A s s2" by (rule touch_mono [OF s2(3)]) (use tip_set [of nd R] in \<open>auto simp: in_order_def\<close>)
    have "splay_turn c (c x) lp rp s = (Ret (Inr (lp, Some x)), s2)"
      using c rd Node False s2(1) by (simp add: splay_turn_def sbind_def sseq_def prog_eval)
    moreover have "turned nd c s L (Node l x r) R (Inr (lp, Some x)) s2"
      unfolding turned_def sum.case prod.case using t2 s2(2) c Node False
      by (intro conjI exI [of _ L] exI [of _ l] exI [of _ "(r, x) # R"]) (simp_all add: in_order_def)
    ultimately show ?thesis by blast
  qed
qed

lemma turn_right:
  assumes m: "mid nd s lp rp (L, Node l x r, R)" and c: "c x > 0"
  shows "\<exists>res s'. splay_turn c (c x) lp rp s = (Ret res, s') \<and> turned nd c s L (Node l x r) R res s'"
proof (cases r)
  case Leaf
  have "splay_turn c (c x) lp rp s = (Ret (Inl (lp, rp)), s)"
    using c root_read [OF m] Leaf by (simp add: splay_turn_def sbind_def prog_eval)
  moreover have "turned nd c s L (Node l x r) R (Inl (lp, rp)) s" using m c Leaf by (simp add: turned_def)
  ultimately show ?thesis by blast
next
  case (Node rl y rr)
  note rd = root_read [OF m]
  let ?A = "insert nd (set (in_order (L, Node l x r, R)))"
  show ?thesis
  proof (cases "c y > 0")
    case True
    from ROTATE_LEFT_mid m Node obtain s1 where s1: "SPLAY_ROTATE_LEFT (Some y) s = (Ret (), s1)"
      "mid nd s1 lp rp (L, Node (Node l x rl) y rr, R)" "touch {x, y} s s1" by blast
    have t1: "touch ?A s s1" by (rule touch_mono [OF s1(3)]) (simp add: in_order_def Node)
    note rd1 = root_read [OF s1(2)]
    show ?thesis
    proof (cases "rr = Leaf")
      case L: True
      have "splay_turn c (c x) lp rp s = (Ret (Inl (lp, rp)), s1)"
        using c rd Node True s1(1) rd1 L by (simp add: splay_turn_def sbind_def sseq_def prog_eval)
      moreover have "turned nd c s L (Node l x r) R (Inl (lp, rp)) s1"
        using t1 s1(2) c Node True L by (simp add: turned_def)
      ultimately show ?thesis by blast
    next
      case False
      from LINKRIGHT_mid [OF s1(2)] obtain s2 where s2: "SPLAY_LINKRIGHT lp s1 = (Ret (Some y), s2)"
        "mid nd s2 (Some y) rp ((Node l x rl, y) # L, rr, R)" "touch {tip nd L} s1 s2" by blast
      have "touch ?A s1 s2" by (rule touch_mono [OF s2(3)]) (use tip_set [of nd L] in \<open>auto simp: in_order_def\<close>)
      with t1 have t2: "touch ?A s s2" by (rule touch_trans)
      have "splay_turn c (c x) lp rp s = (Ret (Inr (Some y, rp)), s2)"
        using c rd Node True s1(1) rd1 False s2(1) by (simp add: splay_turn_def sbind_def sseq_def prog_eval)
      moreover have "turned nd c s L (Node l x r) R (Inr (Some y, rp)) s2"
        unfolding turned_def sum.case prod.case using t2 s2(2) c Node True False
        by (intro conjI exI [of _ "(Node l x rl, y) # L"] exI [of _ rr] exI [of _ R]) (simp_all add: in_order_def)
      ultimately show ?thesis by blast
    qed
  next
    case False
    from LINKRIGHT_mid [OF m] obtain s2 where s2: "SPLAY_LINKRIGHT lp s = (Ret (Some x), s2)"
      "mid nd s2 (Some x) rp ((l, x) # L, r, R)" "touch {tip nd L} s s2" by blast
    have t2: "touch ?A s s2" by (rule touch_mono [OF s2(3)]) (use tip_set [of nd L] in \<open>auto simp: in_order_def\<close>)
    have "splay_turn c (c x) lp rp s = (Ret (Inr (Some x, rp)), s2)"
      using c rd Node False s2(1) by (simp add: splay_turn_def sbind_def sseq_def prog_eval)
    moreover have "turned nd c s L (Node l x r) R (Inr (Some x, rp)) s2"
      unfolding turned_def sum.case prod.case using t2 s2(2) c Node False
      by (intro conjI exI [of _ "(l, x) # L"] exI [of _ r] exI [of _ R]) (simp_all add: in_order_def)
    ultimately show ?thesis by blast
  qed
qed

lemma turn_ok:
  assumes "mid nd s lp rp (L, Node l x r, R)" "c x \<noteq> 0"
  shows "\<exists>res s'. splay_turn c (c x) lp rp s = (Ret res, s') \<and> turned nd c s L (Node l x r) R res s'"
  using turn_left [OF assms(1)] turn_right [OF assms(1)] assms(2) by (meson linorder_neqE_linordered_idom)

lemma splay_loop_ok:
  "mid nd s lp rp (L, t, R) \<Longrightarrow> t \<noteq> Leaf \<Longrightarrow>
   \<exists>lp' rp' s'. (\<forall>k \<ge> turns c t. splay_loop c k lp rp s = (Ret (lp', rp'), s')) \<and> mid nd s' lp' rp' (psplay c L t R)
     \<and> touch (insert nd (set (in_order (L, t, R)))) s s'"
proof (induction t arbitrary: s lp rp L R rule: measure_induct_rule [of size])
  case (less t)
  then obtain l x r where t: "t = Node l x r" by (cases t) auto
  note m = less.prems(1) [unfolded t]
  have pos: "\<exists>k'. k = Suc k'" if "turns c t \<le> k" for k
    using that by (cases k) (auto simp: t split: if_splits tree.splits)
  show ?case
  proof (cases "c x = 0")
    case False
    obtain res s1 where s1: "splay_turn c (c x) lp rp s = (Ret res, s1)" "turned nd c s L t R res s1"
      using turn_ok [OF m] False t by blast
    have run: "splay_loop c (Suc k) lp rp s = (case res of Inl lr \<Rightarrow> (Ret lr, s1)
        | Inr (lp', rp') \<Rightarrow> splay_loop c k lp' rp' s1)" for k
      using s1(1) root_read [OF m] False by (auto simp: sbind_def sret_def split: sum.split)
    show ?thesis
    proof (cases res)
      case (Inl q)
      have "splay_loop c k lp rp s = (Ret q, s1)" if "turns c t \<le> k" for k
        using pos [OF that] run by (auto simp: Inl)
      with s1(2) show ?thesis by (cases q) (auto simp: turned_def Inl)
    next
      case (Inr q)
      obtain lp1 rp1 where q: "q = (lp1, rp1)" by (cases q)
      from s1(2) obtain L1 t1 R1 where r1: "mid nd s1 lp1 rp1 (L1, t1, R1)" "t1 \<noteq> Leaf" "size t1 < size t"
        "turns c t = Suc (turns c t1)" "psplay c L t R = psplay c L1 t1 R1"
        "in_order (L1, t1, R1) = in_order (L, t, R)" "touch (insert nd (set (in_order (L, t, R)))) s s1"
        by (auto simp: turned_def Inr q)
      from less.IH [OF r1(3,1,2)] obtain lp' rp' s' where
        s': "\<forall>k \<ge> turns c t1. splay_loop c k lp1 rp1 s1 = (Ret (lp', rp'), s')"
        "mid nd s' lp' rp' (psplay c L t R)" "touch (insert nd (set (in_order (L, t, R)))) s1 s'"
        unfolding r1(5,6) by blast
      have "splay_loop c k lp rp s = (Ret (lp', rp'), s')" if "turns c t \<le> k" for k
        using pos [OF that] that run r1(4) s'(1) by (auto simp: Inr q)
      with s'(2) touch_trans [OF r1(7) s'(3)] show ?thesis by blast
    qed
  next
    case True
    have "splay_loop c k lp rp s = (Ret (lp, rp), s)" if "turns c t \<le> k" for k
      using pos [OF that] root_read [OF m, of c] True by (auto simp: sbind_def sret_def)
    moreover have "mid nd s lp rp (psplay c L t R)" using m True t by simp
    ultimately show ?thesis using touch_refl by blast
  qed
qed

lemma minmax_loop_splay_loop:
  assumes "cv \<noteq> 0"
  shows "mid nd s lp rp (L, t, R) \<Longrightarrow> t \<noteq> Leaf \<Longrightarrow> minmax_loop cv k lp rp s = splay_loop (\<lambda>_. cv) k lp rp s"
proof (induction k arbitrary: s lp rp L t R)
  case (Suc k)
  then obtain l x r where t: "t = Node l x r" by (cases t) auto
  note m = Suc.prems(1) [unfolded t]
  obtain res s1 where s1: "splay_turn (\<lambda>_. cv) cv lp rp s = (Ret res, s1)" "turned nd (\<lambda>_. cv) s L t R res s1"
    using turn_ok [OF m, of "\<lambda>_. cv"] assms t by blast
  have n: "minmax_loop cv k lp' rp' s1 = splay_loop (\<lambda>_. cv) k lp' rp' s1" if "res = Inr (lp', rp')" for lp' rp'
    using s1(2) Suc.IH unfolding turned_def that by auto
  from s1(1) root_read [OF m, of "\<lambda>_. cv"] assms n show ?case
    by (cases res) (auto simp: sbind_def)
qed simp

section \<open>Splaying a tree in the heap\<close>

definition splay_at :: "splay_head \<Rightarrow> nat tree \<Rightarrow> bool" where
  "splay_at s t \<longleftrightarrow> SPLAY_ROOT s = root_ptr t \<and> tree_at (sp_lf s) (sp_rg s) (root_ptr t) t \<and> distinct (inorder t)"

lemma sp_cells_new [simp]:
  "sp_lf (s\<lparr>sp_cells := (sp_cells s)(nd := n)\<rparr>) = (sp_lf s)(nd := map_option spe_left n)"
  "sp_rg (s\<lparr>sp_cells := (sp_cells s)(nd := n)\<rparr>) = (sp_rg s)(nd := map_option spe_right n)"
  "SPLAY_ROOT (s\<lparr>sp_cells := h\<rparr>) = SPLAY_ROOT s"
  by (auto simp: sp_lf_def sp_rg_def SPLAY_ROOT_def)

lemma splay_at_alloc: "splay_at s t \<Longrightarrow> set_tree t \<subseteq> dom (sp_cells s)"
  by (auto simp: splay_at_def sp_lf_def dest!: tree_at_alloc)

lemma splay_frame_ok:
  assumes t: "splay_at s t" "t \<noteq> Leaf" and nd: "nd \<notin> dom (sp_cells s)"
    and loop: "\<And>k s1. mid nd s1 (Some nd) (Some nd) ([], t, []) \<Longrightarrow>
      loop k s1 = splay_loop c k (Some nd) (Some nd) s1"
  shows "\<exists>s'. (\<forall>k \<ge> turns c t. sseq (node_enter nd) (sbind (loop k) (\<lambda>(lp, rp).
      sseq (SPLAY_ASSEMBLE (Some nd) lp rp) (node_leave nd))) s = (Ret (), s'))
    \<and> splay_at s' (splay_tree c t) \<and> touch (set_tree t) s s'"
proof -
  define s1 where "s1 = s\<lparr>sp_cells := (sp_cells s)(nd \<mapsto> \<lparr>spe_left = None, spe_right = None\<rparr>)\<rparr>"
  have n: "nd \<notin> set_tree t" using splay_at_alloc [OF t(1)] nd by blast
  have e: "node_enter nd s = (Ret (), s1)" by (simp add: node_enter_def prog_eval s1_def)
  have m: "mid nd s1 (Some nd) (Some nd) ([], t, [])"
    using t(1) n by (simp add: mid_def s1_def splay_at_def in_order_def)
  obtain lp rp s2 where s2: "\<forall>k \<ge> turns c t. splay_loop c k (Some nd) (Some nd) s1 = (Ret (lp, rp), s2)"
    "mid nd s2 lp rp (psplay c [] t [])" "touch (insert nd (set (in_order ([], t, [])))) s1 s2"
    using splay_loop_ok [OF m t(2)] by blast
  obtain L t' R where p: "psplay c [] t [] = (L, t', R)" using prod_cases3 by blast
  note mv = psplay_moves [OF p t(2)]
  then obtain l x r where t': "t' = Node l x r" by (auto simp: final_def)
  have io: "in_order (L, t', R) = inorder t" using moves_in_order [OF conjunct1 [OF mv]] by (simp add: in_order_def)
  obtain s3 where s3: "SPLAY_ASSEMBLE (Some nd) lp rp s2 = (Ret (), s3)" "SPLAY_ROOT s3 = Some x"
    "tree_at (sp_lf s3) (sp_rg s3) (Some x) (splay_tree c t)" "touch {tip nd L, tip nd R, x} s2 s3"
    using ASSEMBLE_mid [of nd s2 lp rp L l x r R] s2(2) by (auto simp: p t' splay_tree_def)
  define s4 where "s4 = s3\<lparr>sp_cells := (sp_cells s3)(nd := None)\<rparr>"
  have "{tip nd L, tip nd R, x} \<subseteq> insert nd (set (in_order (L, t', R)))"
    using tip_set [of nd L] tip_set [of nd R] by (auto simp: in_order_def t')
  then have "touch (insert nd (set_tree t)) s2 s3" unfolding io using touch_mono [OF s3(4)] by simp
  with s2(3) have tc: "touch (insert nd (set_tree t)) s1 s3" by (auto simp: in_order_def intro: touch_trans)
  have ns: "nd \<notin> set_tree (splay_tree c t)" using n inorder_splay_tree [of c t] by (metis set_inorder)
  have "touch (set_tree t) s s4"
    using tc nd by (auto simp: touch_def s1_def s4_def simp del: domIff)
  moreover have "splay_at s4 (splay_tree c t)"
    using s3(2,3) ns t(1) tree_at_root [OF s3(3)] by (simp add: splay_at_def s4_def inorder_splay_tree)
  moreover have "sseq (node_enter nd) (sbind (loop k) (\<lambda>(lp, rp).
      sseq (SPLAY_ASSEMBLE (Some nd) lp rp) (node_leave nd))) s = (Ret (), s4)" if "turns c t \<le> k" for k
    using e loop [OF m] s2(1) s3(1) that by (simp add: sseq_def sbind_def node_leave_def prog_eval s4_def)
  ultimately show ?thesis by blast
qed

text \<open>The state left does not depend on the fuel, if there is enough of it; the number of nodes is.\<close>

lemma SPLAY_turns:
  assumes "splay_at s t" "t \<noteq> Leaf" "nd \<notin> dom (sp_cells s)"
  shows "\<exists>s'. (\<forall>k \<ge> turns (cmp elm) t. SPLAY cmp nd k elm s = (Ret (), s')) \<and> splay_at s' (splay_tree (cmp elm) t)
    \<and> touch (set_tree t) s s'"
  unfolding SPLAY_def by (rule splay_frame_ok [OF assms]) (rule refl)

lemma SPLAY_ok:
  assumes "splay_at s t" "t \<noteq> Leaf" "size t \<le> k" "nd \<notin> dom (sp_cells s)"
  shows "\<exists>s'. SPLAY cmp nd k elm s = (Ret (), s') \<and> splay_at s' (splay_tree (cmp elm) t) \<and> touch (set_tree t) s s'"
  using SPLAY_turns [OF assms(1,2,4), of cmp elm] turns_le_size assms(3) by (meson le_trans)

lemma SPLAY_MINMAX_ok:
  assumes "splay_at s t" "t \<noteq> Leaf" "size t \<le> k" "nd \<notin> dom (sp_cells s)" "cv \<noteq> 0"
  shows "\<exists>s'. SPLAY_MINMAX nd k cv s = (Ret (), s') \<and> splay_at s' (splay_tree (\<lambda>_. cv) t) \<and> touch (set_tree t) s s'"
proof -
  have "\<exists>s'. (\<forall>k \<ge> turns (\<lambda>_. cv) t. SPLAY_MINMAX nd k cv s = (Ret (), s')) \<and> splay_at s' (splay_tree (\<lambda>_. cv) t)
      \<and> touch (set_tree t) s s'"
    unfolding SPLAY_MINMAX_def
    by (rule splay_frame_ok [OF assms(1,2,4)]) (rule minmax_loop_splay_loop [OF assms(5) _ assms(2)])
  with turns_le_size [of "\<lambda>_. cv" t] assms(3) show ?thesis by (meson le_trans)
qed

text \<open>With \<open>__comp\<close> 0 the loop of \<open>SPLAY_MINMAX\<close> has no exit.\<close>

lemma minmax_loop_zero: "minmax_loop 0 k lp rp s = (Wait, s)"
  by (induction k) (simp_all add: splay_turn_def sbind_def sret_def)

end
