(* ===== verification/SplaySet.thy ===== *)
theory SplaySet
  imports SplayTree
begin

text \<open>
  What the operations of the splay trees promise (utils/tree.h): a set of elements in the order of their
  keys, found, inserted, removed and visited by key. The interface is the locale \<open>search_tree\<close>.
\<close>

section \<open>The operations on the order of the elements\<close>

definition splay_list :: "nat \<Rightarrow> splay_head \<Rightarrow> nat list \<Rightarrow> bool" where
  "splay_list nd s xs \<longleftrightarrow> (\<exists>t. splay_at s t \<and> inorder t = xs) \<and> nd \<notin> dom (sp_cells s)"

lemma splay_list_alloc: "splay_list nd s xs \<Longrightarrow> distinct xs \<and> set xs \<subseteq> dom (sp_cells s)"
  unfolding splay_list_def using splay_at_alloc by (metis set_inorder splay_at_def)

lemma splay_list_empty: "splay_list nd s xs \<Longrightarrow> SPLAY_EMPTY s \<longleftrightarrow> xs = []"
  by (auto simp: splay_list_def splay_at_def SPLAY_EMPTY_def)

lemma splay_list_Nil: "nd \<notin> dom (sp_cells s) \<Longrightarrow> SPLAY_ROOT s = None \<Longrightarrow> splay_list nd s []"
  by (simp add: splay_list_def splay_at_def exI [of _ Leaf] del: domIff)

lemma touch_dom: "touch A s s' \<Longrightarrow> dom (sp_cells s') = dom (sp_cells s)"
  by (simp add: touch_def)

lemma touch_fields: "touch A s s' \<Longrightarrow> z \<notin> A \<Longrightarrow> sp_lf s' z = sp_lf s z \<and> sp_rg s' z = sp_rg s z"
  by (simp add: touch_def sp_lf_def sp_rg_def)

lemma touch_tree: "touch A s s' \<Longrightarrow> tree_at (sp_lf s) (sp_rg s) p t \<Longrightarrow> A \<inter> set_tree t = {} \<Longrightarrow>
  tree_at (sp_lf s') (sp_rg s') p t"
  by (erule tree_at_frame) (use touch_fields in blast)

lemma splay_at_Node: "splay_at s (Node l x r) \<longleftrightarrow> SPLAY_ROOT s = Some x \<and> sp_lf s x = Some (root_ptr l)
    \<and> sp_rg s x = Some (root_ptr r) \<and> tree_at (sp_lf s) (sp_rg s) (root_ptr l) l
    \<and> tree_at (sp_lf s) (sp_rg s) (root_ptr r) r \<and> distinct (inorder l @ x # inorder r)"
  by (auto simp: splay_at_def tree_at_iff simp del: tree_at.simps)

text \<open>What the operations make of the tree.\<close>

definition tree_insert :: "(nat \<Rightarrow> int) \<Rightarrow> nat \<Rightarrow> nat tree \<Rightarrow> nat tree" where
  "tree_insert c e t = (case splay_tree c t of
      Leaf \<Rightarrow> Node Leaf e Leaf
    | Node l x r \<Rightarrow>
        if c x < 0 then Node l e (Node Leaf x r)
        else if c x > 0 then Node (Node l x Leaf) e r
        else Node l x r)"

definition tree_remove :: "(nat \<Rightarrow> int) \<Rightarrow> nat tree \<Rightarrow> nat tree" where
  "tree_remove c t = (case splay_tree c t of
      Leaf \<Rightarrow> Leaf
    | Node l x r \<Rightarrow>
        if c x = 0 then (case splay_tree c l of Leaf \<Rightarrow> r | Node l' y _ \<Rightarrow> Node l' y r) else Node l x r)"

text \<open>The turns of the second loop of \<open>SPLAY_REMOVE\<close>, which splays what is in front of the element.\<close>

definition turns2 :: "(nat \<Rightarrow> int) \<Rightarrow> nat tree \<Rightarrow> nat" where
  "turns2 c t = (case splay_tree c t of
      Leaf \<Rightarrow> 0
    | Node l x r \<Rightarrow> if c x = 0 then turns c l else 0)"

lemma splay_tree_Leaf [simp]: "splay_tree c Leaf = Leaf" "splay_tree c t = Leaf \<longleftrightarrow> t = Leaf"
proof -
  show "splay_tree c Leaf = Leaf" by (simp add: splay_tree_def)
  show "splay_tree c t = Leaf \<longleftrightarrow> t = Leaf" by (metis inorder_splay_tree inorder_Nil)
qed

text \<open>Splaying in the order of the keys: what is in front of the root is smaller than the element, what
  is behind it is larger.\<close>

lemma SPLAY_split:
  assumes o: "orders cmp key" "by_key key (inorder t)" and s: "splay_at s t" "nd \<notin> dom (sp_cells s)" "t \<noteq> Leaf"
  shows "\<exists>s' l x r. (\<forall>k \<ge> turns (cmp e) t. SPLAY cmp nd k e s = (Ret (), s')) \<and> splay_at s' (Node l x r)
    \<and> splay_tree (cmp e) t = Node l x r \<and> inorder l @ x # inorder r = inorder t
    \<and> (\<forall>y \<in> set_tree l. key y < key e) \<and> (\<forall>z \<in> set_tree r. key e < key z)
    \<and> dom (sp_cells s') = dom (sp_cells s)"
proof -
  from SPLAY_turns [OF s(1,3,2), of cmp e] obtain s' where s': "\<forall>k \<ge> turns (cmp e) t. SPLAY cmp nd k e s = (Ret (), s')"
    "splay_at s' (splay_tree (cmp e) t)" "touch (set_tree t) s s'" by blast
  obtain l x r where r: "splay_tree (cmp e) t = Node l x r"
    "\<forall>y \<in> set (inorder l). cmp e y > 0" "\<forall>y \<in> set (inorder r). cmp e y < 0"
    using splay_tree_root [OF s(3)] steady_by_key [OF o] by metis
  have "inorder l @ x # inorder r = inorder t" using inorder_splay_tree [of "cmp e" t] r(1) by simp
  with s' r ordersD [OF o(1)] touch_dom [OF s'(3)] show ?thesis by (intro exI [of _ s'] exI) auto
qed

lemma SPLAY_FIND_at:
  assumes o: "orders cmp key" "by_key key (inorder t)" and s: "splay_at s t" "nd \<notin> dom (sp_cells s)"
  shows "\<exists>s'. (\<forall>k \<ge> turns (cmp e) t. SPLAY_FIND cmp nd k e s = (Ret (find (\<lambda>x. key x = key e) (inorder t)), s'))
    \<and> splay_at s' (splay_tree (cmp e) t) \<and> dom (sp_cells s') = dom (sp_cells s)"
proof (cases "t = Leaf")
  case True
  with s(1) show ?thesis by (simp add: SPLAY_FIND_def sbind_def prog_eval splay_at_def SPLAY_EMPTY_def)
next
  case False
  obtain s' l x r where s': "\<forall>k \<ge> turns (cmp e) t. SPLAY cmp nd k e s = (Ret (), s')" "splay_at s' (Node l x r)"
    "splay_tree (cmp e) t = Node l x r" "inorder l @ x # inorder r = inorder t"
    "\<forall>y \<in> set_tree l. key y < key e" "\<forall>z \<in> set_tree r. key e < key z" "dom (sp_cells s') = dom (sp_cells s)"
    using SPLAY_split [OF o s False] by blast
  have "find (\<lambda>x. key x = key e) (inorder t) = (if key x = key e then Some x else None)"
  proof (cases "key x = key e")
    case True
    moreover have "x \<in> set_tree t" using arg_cong [OF s'(4), of set] by auto
    ultimately show ?thesis using find_key(1) [OF o(2), of e x] by auto
  next
    case False
    with s'(4-6) show ?thesis using find_key(2) [OF o(2), of e] by (auto simp flip: s'(4))
  qed
  moreover have "\<not> SPLAY_EMPTY s" using s(1) False by (simp add: splay_at_def SPLAY_EMPTY_def)
  ultimately show ?thesis
    using s' ordersD(3) [OF o(1), of e x]
    by (intro exI [of _ s']) (auto simp: SPLAY_FIND_def cmp_root_def sbind_def sseq_def prog_eval splay_at_Node)
qed

lemma SPLAY_INSERT_at:
  assumes o: "orders cmp key" "by_key key (inorder t)" and s: "splay_at s t" "nd \<notin> dom (sp_cells s)"
    and e: "e \<in> dom (sp_cells s)"
  shows "\<exists>s'. (\<forall>k \<ge> turns (cmp e) t. SPLAY_INSERT cmp nd k e s = (Ret (), s')) \<and> splay_at s' (tree_insert (cmp e) e t)
    \<and> inorder (tree_insert (cmp e) e t) = add_key key e (inorder t) \<and> dom (sp_cells s') = dom (sp_cells s)"
proof (cases "t = Leaf")
  case True
  define s' where "s' = sp_put_root (Some e) (sp_put_left e None (sp_put_right e None s))"
  obtain a b where ab: "sp_lf s e = Some a" "sp_rg s e = Some b" using e by (auto simp: sp_lf_def sp_rg_def)
  then have "SPLAY_INSERT cmp nd k e s = (Ret (), s')" for k
    using True s(1) by (simp add: SPLAY_INSERT_def sp_run s'_def splay_at_def SPLAY_EMPTY_def)
  moreover have "splay_at s' (Node Leaf e Leaf)" using ab by (simp add: splay_at_Node s'_def)
  ultimately show ?thesis using True by (intro exI [of _ s']) (simp add: s'_def add_key_def tree_insert_def del: domIff)
next
  case False
  obtain s1 l x r where s1: "\<forall>k \<ge> turns (cmp e) t. SPLAY cmp nd k e s = (Ret (), s1)" "splay_at s1 (Node l x r)"
    "inorder l @ x # inorder r = inorder t" "\<forall>y \<in> set_tree l. key y < key e" "\<forall>z \<in> set_tree r. key e < key z"
    "dom (sp_cells s1) = dom (sp_cells s)" and sp: "splay_tree (cmp e) t = Node l x r"
    using SPLAY_split [OF o s False] by blast
  have ne: "\<not> SPLAY_EMPTY s" using s(1) False by (simp add: splay_at_def SPLAY_EMPTY_def)
  from e s1(6) obtain n where "sp_cells s1 e = Some n" by blast
  then obtain a b where ab: "sp_lf s1 e = Some a" "sp_rg s1 e = Some b" by (simp add: sp_lf_def sp_rg_def)
  note ev = SPLAY_INSERT_def cmp_root_def
  consider "key e < key x" | "key x < key e" | "key e = key x" using less_linear by blast
  then show ?thesis
  proof cases
    case 1
    define s' where "s' = sp_put_root (Some e) (sp_put_left x None (sp_put_right e (Some x) (sp_put_left e (root_ptr l) s1)))"
    have d: "e \<noteq> x" "e \<notin> set_tree l" "e \<notin> set_tree r" using 1 s1(4,5) by auto
    have "SPLAY_INSERT cmp nd k e s = (Ret (), s')" if "turns (cmp e) t \<le> k" for k
      using that ne s1(1,2) 1 ab d(1) ordersD [OF o(1)] by (simp add: ev sp_run s'_def splay_at_Node)
    moreover have "splay_at s' (Node l e (Node Leaf x r))"
      using s1(2) d ab by (auto simp: splay_at_Node s'_def tree_at_iff simp del: tree_at.simps(2))
    moreover have "tree_insert (cmp e) e t = Node l e (Node Leaf x r)"
      using sp 1 ordersD [OF o(1), of e x] by (simp add: tree_insert_def)
    moreover have "add_key key e (inorder t) = inorder l @ e # x # inorder r"
      unfolding s1(3) [symmetric] using s1(4,5) 1 by (subst add_key_between) auto
    ultimately show ?thesis using s1(6) by (intro exI [of _ s']) (simp add: s'_def del: domIff)
  next
    case 2
    define s' where "s' = sp_put_root (Some e) (sp_put_right x None (sp_put_left e (Some x) (sp_put_right e (root_ptr r) s1)))"
    have d: "e \<noteq> x" "e \<notin> set_tree l" "e \<notin> set_tree r" using 2 s1(4,5) by auto
    have "SPLAY_INSERT cmp nd k e s = (Ret (), s')" if "turns (cmp e) t \<le> k" for k
      using that ne s1(1,2) 2 ab d(1) ordersD [OF o(1), of e x] by (simp add: ev sp_run s'_def splay_at_Node)
    moreover have "splay_at s' (Node (Node l x Leaf) e r)"
      using s1(2) d ab by (auto simp: splay_at_Node s'_def tree_at_iff simp del: tree_at.simps(2))
    moreover have "tree_insert (cmp e) e t = Node (Node l x Leaf) e r"
      using sp 2 ordersD [OF o(1), of e x] by (simp add: tree_insert_def)
    moreover have "add_key key e (inorder t) = (inorder l @ [x]) @ e # inorder r"
      unfolding s1(3) [symmetric] using s1(4,5) 2 add_key_between [of "inorder l @ [x]" key e "inorder r"] by simp
    ultimately show ?thesis using s1(6) by (intro exI [of _ s']) (simp add: s'_def del: domIff)
  next
    case 3
    have "SPLAY_INSERT cmp nd k e s = (Ret (), s1)" if "turns (cmp e) t \<le> k" for k
      using that ne s1(1,2) 3 ordersD [OF o(1), of e x] by (simp add: ev sp_run splay_at_Node)
    moreover have "tree_insert (cmp e) e t = Node l x r"
      using sp 3 ordersD [OF o(1), of e x] by (simp add: tree_insert_def)
    moreover have "add_key key e (inorder t) = inorder t" unfolding s1(3) [symmetric] using 3 by (force simp: add_key_def)
    ultimately show ?thesis using s1(2,3,6) by (intro exI [of _ s1]) (simp del: domIff)
  qed
qed

text \<open>When everything is smaller than the element, the last comes to the root, without a right subtree.\<close>

lemma SPLAY_below:
  assumes "splay_at s t" "t \<noteq> Leaf" "nd \<notin> dom (sp_cells s)" "\<forall>y \<in> set_tree t. cmp e y > 0"
  shows "\<exists>s' l y. (\<forall>k \<ge> turns (cmp e) t. SPLAY cmp nd k e s = (Ret (), s')) \<and> splay_at s' (Node l y Leaf)
    \<and> splay_tree (cmp e) t = Node l y Leaf \<and> inorder l @ [y] = inorder t \<and> touch (set_tree t) s s'"
proof -
  obtain s' where s': "\<forall>k \<ge> turns (cmp e) t. SPLAY cmp nd k e s = (Ret (), s')" "splay_at s' (splay_tree (cmp e) t)"
    "touch (set_tree t) s s'" using SPLAY_turns [OF assms(1-3)] by blast
  have "steady (cmp e) (inorder t)"
    using assms(4) unfolding steady_def by (intro sorted_wrt_mono_rel [OF _ sorted_wrt_true]) force
  from splay_tree_root [OF assms(2) this] obtain l y r where t: "splay_tree (cmp e) t = Node l y r"
    "\<forall>z \<in> set_tree r. cmp e z < 0" by auto
  then have io: "inorder t = inorder l @ y # inorder r" using inorder_splay_tree [of "cmp e" t] by simp
  have "set_tree r \<subseteq> set_tree t" using arg_cong [OF io, of set] by auto
  with t(2) assms(4) have "r = Leaf" by (cases r) force+
  with s' t(1) io show ?thesis by auto
qed

text \<open>Removing: the tree in front of the element is splayed once more, so that its last element comes to
  the root and has no right subtree.\<close>

lemma SPLAY_REMOVE_at:
  assumes o: "orders cmp key" "by_key key (inorder t)" and s: "splay_at s t" "nd \<notin> dom (sp_cells s)"
  shows "\<exists>s'. (\<forall>k \<ge> max (turns (cmp e) t) (turns2 (cmp e) t). SPLAY_REMOVE cmp nd k e s = (Ret (), s')) \<and> splay_at s' (tree_remove (cmp e) t)
    \<and> inorder (tree_remove (cmp e) t) = drop_key key e (inorder t) \<and> dom (sp_cells s') = dom (sp_cells s)"
proof (cases "t = Leaf")
  case True
  with s(1) show ?thesis by (intro exI [of _ s])
    (simp add: SPLAY_REMOVE_def sbind_def prog_eval drop_key_def splay_at_def SPLAY_EMPTY_def tree_remove_def)
next
  case False
  obtain s1 l x r where s1: "\<forall>k \<ge> turns (cmp e) t. SPLAY cmp nd k e s = (Ret (), s1)" "splay_at s1 (Node l x r)"
    "inorder l @ x # inorder r = inorder t" "\<forall>y \<in> set_tree l. key y < key e" "\<forall>z \<in> set_tree r. key e < key z"
    "dom (sp_cells s1) = dom (sp_cells s)" and sp: "splay_tree (cmp e) t = Node l x r"
    using SPLAY_split [OF o s False] by blast
  have ne: "\<not> SPLAY_EMPTY s" using s(1) False by (simp add: splay_at_def SPLAY_EMPTY_def)
  note root = s1(2) [unfolded splay_at_Node]
  note ev = SPLAY_REMOVE_def cmp_root_def sp_run
  show ?thesis
  proof (cases "key x = key e")
    case False
    then have "cmp e x \<noteq> 0" using ordersD(3) [OF o(1), of e x] by simp
    then have "SPLAY_REMOVE cmp nd k e s = (Ret (), s1)" if "max (turns (cmp e) t) (turns2 (cmp e) t) \<le> k" for k
      using that ne s1(1) root by (simp add: ev turns2_def)
    moreover have "drop_key key e (inorder t) = inorder t"
      unfolding s1(3) [symmetric] drop_key_def using s1(4,5) False by (intro filter_True) auto
    moreover have "tree_remove (cmp e) t = Node l x r" using sp \<open>cmp e x \<noteq> 0\<close> by (simp add: tree_remove_def)
    ultimately show ?thesis using s1(2,3,6) by auto
  next
    case True
    then have c: "cmp e x = 0" using ordersD(3) [OF o(1), of e x] by simp
    have dk: "drop_key key e (inorder t) = inorder l @ inorder r"
      unfolding s1(3) [symmetric] by (rule drop_key_between(2)) (use s1(4,5) True in auto)
    show ?thesis
    proof (cases "l = Leaf")
      case l: True
      have "SPLAY_REMOVE cmp nd k e s = (Ret (), sp_put_root (root_ptr r) s1)" if "max (turns (cmp e) t) (turns2 (cmp e) t) \<le> k" for k
        using that ne s1(1) root c l by (simp add: ev turns2_def)
      moreover have "splay_at (sp_put_root (root_ptr r) s1) r" using root by (simp add: splay_at_def)
      moreover have "tree_remove (cmp e) t = r" using sp c l by (simp add: tree_remove_def)
      ultimately show ?thesis using s1(6) dk l by (intro exI [of _ "sp_put_root (root_ptr r) s1"]) simp
    next
      case False
      let ?s2 = "sp_put_root (root_ptr l) s1"
      have s2: "splay_at ?s2 l" "nd \<notin> dom (sp_cells ?s2)" "\<forall>y \<in> set_tree l. cmp e y > 0"
      proof -
        show "splay_at ?s2 l" using root by (simp add: splay_at_def)
        show "nd \<notin> dom (sp_cells ?s2)" using s(2) s1(6) by (simp del: domIff)
        show "\<forall>y \<in> set_tree l. cmp e y > 0" using s1(4) by (simp only: ordersD(2) [OF o(1)])
      qed
      obtain s3 l' y where s3: "\<forall>k \<ge> turns (cmp e) l. SPLAY cmp nd k e ?s2 = (Ret (), s3)" "splay_at s3 (Node l' y Leaf)"
        "inorder l' @ [y] = inorder l" "touch (set_tree l) ?s2 s3" and sl: "splay_tree (cmp e) l = Node l' y Leaf"
        using SPLAY_below [of ?s2 l nd cmp e, OF s2(1) False s2(2,3)] by blast
      note root3 = s3(2) [unfolded splay_at_Node]
      define s4 where "s4 = sp_put_right y (root_ptr r) s3"
      have "SPLAY_REMOVE cmp nd k e s = (Ret (), s4)" if "max (turns (cmp e) t) (turns2 (cmp e) t) \<le> k" for k
        using that ne s1(1) root c sp False s3(1) root3 by (simp add: ev s4_def turns2_def)
      moreover have st: "set_tree l = insert y (set_tree l')" using arg_cong [OF s3(3), of set] by auto
      have y: "y \<notin> set_tree r" "set_tree l' \<inter> set_tree r = {}" "y \<notin> set_tree l'" "set_tree l \<inter> set_tree r = {}"
        using root root3 by (auto simp: st)
      have r3: "tree_at (sp_lf s3) (sp_rg s3) (root_ptr r) r"
        by (rule touch_tree [OF s3(4)]) (use root y(4) in simp_all)
      moreover have "splay_at s4 (Node l' y r)"
        using root3 r3 y(1-3) root by (simp add: splay_at_Node s4_def)
      moreover have "tree_remove (cmp e) t = Node l' y r" using sp c sl by (simp add: tree_remove_def)
      moreover have "inorder (Node l' y r) = drop_key key e (inorder t)" by (simp add: dk flip: s3(3))
      ultimately show ?thesis using s1(6) touch_dom [OF s3(4)] by (intro exI [of _ s4]) (simp add: s4_def del: domIff)
    qed
  qed
qed

text \<open>The operations with as much fuel as there are nodes.\<close>

lemma turns2_le_size: "turns2 c t \<le> size t"
proof (cases "splay_tree c t")
  case (Node l x r)
  then have "size l \<le> size t" using arg_cong [OF inorder_splay_tree [of c t], of length] by simp
  with Node turns_le_size [of c l] show ?thesis by (simp add: turns2_def)
qed (simp add: turns2_def)

lemma splay_listE:
  assumes "splay_list nd s xs" "length xs \<le> k"
  obtains t where "splay_at s t" "inorder t = xs" "nd \<notin> dom (sp_cells s)" "turns c t \<le> k" "turns2 c t \<le> k" "size t \<le> k"
    "t = Leaf \<longleftrightarrow> xs = []"
proof -
  obtain t where t: "splay_at s t" "inorder t = xs" "nd \<notin> dom (sp_cells s)" using assms(1) by (auto simp: splay_list_def)
  then have "size t \<le> k" "t = Leaf \<longleftrightarrow> xs = []" using assms(2) by auto
  then show ?thesis by (intro that [OF t]) (use turns_le_size [of c t] turns2_le_size [of c t] in linarith)+
qed

lemma SPLAY_FIND_ok:
  assumes o: "orders cmp key" "by_key key xs" and s: "splay_list nd s xs" "length xs \<le> k"
  shows "\<exists>s'. SPLAY_FIND cmp nd k e s = (Ret (find (\<lambda>x. key x = key e) xs), s') \<and> splay_list nd s' xs
    \<and> dom (sp_cells s') = dom (sp_cells s)"
proof -
  obtain t where t: "splay_at s t" "inorder t = xs" "nd \<notin> dom (sp_cells s)" "turns (cmp e) t \<le> k"
    using splay_listE [OF s] by metis
  with SPLAY_FIND_at [OF o(1) _ t(1,3), of e] o(2) show ?thesis
    unfolding splay_list_def using inorder_splay_tree by metis
qed

lemma SPLAY_INSERT_ok:
  assumes o: "orders cmp key" "by_key key xs" and s: "splay_list nd s xs" "length xs \<le> k"
    and e: "e \<in> dom (sp_cells s)"
  shows "\<exists>s'. SPLAY_INSERT cmp nd k e s = (Ret (), s') \<and> splay_list nd s' (add_key key e xs)
    \<and> dom (sp_cells s') = dom (sp_cells s)"
proof -
  obtain t where t: "splay_at s t" "inorder t = xs" "nd \<notin> dom (sp_cells s)" "turns (cmp e) t \<le> k"
    using splay_listE [OF s] by metis
  with SPLAY_INSERT_at [OF o(1) _ t(1,3) e] o(2) show ?thesis unfolding splay_list_def by metis
qed

lemma SPLAY_REMOVE_ok:
  assumes o: "orders cmp key" "by_key key xs" and s: "splay_list nd s xs" "length xs \<le> k"
  shows "\<exists>s'. SPLAY_REMOVE cmp nd k e s = (Ret (), s') \<and> splay_list nd s' (drop_key key e xs)
    \<and> dom (sp_cells s') = dom (sp_cells s)"
proof -
  obtain t where t: "splay_at s t" "inorder t = xs" "nd \<notin> dom (sp_cells s)"
    "max (turns (cmp e) t) (turns2 (cmp e) t) \<le> k"
    using splay_listE [OF s] by (metis max.boundedI)
  with SPLAY_REMOVE_at [OF o(1) _ t(1,3), of e] o(2) show ?thesis unfolding splay_list_def by metis
qed

lemma leftmost_ok:
  "tree_at (sp_lf s) (sp_rg s) (root_ptr t) t \<Longrightarrow> t \<noteq> Leaf \<Longrightarrow> size t \<le> k \<Longrightarrow>
   leftmost k (root_ptr t) s = (Ret (Some (hd (inorder t))), s)"
proof (induction k arbitrary: t)
  case (Suc k)
  then obtain l x r where t: "t = Node l x r" by (cases t) auto
  with Suc show ?case by (cases "l = Leaf") (auto simp: tree_at_iff sp_run hd_append simp del: tree_at.simps(2))
qed simp

text \<open>The element behind: \<open>elm\<close> itself comes to the root.\<close>

lemma SPLAY_NEXT_ok:
  assumes o: "orders cmp key" "by_key key (ys @ e # zs)" and s: "splay_list nd s (ys @ e # zs)"
    "length (ys @ e # zs) \<le> k"
  shows "\<exists>s'. SPLAY_NEXT cmp nd k e s = (Ret (if zs = [] then None else Some (hd zs)), s')
    \<and> splay_list nd s' (ys @ e # zs) \<and> dom (sp_cells s') = dom (sp_cells s)"
proof -
  obtain t where t: "splay_at s t" "inorder t = ys @ e # zs" "nd \<notin> dom (sp_cells s)" "turns (cmp e) t \<le> k" "t \<noteq> Leaf"
    using splay_listE [OF s, of "cmp e"] by auto
  obtain s1 l x r where s1: "SPLAY cmp nd k e s = (Ret (), s1)" "splay_at s1 (Node l x r)"
    "inorder l @ x # inorder r = ys @ e # zs" "\<forall>y \<in> set_tree l. key y < key e" "\<forall>z \<in> set_tree r. key e < key z"
    "dom (sp_cells s1) = dom (sp_cells s)"
    using SPLAY_split [OF o(1) _ t(1,3,5), of e] o(2) t(2,4) by metis
  have "e \<in> set (inorder l @ x # inorder r)" unfolding s1(3) by simp
  with s1(4,5) have x: "x = e" by auto
  have "distinct (ys @ e # zs)" using by_key_distinct [OF o(2)] .
  with s1(3) x have lr: "inorder l = ys" "inorder r = zs"
    by (metis append_Cons_eq_iff distinct.simps(2) distinct_append not_distinct_conv_prefix)+
  note root = s1(2) [unfolded splay_at_Node x]
  have "SPLAY_NEXT cmp nd k e s = (Ret (if zs = [] then None else Some (hd zs)), s1)"
  proof (cases "r = Leaf")
    case True
    with root s1(1) lr show ?thesis by (simp add: SPLAY_NEXT_def sp_run)
  next
    case False
    have "size r \<le> k" using s(2) length_inorder [of r] lr(2) by simp
    with leftmost_ok [of s1 r k] False root s1(1) lr show ?thesis by (auto simp: SPLAY_NEXT_def sp_run)
  qed
  moreover have "splay_list nd s1 (ys @ e # zs)"
    using s(1) s1(2,3,6) by (auto simp: splay_list_def simp del: domIff)
  ultimately show ?thesis using s1(6) by blast
qed

lemma SPLAY_MINMAX_root:
  assumes s: "splay_list nd s xs" "xs \<noteq> []" "length xs \<le> k" and cv: "cv \<noteq> 0"
  shows "\<exists>s'. SPLAY_MIN_MAX nd k cv s = (Ret (Some (if cv < 0 then hd xs else last xs)), s') \<and> splay_list nd s' xs
    \<and> dom (sp_cells s') = dom (sp_cells s)"
proof -
  obtain t where t: "splay_at s t" "inorder t = xs" "nd \<notin> dom (sp_cells s)" using s(1) by (auto simp: splay_list_def)
  with s have n: "t \<noteq> Leaf" "size t \<le> k" by auto
  obtain s' where s': "SPLAY_MINMAX nd k cv s = (Ret (), s')" "splay_at s' (splay_tree (\<lambda>_. cv) t)"
    "touch (set_tree t) s s'" using SPLAY_MINMAX_ok [OF t(1) n t(3) cv] by blast
  have "steady (\<lambda>_. cv) (inorder t)" using cv by (simp add: steady_def sorted_wrt_iff_nth_less)
  from splay_tree_root [OF n(1) this] obtain l x r where r: "splay_tree (\<lambda>_. cv) t = Node l x r"
    "\<forall>y \<in> set_tree l. cv > 0" "\<forall>y \<in> set_tree r. cv < 0" by auto
  have io: "xs = inorder l @ x # inorder r" using t(2) r(1) inorder_splay_tree [of "\<lambda>_. cv" t] by simp
  have "x = (if cv < 0 then hd xs else last xs)"
  proof (cases "cv < 0")
    case True
    with r(2) have "l = Leaf" by (cases l) auto
    with True io show ?thesis by simp
  next
    case False
    with r(3) have "r = Leaf" by (cases r) auto
    with False io show ?thesis by simp
  qed
  moreover have "SPLAY_MIN_MAX nd k cv s = (Ret (Some x), s')"
    using s'(1,2) r(1) by (simp add: SPLAY_MIN_MAX_def sbind_def sseq_def prog_eval splay_at_def)
  moreover have "splay_list nd s' xs"
    unfolding splay_list_def touch_dom [OF s'(3)] using s'(2) t(2,3) inorder_splay_tree by blast
  ultimately show ?thesis using touch_dom [OF s'(3)] by auto
qed

lemma foreach_loop_ok:
  assumes o: "orders cmp key"
  shows "by_key key (ys @ zs) \<Longrightarrow> splay_list nd s (ys @ zs) \<Longrightarrow> length (ys @ zs) \<le> k \<Longrightarrow> length zs \<le> n \<Longrightarrow>
    \<exists>s'. foreach_loop cmp nd k n (if zs = [] then None else Some (hd zs)) f v s = (Ret (fold f zs v), s')
      \<and> splay_list nd s' (ys @ zs)"
proof (induction n arbitrary: ys zs s v)
  case (Suc n)
  show ?case
  proof (cases zs)
    case (Cons e us)
    from SPLAY_NEXT_ok [OF o, of ys e us nd s k] Suc.prems Cons obtain s1 where
      s1: "SPLAY_NEXT cmp nd k e s = (Ret (if us = [] then None else Some (hd us)), s1)"
      "splay_list nd s1 ((ys @ [e]) @ us)" by auto
    from Suc.IH [of "ys @ [e]" us s1 "f e v"] Suc.prems Cons s1(2) obtain s' where
      "foreach_loop cmp nd k n (if us = [] then None else Some (hd us)) f (f e v) s1 = (Ret (fold f us (f e v)), s')"
      "splay_list nd s' (ys @ zs)" by auto
    with s1(1) Cons show ?thesis by (auto simp: sbind_def)
  qed (use Suc.prems in \<open>simp add: sret_def\<close>)
qed simp

lemma SPLAY_MIN_ok:
  assumes "splay_list nd s xs" "length xs \<le> k"
  shows "\<exists>s'. SPLAY_MIN nd k s = (Ret (if xs = [] then None else Some (hd xs)), s') \<and> splay_list nd s' xs"
  using SPLAY_MINMAX_root [OF assms(1) _ assms(2), of "- 1"] splay_list_empty [OF assms(1)] assms(1)
  by (cases "xs = []") (auto simp: SPLAY_MIN_def SPLAY_NEGINF_def sbind_def prog_eval)

lemma SPLAY_MAX_ok:
  assumes "splay_list nd s xs" "length xs \<le> k"
  shows "\<exists>s'. SPLAY_MAX nd k s = (Ret (if xs = [] then None else Some (last xs)), s') \<and> splay_list nd s' xs"
  using SPLAY_MINMAX_root [OF assms(1) _ assms(2), of 1] splay_list_empty [OF assms(1)] assms(1)
  by (cases "xs = []") (auto simp: SPLAY_MAX_def SPLAY_INF_def sbind_def prog_eval)

lemma SPLAY_FOREACH_ok:
  assumes "orders cmp key" "by_key key xs" "splay_list nd s xs" "length xs \<le> k"
  shows "\<exists>s'. SPLAY_FOREACH cmp nd k k f v s = (Ret (fold f xs v), s') \<and> splay_list nd s' xs"
proof -
  obtain s1 where "SPLAY_MIN nd k s = (Ret (if xs = [] then None else Some (hd xs)), s1)" "splay_list nd s1 xs"
    using SPLAY_MIN_ok [OF assms(3,4)] by blast
  with foreach_loop_ok [OF assms(1), of "[]" xs nd s1 k k f v] assms(2,4) show ?thesis
    by (simp add: SPLAY_FOREACH_def sbind_def)
qed

section \<open>The interface\<close>

definition splay_set :: "(nat \<Rightarrow> nat \<Rightarrow> int) \<Rightarrow> (nat \<Rightarrow> 'k::linorder) \<Rightarrow> nat \<Rightarrow> splay_head \<Rightarrow> nat list \<Rightarrow> bool" where
  "splay_set cmp key nd s xs \<longleftrightarrow> orders cmp key \<and> by_key key xs \<and> splay_list nd s xs"

interpretation SPLAY: search_tree key "splay_set cmp key nd" "\<lambda>s. dom (sp_cells s)" "SPLAY_FIND cmp nd"
  "SPLAY_INSERT cmp nd" "SPLAY_REMOVE cmp nd" "\<lambda>k. SPLAY_FOREACH cmp nd k k" for key cmp nd
proof unfold_locales
  fix s xs k e
  assume ok: "splay_set cmp key nd s xs"
  note a = this [unfolded splay_set_def]
  then have o: "orders cmp key" "by_key key xs" "splay_list nd s xs" by simp_all
  show "by_key key xs \<and> set xs \<subseteq> dom (sp_cells s)" using splay_list_alloc o by blast
  assume k: "length xs \<le> k"
  show "\<exists>s'. SPLAY_FIND cmp nd k e s = (Ret (find (\<lambda>x. key x = key e) xs), s') \<and> splay_set cmp key nd s' xs
      \<and> dom (sp_cells s') = dom (sp_cells s)"
    using SPLAY_FIND_ok [OF o k] o unfolding splay_set_def by blast
  show "\<exists>s'. SPLAY_REMOVE cmp nd k e s = (Ret (), s') \<and> splay_set cmp key nd s' (drop_key key e xs)
      \<and> dom (sp_cells s') = dom (sp_cells s)" if "e \<in> set xs"
    using SPLAY_REMOVE_ok [OF o k] o by_key_drop_key unfolding splay_set_def by blast
  show "\<exists>s'. SPLAY_INSERT cmp nd k e s = (Ret (), s') \<and> splay_set cmp key nd s' (add_key key e xs)
      \<and> dom (sp_cells s') = dom (sp_cells s)" if "e \<in> dom (sp_cells s)"
    using SPLAY_INSERT_ok [OF o k that] o by_key_add_key unfolding splay_set_def by blast
  show "\<exists>s'. SPLAY_FOREACH cmp nd k k f v s = (Ret (fold f xs v), s') \<and> splay_set cmp key nd s' xs" for f v
    using SPLAY_FOREACH_ok [OF o k, of f v] o by (simp add: splay_set_def)
qed

lemma splay_set_empty: "orders cmp key \<Longrightarrow> nd \<notin> dom (sp_cells s) \<Longrightarrow> SPLAY_ROOT s = None \<Longrightarrow> splay_set cmp key nd s []"
  by (simp add: splay_set_def splay_list_Nil del: domIff)

section \<open>The properties\<close>

text \<open>
  C20: With as much fuel as the tree has nodes SPLAY returns, whatever the comparison answers;
  the heap then holds the tree of the functional top-down splay, and no other element is
  touched.
\<close>

theorem splay_refines_top_down:
  assumes "splay_at s t" "t \<noteq> Leaf" "size t \<le> k" "nd \<notin> dom (sp_cells s)"
  shows "\<exists>s'. SPLAY cmp nd k elm s = (Ret (), s') \<and> splay_at s' (splay_tree (cmp elm) t)
    \<and> (\<forall>x. x \<notin> set_tree t \<longrightarrow> sp_cells s' x = sp_cells s x)"
  using SPLAY_ok [OF assms] unfolding touch_def by blast

definition two_nodes :: splay_head where
  "two_nodes = \<lparr>sph_root = Some 1, sp_cells = [1 \<mapsto> \<lparr>spe_left = None, spe_right = Some 2\<rparr>,
     2 \<mapsto> \<lparr>spe_left = None, spe_right = None\<rparr>]\<rparr>"

lemma two_nodes_at: "splay_at two_nodes (Node Leaf 1 (Node Leaf 2 Leaf))"
  by (simp add: splay_at_def two_nodes_def sp_lf_def sp_rg_def SPLAY_ROOT_def)

lemma two_nodes_free: "9 \<notin> dom (sp_cells two_nodes)"
  by (simp add: two_nodes_def)

lemma orders_diff: "orders (\<lambda>a b. int a - int b) (\<lambda>x. x)"
  by (simp add: orders_def)

theorem splay_refines_top_down_witness:
  "\<exists>s'. SPLAY (\<lambda>a b. int a - int b) 9 2 2 two_nodes = (Ret (), s')
    \<and> splay_at s' (splay_tree (\<lambda>b. int 2 - int b) (Node Leaf 1 (Node Leaf 2 Leaf)))
    \<and> (\<forall>x. x \<notin> set_tree (Node Leaf 1 (Node Leaf (2::nat) Leaf)) \<longrightarrow> sp_cells s' x = sp_cells two_nodes x)"
  by (rule splay_refines_top_down [OF two_nodes_at _ _ two_nodes_free]) simp_all

text \<open>
  C22: On a non-empty tree SPLAY_MINMAX returns exactly when its argument is not 0: with 0 its
  loop has no exit.
\<close>

theorem splay_minmax_terminates:
  assumes "splay_at s t" "t \<noteq> Leaf" "nd \<notin> dom (sp_cells s)"
  shows "(\<exists>k. returned (fst (SPLAY_MINMAX nd k cv s))) \<longleftrightarrow> cv \<noteq> 0"
proof (cases "cv = 0")
  case True
  then show ?thesis by (simp add: SPLAY_MINMAX_def sseq_def sbind_def node_enter_def prog_eval minmax_loop_zero)
next
  case False
  from SPLAY_MINMAX_ok [OF assms(1,2) order_refl assms(3) False] False show ?thesis by (metis fst_conv returned.simps(1))
qed

theorem splay_minmax_terminates_witness:
  "(\<exists>k. returned (fst (SPLAY_MINMAX 9 k 1 two_nodes))) \<and> \<not> (\<exists>k. returned (fst (SPLAY_MINMAX 9 k 0 two_nodes)))"
  using splay_minmax_terminates [OF two_nodes_at _ two_nodes_free] by simp

text \<open>
  C19: Inserting elements with different keys into an empty splay tree and visiting them with
  SPLAY_FOREACH gives them in the order of their keys, although every step of the visit splays
  the tree again.
\<close>

theorem splay_insert_all_sorts:
  assumes "orders cmp key" "nd \<notin> dom (sp_cells s)" "set es \<subseteq> dom (sp_cells s)" "distinct (map key es)"
    "length es \<le> k"
  shows "\<exists>s'. sseq SPLAY_INIT (sseq (do_all (SPLAY_INSERT cmp nd k) es)
    (SPLAY_FOREACH cmp nd k k (\<lambda>x v. v @ [x]) [])) s = (Ret (sort_key key es), s')"
proof -
  have "splay_set cmp key nd (sp_put_root None s) []" using assms(1,2) by (simp add: splay_set_empty del: domIff)
  then show ?thesis
    using SPLAY.insert_all_visit [of cmp key nd "sp_put_root None s" es k "\<lambda>x v. v @ [x]" "[]"] assms(3-5)
    by (auto simp: SPLAY_INIT_def fold_snoc sseq_def [of "smod _"] sbind_def [of "smod _"] prog_eval simp del: domIff)
qed

theorem splay_insert_all_sorts_witness:
  "\<exists>s'. sseq SPLAY_INIT (sseq (do_all (SPLAY_INSERT (\<lambda>a b. int a - int b) 9 2) [2, 1])
    (SPLAY_FOREACH (\<lambda>a b. int a - int b) 9 2 2 (\<lambda>x v. v @ [x]) [])) two_nodes = (Ret (sort_key (\<lambda>x. x) [2, 1]), s')"
  by (rule splay_insert_all_sorts [OF orders_diff two_nodes_free]) (simp_all add: two_nodes_def)

theorem splay_find_after_inserts:
  assumes "orders cmp key" "nd \<notin> dom (sp_cells s)" "SPLAY_ROOT s = None" "set es \<subseteq> dom (sp_cells s)" "length es \<le> k"
  shows "\<exists>s' p. sseq (do_all (SPLAY_INSERT cmp nd k) es) (SPLAY_FIND cmp nd k e) s = (Ret p, s')
    \<and> (case p of None \<Rightarrow> key e \<notin> key ` set es | Some x \<Rightarrow> x \<in> set es \<and> key x = key e)"
  using SPLAY.insert_all_find [OF splay_set_empty [OF assms(1-3)] assms(4,5)] .

theorem splay_find_after_inserts_witness:
  "\<exists>s' p. sseq (do_all (SPLAY_INSERT (\<lambda>a b. int a - int b) 9 2) [2, 1]) (SPLAY_FIND (\<lambda>a b. int a - int b) 9 2 1)
      (sp_put_root None two_nodes) = (Ret p, s')
    \<and> (case p of None \<Rightarrow> (1::nat) \<notin> (\<lambda>x. x) ` set [2, 1] | Some x \<Rightarrow> x \<in> set [2, 1] \<and> x = 1)"
  by (rule splay_find_after_inserts [OF orders_diff])
    (simp_all add: sp_put_root_def two_nodes_def SPLAY_ROOT_def)

theorem splay_remove_then_find:
  assumes "orders cmp key" "by_key key xs" "splay_list nd s xs" "length xs \<le> k" "e \<in> set xs"
  shows "\<exists>s'. sseq (SPLAY_REMOVE cmp nd k e) (SPLAY_FIND cmp nd k e) s = (Ret None, s')
    \<and> splay_list nd s' (filter (\<lambda>x. key x \<noteq> key e) xs)"
  using SPLAY.remove_find [of cmp key nd s xs k e] assms unfolding splay_set_def drop_key_def by blast

theorem splay_remove_then_find_witness:
  "\<exists>s'. sseq (SPLAY_REMOVE (\<lambda>a b. int a - int b) 9 2 1) (SPLAY_FIND (\<lambda>a b. int a - int b) 9 2 1) two_nodes
      = (Ret None, s') \<and> splay_list 9 s' (filter (\<lambda>x. x \<noteq> 1) [1, 2])"
proof -
  have "splay_list 9 two_nodes [1, 2]" using two_nodes_at two_nodes_free by (force simp: splay_list_def simp del: domIff)
  then show ?thesis by (rule splay_remove_then_find [OF orders_diff, rotated]) simp_all
qed

end
