(* ===== verification/SplayCost.thy ===== *)
theory SplayCost
  imports SplaySet Complex_Main
begin

text \<open>
  What the splay trees of utils/tree.h cost. The head of the file promises O(lg n) amortised: the turns of
  the loop of \<open>SPLAY\<close> are paid from a potential, the sum of the ranks of all subtrees.
\<close>

section \<open>Top-down splaying as one recursion\<close>

definition with_spines :: "spine \<Rightarrow> spine \<Rightarrow> spine \<times> nat tree \<times> spine \<Rightarrow> spine \<times> nat tree \<times> spine" where
  "with_spines L0 R0 = (\<lambda>(L, t, R). (L @ L0, t, R @ R0))"

lemma psplay_spines: "psplay c (L @ L0) t (R @ R0) = with_spines L0 R0 (psplay c L t R)"
proof (induction t arbitrary: L R rule: measure_induct_rule [of size])
  case (less t)
  show ?case
  proof (cases t)
    case (Node l x r)
    have IH: "psplay c (L @ L0) u (e # R @ R0) = with_spines L0 R0 (psplay c L u (e # R))"
      "psplay c (e # L @ L0) u (R @ R0) = with_spines L0 R0 (psplay c (e # L) u R)" if "size u < size t" for u e
      using less.IH [OF that, of L "e # R"] less.IH [OF that, of "e # L" R] by simp_all
    show ?thesis
      unfolding Node psplay.simps(2) [of c _ l x r]
      by (simp add: Node IH with_spines_def del: psplay.simps split: tree.split)
  qed (simp add: with_spines_def)
qed

lemma glue_append [simp]:
  "glue_left (L @ L0) t = glue_left L0 (glue_left L t)"
  "glue_right (R @ R0) t = glue_right R0 (glue_right R t)"
proof -
  show "glue_left (L @ L0) t = glue_left L0 (glue_left L t)" by (induction L arbitrary: t) simp_all
  show "glue_right (R @ R0) t = glue_right R0 (glue_right R t)" by (induction R arbitrary: t) simp_all
qed

lemma assemble_spines:
  assumes "splay_tree c t = Node l x r"
  shows "assemble (psplay c L t R) = Node (glue_left L l) x (glue_right R r)"
proof -
  obtain L' t' R' where p: "psplay c [] t [] = (L', t', R')" using prod_cases3 by blast
  with assms obtain u v where "t' = Node u x v" "l = glue_left L' u" "r = glue_right R' v"
    by (cases t') (auto simp: splay_tree_def)
  with p psplay_spines [of c "[]" L t "[]" R] show ?thesis by (simp add: with_spines_def)
qed

lemma splay_tree_stop: "c x = 0 \<or> c x < 0 \<and> l = Leaf \<Longrightarrow> splay_tree c (Node l x r) = Node l x r"
  by (auto simp: splay_tree_def)

lemma splay_tree_zig:
  assumes "c x < 0" "l = Node ll y lr" "\<not> c y < 0" "splay_tree c l = Node l' z r'"
  shows "splay_tree c (Node l x r) = Node l' z (Node r' x r)"
  using assms(1-3) assemble_spines [OF assms(4), of "[]" "[(r, x)]"] by (simp add: splay_tree_def)

lemma splay_tree_zigzig:
  assumes "c x < 0" "l = Node ll y lr" "c y < 0" "splay_tree c ll = Node l' z r'"
  shows "splay_tree c (Node l x r) = Node l' z (Node r' y (Node lr x r))"
proof -
  have "ll \<noteq> Leaf" using assms(4) by auto
  with assms(1-3) assemble_spines [OF assms(4), of "[]" "[(Node lr x r, y)]"] show ?thesis by (simp add: splay_tree_def)
qed

lemma splay_tree_zigzig_stop:
  "c x < 0 \<Longrightarrow> c y < 0 \<Longrightarrow> splay_tree c (Node (Node Leaf y lr) x r) = Node Leaf y (Node lr x r)"
  by (simp add: splay_tree_def)

text \<open>The other side is the mirror image.\<close>

definition mspine :: "spine \<Rightarrow> spine" where
  "mspine L = map (\<lambda>(t, x). (mirror t, x)) L"

lemma mspine_simps [simp]: "mspine [] = []" "mspine ((t, x) # L) = (mirror t, x) # mspine L"
  by (simp_all add: mspine_def)

lemma case_mirror:
  "(case mirror t of Leaf \<Rightarrow> a | Node l x r \<Rightarrow> f l x r) = (case t of Leaf \<Rightarrow> a | Node l x r \<Rightarrow> f (mirror r) x (mirror l))"
  by (cases t) simp_all

lemma psplay_mirror:
  "psplay (\<lambda>x. - c x) (mspine R) (mirror t) (mspine L)
    = (case psplay c L t R of (L', t', R') \<Rightarrow> (mspine R', mirror t', mspine L'))"
proof (induction t arbitrary: L R rule: measure_induct_rule [of size])
  case (less t)
  show ?case
  proof (cases t)
    case (Node l x r)
    have IH: "psplay (\<lambda>x. - c x) ((mirror v, e) # mspine R) (mirror u) (mspine L)
        = (case psplay c L u ((v, e) # R) of (L', t', R') \<Rightarrow> (mspine R', mirror t', mspine L'))"
      "psplay (\<lambda>x. - c x) (mspine R) (mirror u) ((mirror v, e) # mspine L)
        = (case psplay c ((v, e) # L) u R of (L', t', R') \<Rightarrow> (mspine R', mirror t', mspine L'))"
      if "size u < size t" for u v e
      using less.IH [OF that, of "(v, e) # R" L] less.IH [OF that, of R "(v, e) # L"] by simp_all
    show ?thesis
      unfolding Node psplay.simps(2) [of c L l x r R] mirror.simps(2) psplay.simps(2) [of _ _ "mirror r" x "mirror l"]
      by (auto simp: Node case_mirror IH simp del: psplay.simps mirror.simps simp flip: mirror.simps(2) split: tree.split)
  qed simp
qed

lemma mirror_glue:
  "mirror (glue_left L t) = glue_right (mspine L) (mirror t)"
  "mirror (glue_right L t) = glue_left (mspine L) (mirror t)"
proof -
  show "mirror (glue_left L t) = glue_right (mspine L) (mirror t)" by (induction L arbitrary: t) (auto simp: mspine_def)
  show "mirror (glue_right L t) = glue_left (mspine L) (mirror t)" by (induction L arbitrary: t) (auto simp: mspine_def)
qed

lemma splay_tree_mirror: "splay_tree (\<lambda>x. - c x) (mirror t) = mirror (splay_tree c t)"
proof -
  obtain L t' R where "psplay c [] t [] = (L, t', R)" using prod_cases3 by blast
  with psplay_mirror [of c "[]" t "[]"] show ?thesis by (cases t') (simp_all add: splay_tree_def mirror_glue)
qed

lemma turns_mirror: "turns (\<lambda>x. - c x) (mirror t) = turns c t"
proof (induction t rule: measure_induct_rule [of size])
  case (less t)
  show ?case
  proof (cases t)
    case (Node l x r)
    have IH: "turns (\<lambda>x. - c x) (mirror u) = turns c u" if "size u < size t" for u
      using less.IH [OF that] .
    show ?thesis
      unfolding Node turns.simps(2) [of c l x r] mirror.simps(2) turns.simps(2) [of _ "mirror r" x "mirror l"]
      by (auto simp: Node case_mirror IH simp del: turns.simps mirror.simps(2) simp flip: mirror.simps(2) split: tree.split)
  qed simp
qed

section \<open>The potential\<close>

definition rank :: "nat tree \<Rightarrow> real" where
  "rank t = log 2 (real (size t + 1))"

primrec pot :: "nat tree \<Rightarrow> real" where
  "pot Leaf = 0"
| "pot (Node l x r) = rank (Node l x r) + pot l + pot r"

lemma rank_mono: "size s \<le> size t \<Longrightarrow> rank s \<le> rank t"
  by (simp add: rank_def)

lemma rank_nonneg [simp]: "0 \<le> rank t"
  by (simp add: rank_def)

lemma rank_Node: "1 \<le> rank (Node l x r)"
proof -
  have "log 2 2 \<le> rank (Node l x r)" unfolding rank_def by (subst log_le_cancel_iff) simp_all
  then show ?thesis by simp
qed

lemma pot_nonneg: "0 \<le> pot t"
  by (induction t) (simp_all add: add_nonneg_nonneg)

lemma pot_mirror [simp]: "pot (mirror t) = pot t" "rank (mirror t) = rank t"
proof -
  show r: "rank (mirror t) = rank t" for t by (simp add: rank_def)
  show "pot (mirror t) = pot t" by (induction t) (simp_all add: rank_def add_ac)
qed

text \<open>Two trees side by side: the reason why a double turn is paid for.\<close>

lemma rank_pair:
  assumes "size a + size b + 2 \<le> size t + 1"
  shows "rank a + rank b + 2 \<le> 2 * rank t"
proof -
  define x y where "x = real (size a + 1)" and "y = real (size b + 1)"
  have xy: "0 < x" "0 < y" "x + y \<le> real (size t + 1)" using assms by (simp_all add: x_def y_def)
  have "(x + y)\<^sup>2 - 4 * (x * y) = (x - y)\<^sup>2" by (simp add: power2_eq_square algebra_simps)
  then have "4 * (x * y) \<le> (x + y)\<^sup>2" using zero_le_power2 [of "x - y"] by linarith
  also have "\<dots> \<le> (real (size t + 1))\<^sup>2" using xy by (intro power_mono) simp_all
  finally have "log 2 (4 * (x * y)) \<le> log 2 ((real (size t + 1))\<^sup>2)" using xy by (subst log_le_cancel_iff) simp_all
  moreover have "log 2 (4 * (x * y)) = 2 + log 2 x + log 2 y" using xy log_pow_cancel [of "2::real" 2] by (simp add: log_mult)
  moreover have "log 2 ((real (size t + 1))\<^sup>2) = 2 * rank t" by (simp add: rank_def log_nat_power)
  ultimately have "2 + log 2 x + log 2 y \<le> 2 * rank t" by linarith
  then show ?thesis unfolding rank_def x_def y_def by linarith
qed

text \<open>The turns of a loop, and what they change of the potential.\<close>

definition gain :: "(nat \<Rightarrow> int) \<Rightarrow> nat tree \<Rightarrow> real" where
  "gain c t = real (turns c t) + pot (splay_tree c t) - rank t - pot t"

lemma size_splay_tree [simp]: "size (splay_tree c t) = size t"
  using arg_cong [OF inorder_splay_tree [of c t], of length] by simp

lemma rank_splay_tree [simp]: "rank (splay_tree c t) = rank t"
  by (simp add: rank_def)

lemma gain_mirror: "gain (\<lambda>x. - c x) (mirror t) = gain c t"
  by (simp add: gain_def turns_mirror splay_tree_mirror)

lemma gain_stop: "c x = 0 \<or> c x < 0 \<and> l = Leaf \<Longrightarrow> gain c (Node l x r) = 1 - rank (Node l x r)"
  by (auto simp: gain_def splay_tree_stop)

lemma gain_zig:
  assumes "c x < 0" "l = Node ll y lr" "\<not> c y < 0" "splay_tree c l = Node l' z r'"
  shows "gain c (Node l x r) = gain c l + 1 + rank (Node r' x r) - rank (Node l x r)"
proof -
  have "rank l = rank (Node l' z r')" using rank_splay_tree [of c l] by (simp only: assms(4))
  moreover have "rank (Node l' z (Node r' x r)) = rank (Node l x r)"
    using arg_cong [OF assms(4), of size] by (simp add: rank_def)
  moreover have "turns c (Node l x r) = Suc (turns c l)" using assms(1-3) by simp
  ultimately show ?thesis by (simp add: gain_def assms(4) splay_tree_zig [OF assms] del: turns.simps)
qed

lemma gain_zigzig:
  assumes "c x < 0" "l = Node ll y lr" "c y < 0" "splay_tree c ll = Node l' z r'"
  shows "gain c (Node l x r) = gain c ll + 1 + rank (Node lr x r) + rank (Node r' y (Node lr x r))
    - rank l - rank (Node l x r)"
proof -
  have "rank ll = rank (Node l' z r')" using rank_splay_tree [of c ll] by (simp only: assms(4))
  moreover have "rank (Node l' z (Node r' y (Node lr x r))) = rank (Node l x r)"
    using arg_cong [OF assms(4), of size] by (simp add: rank_def assms(2))
  moreover have "turns c (Node l x r) = Suc (turns c ll)" using assms(1-3) by simp
  ultimately show ?thesis
    by (simp add: gain_def assms(4) splay_tree_zigzig [OF assms] del: turns.simps) (simp add: assms(2))
qed

text \<open>A turn that only links is paid for together with the next one.\<close>

definition single :: "(nat \<Rightarrow> int) \<Rightarrow> nat tree \<Rightarrow> bool" where
  "single c t \<longleftrightarrow> (\<exists>ll y lr x r. t = Node (Node ll y lr) x r \<and> c x < 0 \<and> \<not> c y < 0)
    \<or> (\<exists>l x rl y rr. t = Node l x (Node rl y rr) \<and> c x > 0 \<and> \<not> c y > 0)"

definition paid :: "(nat \<Rightarrow> int) \<Rightarrow> nat tree \<Rightarrow> bool" where
  "paid c t \<longleftrightarrow> gain c t \<le> 2 * rank t \<and> (\<not> single c t \<longrightarrow> gain c t + 1 \<le> 2 * rank t)"

lemma single_mirror: "single (\<lambda>x. - c x) (mirror t) \<longleftrightarrow> single c t"
proof (cases t)
  case (Node l x r)
  then show ?thesis by (cases l; cases r) (auto simp: single_def)
qed (simp add: single_def)

lemma paid_mirror: "paid (\<lambda>x. - c x) (mirror t) \<longleftrightarrow> paid c t"
  by (simp add: paid_def gain_mirror single_mirror)

lemma splay_tree_NodeE:
  assumes "t \<noteq> Leaf" obtains l x r where "splay_tree c t = Node l x r" "size l + size r + 1 = size t"
proof -
  obtain l x r where n: "splay_tree c t = Node l x r" using assms by (cases "splay_tree c t") simp_all
  with size_splay_tree [of c t] show ?thesis by (intro that [OF n]) simp
qed

lemma paid_zigzag:
  assumes "c x < 0" "c y > 0" "\<not> c w > 0" and lr: "lr = Node p w q" "paid c lr"
  shows "gain c (Node (Node ll y lr) x r) \<le> 2 * rank (Node (Node ll y lr) x r)"
proof -
  let ?l = "Node ll y lr"
  obtain l' z r' where sp: "splay_tree c lr = Node l' z r'" "size l' + size r' + 1 = size lr"
    using splay_tree_NodeE [of lr c] lr(1) by auto
  have m: "splay_tree (\<lambda>x. - c x) (mirror lr) = Node (mirror r') z (mirror l')"
    by (simp add: splay_tree_mirror sp(1))
  have "gain (\<lambda>x. - c x) (mirror ?l) = gain (\<lambda>x. - c x) (mirror lr) + 1 + rank (Node (mirror l') y (mirror ll))
      - rank (mirror ?l)"
    unfolding mirror.simps(2) [of ll]
    by (rule gain_zig [OF _ _ _ m]) (use assms lr(1) in simp_all)
  then have l: "gain c ?l = gain c lr + 1 + rank (Node ll y l') - rank ?l"
    unfolding gain_mirror pot_mirror(2) by (simp add: rank_def add_ac)
  have "splay_tree c ?l = mirror (splay_tree (\<lambda>x. - c x) (mirror ?l))"
    by (simp only: splay_tree_mirror mirror_mirror)
  also have "splay_tree (\<lambda>x. - c x) (mirror ?l) = Node (mirror r') z (Node (mirror l') y (mirror ll))"
    unfolding mirror.simps(2) [of ll] by (rule splay_tree_zig [OF _ _ _ m]) (use assms lr(1) in simp_all)
  finally have "splay_tree c ?l = Node (Node ll y l') z r'" by simp
  from gain_zig [OF assms(1) refl _ this] assms(2)
  have "gain c (Node ?l x r) = gain c lr + 2 + rank (Node ll y l') + rank (Node r' x r) - rank ?l - rank (Node ?l x r)"
    by (simp add: l)
  moreover have "gain c lr \<le> 2 * rank lr" using lr(2) by (simp add: paid_def)
  moreover have "rank lr \<le> rank ?l" "rank lr \<le> rank (Node ?l x r)" by (auto intro: rank_mono)
  moreover have "rank (Node ll y l') + rank (Node r' x r) + 2 \<le> 2 * rank (Node ?l x r)"
    by (rule rank_pair) (use sp(2) in simp)
  ultimately show ?thesis by linarith
qed

lemma paid_left:
  assumes IH: "\<And>s. size s < size (Node l x r) \<Longrightarrow> s \<noteq> Leaf \<Longrightarrow> paid c s" and c: "c x < 0 \<or> c x = 0"
  shows "paid c (Node l x r)"
proof (cases "c x = 0 \<or> l = Leaf")
  case True
  with c gain_stop [of c x l r] rank_Node [of l x r] show ?thesis by (auto simp: paid_def)
next
  case False
  then obtain ll y lr where l: "l = Node ll y lr" by (cases l) auto
  have x: "c x < 0" using c False by simp
  note r1 = rank_Node [of l x r]
  have rl: "rank l \<le> rank (Node l x r)" by (auto intro: rank_mono)
  show ?thesis
  proof (cases "c y < 0")
    case y: True
    show ?thesis
    proof (cases "ll = Leaf")
      case True
      have "rank (Node l x r) = rank (Node ll y (Node lr x r))" by (simp add: rank_def l)
      then have "gain c (Node l x r) = 1 + rank (Node lr x r) - rank l - rank (Node l x r)"
        using x y True splay_tree_zigzig_stop [of c x y lr r] by (simp add: gain_def l)
      moreover have "rank (Node lr x r) \<le> rank (Node l x r)" by (rule rank_mono) (simp add: l)
      moreover have "1 \<le> rank l" by (simp add: l rank_Node)
      ultimately show ?thesis using r1 by (simp add: paid_def)
    next
      case False
      obtain l' z r' where sp: "splay_tree c ll = Node l' z r'" "size l' + size r' + 1 = size ll"
        using splay_tree_NodeE [OF False] by metis
      note gain_zigzig [OF x l y sp(1), of r]
      moreover have "gain c ll \<le> 2 * rank ll" using IH [of ll] False by (simp add: l paid_def)
      moreover have "rank ll \<le> rank l" "rank (Node r' y (Node lr x r)) \<le> rank (Node l x r)"
        using sp(2) by (auto intro!: rank_mono simp: l)
      moreover have "rank ll + rank (Node lr x r) + 2 \<le> 2 * rank (Node l x r)" by (rule rank_pair) (simp add: l)
      ultimately show ?thesis by (simp add: paid_def)
    qed
  next
    case y: False
    have "gain c (Node l x r) \<le> 2 * rank (Node l x r)"
    proof (cases "single c l")
      case True
      with y l obtain p w q where lr: "c y > 0" "lr = Node p w q" "\<not> c w > 0" by (auto simp: single_def)
      show ?thesis unfolding l by (rule paid_zigzag [OF x lr(1,3,2)]) (use IH in \<open>simp add: l lr(2)\<close>)
    next
      case False
      obtain l' z r' where sp: "splay_tree c l = Node l' z r'" "size l' + size r' + 1 = size l"
        using splay_tree_NodeE [of l c] l by auto
      have "gain c l + 1 \<le> 2 * rank l" using IH [of l] False by (simp add: l paid_def)
      moreover have "rank (Node r' x r) \<le> rank (Node l x r)" using sp(2) by (auto intro: rank_mono)
      ultimately show ?thesis using gain_zig [OF x l y sp(1), of r] rl by linarith
    qed
    moreover have "single c (Node l x r)" using x y l by (auto simp: single_def)
    ultimately show ?thesis by (simp add: paid_def)
  qed
qed

lemma all_paid: "t \<noteq> Leaf \<Longrightarrow> paid c t"
proof (induction t arbitrary: c rule: measure_induct_rule [of size])
  case (less t)
  then obtain l x r where t: "t = Node l x r" by (cases t) auto
  show ?case
  proof (cases "c x > 0")
    case True
    have "paid (\<lambda>x. - c x) (Node (mirror r) x (mirror l))"
      by (rule paid_left) (use less.IH True in \<open>auto simp: t\<close>)
    then show ?thesis using paid_mirror [of c t] by (simp add: t)
  next
    case False
    show ?thesis unfolding t by (rule paid_left) (use less.IH False in \<open>auto simp: t\<close>)
  qed
qed

text \<open>The cost of \<open>SPLAY\<close>: its turns are three ranks at most, up to the change of the potential.\<close>

lemma splay_cost: "real (turns c t) + pot (splay_tree c t) \<le> pot t + 3 * rank t"
proof (cases "t = Leaf")
  case False
  with all_paid [of t c] show ?thesis by (simp add: paid_def gain_def)
qed (simp add: rank_def)

text \<open>The new root of an insertion adds one rank; a removal splays two trees and joins them.\<close>

lemma tree_insert_cost:
  assumes "size t \<le> n" "size (tree_insert c e t) \<le> n"
  shows "real (turns c t) + pot (tree_insert c e t) \<le> pot t + 4 * log 2 (real (n + 1))"
proof -
  have n: "rank u \<le> log 2 (real (n + 1))" if "size u \<le> n" for u using that by (simp add: rank_def)
  have "pot (tree_insert c e t) \<le> pot (splay_tree c t) + log 2 (real (n + 1))"
  proof (cases "splay_tree c t")
    case Leaf
    then show ?thesis using n [OF assms(2)] by (simp add: tree_insert_def)
  next
    case (Node l x r)
    have "rank (Node Leaf x r) \<le> rank (Node l x r)" "rank (Node l x Leaf) \<le> rank (Node l x r)"
      by (auto intro: rank_mono)
    with n [OF assms(2)] Node rank_nonneg [of "tree_insert c e t"] show ?thesis
      by (auto simp: tree_insert_def)
  qed
  with splay_cost [of c t] n [OF assms(1)] show ?thesis by simp
qed

lemma tree_remove_cost: "real (turns c t + turns2 c t) + pot (tree_remove c t) \<le> pot t + 5 * rank t"
proof (cases "splay_tree c t")
  case Leaf
  then show ?thesis by (simp add: turns2_def tree_remove_def rank_def)
next
  case (Node l x r)
  have sz: "size l + size r + 1 = size t" using size_splay_tree [of c t] by (simp add: Node)
  have rt: "rank (Node l x r) = rank t" using rank_splay_tree [of c t] by (simp only: Node)
  note one = splay_cost [of c t, unfolded Node pot.simps rt]
  show ?thesis
  proof (cases "c x = 0")
    case False
    with one rank_nonneg [of t] show ?thesis by (simp add: Node turns2_def tree_remove_def rt del: rank_nonneg)
  next
    case True
    show ?thesis
    proof (cases "splay_tree c l")
      case Leaf
      with one True rank_nonneg [of t] show ?thesis by (simp add: Node turns2_def tree_remove_def del: rank_nonneg)
    next
      case l: (Node l' y z)
      have rl: "rank (Node l' y z) = rank l" using rank_splay_tree [of c l] by (simp only: l)
      have "rank l \<le> rank t" "rank (Node l' y r) \<le> rank t"
        using sz size_splay_tree [of c l] by (auto intro!: rank_mono simp: l)
      with one splay_cost [of c l, unfolded l pot.simps rl] pot_nonneg [of z] True
      show ?thesis by (simp add: Node l turns2_def tree_remove_def)
    qed
  qed
qed

section \<open>Requests and their fuel\<close>

text \<open>A client as in \<open>serve\<close>, but every request has fuel of its own: the loop of each \<open>SPLAY\<close> of the request
  takes at most so many turns.\<close>

primrec serve_each :: "(nat \<Rightarrow> nat \<Rightarrow> ('s, nat option) prog) \<Rightarrow> (nat \<Rightarrow> nat \<Rightarrow> ('s, unit) prog) \<Rightarrow>
    (nat \<Rightarrow> nat \<Rightarrow> ('s, unit) prog) \<Rightarrow> (nat \<times> request) list \<Rightarrow> ('s, nat option list) prog" where
  "serve_each look_up put take_out [] = sret []"
| "serve_each look_up put take_out (kq # kqs) =
     sbind (serve_one (look_up (fst kq)) (put (fst kq)) (take_out (fst kq)) (snd kq)) (\<lambda>p.
     sbind (serve_each look_up put take_out kqs) (\<lambda>ps. sret (p # ps)))"

primrec puts :: "request list \<Rightarrow> nat" where
  "puts [] = 0"
| "puts (q # qs) = (case q of Put e \<Rightarrow> Suc (puts qs) | _ \<Rightarrow> puts qs)"

lemma puts_after: "length (list_after key q xs) + puts qs \<le> length xs + puts (q # qs)"
proof (cases q)
  case (Put e)
  then show ?thesis using length_add_key [of key e xs] by simp
next
  case (Take e)
  have "length (drop_key key e xs) \<le> length xs" unfolding drop_key_def by (rule length_filter_le)
  with Take show ?thesis by simp
qed simp

text \<open>The interface: \<open>ok s xs p\<close> says that the potential is \<open>p\<close>; what an operation takes more than its fee on
  a tree of at most \<open>n\<close> elements is paid from the potential.\<close>

locale amortised_tree =
  fixes key :: "nat \<Rightarrow> 'k::linorder"
    and ok :: "'s \<Rightarrow> nat list \<Rightarrow> real \<Rightarrow> bool"
    and has :: "'s \<Rightarrow> nat set"
    and find_elem :: "nat \<Rightarrow> nat \<Rightarrow> ('s, nat option) prog"
    and insert_elem :: "nat \<Rightarrow> nat \<Rightarrow> ('s, unit) prog"
    and remove_elem :: "nat \<Rightarrow> nat \<Rightarrow> ('s, unit) prog"
    and find_fee :: "nat \<Rightarrow> real" and insert_fee :: "nat \<Rightarrow> real" and remove_fee :: "nat \<Rightarrow> real"
  assumes ok_pot: "ok s xs p \<Longrightarrow> 0 \<le> p \<and> by_key key xs"
    and remove_fee: "0 \<le> remove_fee n"
    and find_paid: "ok s xs p \<Longrightarrow> length xs \<le> n \<Longrightarrow>
      \<exists>c s' p'. (\<forall>k \<ge> c. find_elem k e s = (Ret (find (\<lambda>x. key x = key e) xs), s')) \<and> ok s' xs p' \<and> has s' = has s
        \<and> real c + p' \<le> p + find_fee n"
    and insert_paid: "ok s xs p \<Longrightarrow> length (add_key key e xs) \<le> n \<Longrightarrow> e \<in> has s \<Longrightarrow>
      \<exists>c s' p'. (\<forall>k \<ge> c. insert_elem k e s = (Ret (), s')) \<and> ok s' (add_key key e xs) p' \<and> has s' = has s
        \<and> real c + p' \<le> p + insert_fee n"
    and remove_paid: "ok s xs p \<Longrightarrow> length xs \<le> n \<Longrightarrow> e \<in> set xs \<Longrightarrow>
      \<exists>c s' p'. (\<forall>k \<ge> c. remove_elem k e s = (Ret (), s')) \<and> ok s' (drop_key key e xs) p' \<and> has s' = has s
        \<and> real c + p' \<le> p + remove_fee n"
begin

primrec fee :: "nat \<Rightarrow> request \<Rightarrow> real" where
  "fee n (Put e) = insert_fee n"
| "fee n (Get e) = find_fee n"
| "fee n (Take e) = find_fee n + remove_fee n"

lemma serve_one_paid:
  assumes ok: "ok s xs p" and n: "length xs \<le> n" "length (list_after key q xs) \<le> n" and e: "\<And>e. q = Put e \<Longrightarrow> e \<in> has s"
  shows "\<exists>c s' p'. serve_one (find_elem c) (insert_elem c) (remove_elem c) q s = (Ret (list_answer key q xs), s')
    \<and> ok s' (list_after key q xs) p' \<and> has s' = has s \<and> real c + p' \<le> p + fee n q"
proof (cases q)
  case (Put e)
  with n(2) have "length (add_key key e xs) \<le> n" by simp
  from insert_paid [OF ok this] e Put obtain c s' p' where "\<forall>k \<ge> c. insert_elem k e s = (Ret (), s')"
    "ok s' (add_key key e xs) p'" "has s' = has s" "real c + p' \<le> p + insert_fee n" by blast
  then show ?thesis unfolding Put
    by (intro exI [of _ c] exI [of _ s'] exI [of _ p']) (simp add: sseq_Ret sret_def)
next
  case (Get e)
  from find_paid [OF ok n(1), of e] obtain c s' p' where "\<forall>k \<ge> c. find_elem k e s = (Ret (find (\<lambda>x. key x = key e) xs), s')"
    "ok s' xs p'" "has s' = has s" "real c + p' \<le> p + find_fee n" by blast
  then show ?thesis unfolding Get by (intro exI [of _ c] exI [of _ s'] exI [of _ p']) simp
next
  case (Take e)
  let ?p = "find (\<lambda>x. key x = key e) xs"
  obtain c s1 p1 where s1: "\<forall>k \<ge> c. find_elem k e s = (Ret ?p, s1)" "ok s1 xs p1" "has s1 = has s"
    "real c + p1 \<le> p + find_fee n" using find_paid [OF ok n(1)] by blast
  show ?thesis
  proof (cases ?p)
    case None
    with s1 remove_fee [of n] show ?thesis unfolding Take
      by (intro exI [of _ c] exI [of _ s1] exI [of _ p1]) (simp add: sbind_Ret sret_def drop_key_absent)
  next
    case (Some x)
    then have x: "x \<in> set xs" "key x = key e" using find_key(1) ok_pot [OF ok] by blast+
    obtain c2 s2 p2 where s2: "\<forall>k \<ge> c2. remove_elem k x s1 = (Ret (), s2)" "ok s2 (drop_key key x xs) p2" "has s2 = has s1"
      "real c2 + p2 \<le> p1 + remove_fee n" using remove_paid [OF s1(2) n(1) x(1)] by blast
    with s1 Some drop_key_cong [OF x(2), of xs] show ?thesis unfolding Take
      by (intro exI [of _ "c + c2"] exI [of _ s2] exI [of _ p2]) (simp add: sbind_Ret sseq_Ret sret_def)
  qed
qed

lemma serve_each_paid:
  "ok s xs p \<Longrightarrow> length xs + puts qs \<le> n \<Longrightarrow> {e. Put e \<in> set qs} \<subseteq> has s \<Longrightarrow>
   \<exists>ks s'. length ks = length qs \<and> real (sum_list ks) \<le> p + sum_list (map (fee n) qs)
     \<and> serve_each find_elem insert_elem remove_elem (zip ks qs) s = (Ret (list_answers key qs xs), s')"
proof (induction qs arbitrary: s xs p)
  case Nil
  then show ?case using ok_pot [of s xs p] by (simp add: sret_def)
next
  case (Cons q qs)
  have len: "length (list_after key q xs) + puts qs \<le> n" "length xs \<le> n"
    using Cons.prems(2) puts_after [of key q xs qs] by (auto split: request.splits)
  have "\<exists>c s1 p1. serve_one (find_elem c) (insert_elem c) (remove_elem c) q s = (Ret (list_answer key q xs), s1)
    \<and> ok s1 (list_after key q xs) p1 \<and> has s1 = has s \<and> real c + p1 \<le> p + fee n q"
    by (rule serve_one_paid [OF Cons.prems(1) len(2)]) (use Cons.prems(3) len(1) in auto)
  then obtain c s1 p1 where
    s1: "serve_one (find_elem c) (insert_elem c) (remove_elem c) q s = (Ret (list_answer key q xs), s1)"
      "ok s1 (list_after key q xs) p1" "has s1 = has s" "real c + p1 \<le> p + fee n q" by blast
  have "{e. Put e \<in> set qs} \<subseteq> has s1" using Cons.prems(3) s1(3) by auto
  from Cons.IH [OF s1(2) len(1) this] obtain ks s' where ks: "length ks = length qs"
    "real (sum_list ks) \<le> p1 + sum_list (map (fee n) qs)"
    "serve_each find_elem insert_elem remove_elem (zip ks qs) s1 = (Ret (list_answers key qs (list_after key q xs)), s')"
    by blast
  with s1(1,4) show ?case by (intro exI [of _ "c # ks"] exI [of _ s']) (simp add: sbind_Ret sret_def)
qed

end

definition splay_paid :: "(nat \<Rightarrow> nat \<Rightarrow> int) \<Rightarrow> (nat \<Rightarrow> 'k::linorder) \<Rightarrow> nat \<Rightarrow> splay_head \<Rightarrow> nat list \<Rightarrow> real \<Rightarrow> bool" where
  "splay_paid cmp key nd s xs p \<longleftrightarrow> orders cmp key \<and> by_key key xs \<and> nd \<notin> dom (sp_cells s)
     \<and> (\<exists>t. splay_at s t \<and> inorder t = xs \<and> pot t = p)"

definition lg :: "nat \<Rightarrow> real" where
  "lg n = log 2 (real (n + 1))"

lemma lg_nonneg [simp]: "0 \<le> lg n"
  by (simp add: lg_def)

lemma rank_lg: "size t \<le> n \<Longrightarrow> rank t \<le> lg n"
  by (simp add: rank_def lg_def)

interpretation SPLAY_paid: amortised_tree key "splay_paid cmp key nd" "\<lambda>s. dom (sp_cells s)" "SPLAY_FIND cmp nd"
  "SPLAY_INSERT cmp nd" "SPLAY_REMOVE cmp nd" "\<lambda>n. 3 * lg n" "\<lambda>n. 4 * lg n" "\<lambda>n. 5 * lg n" for key cmp nd
proof unfold_locales
  fix s xs p n e
  show "0 \<le> 5 * lg n" by (simp add: lg_def)
  assume ok: "splay_paid cmp key nd s xs p"
  then obtain t where o: "orders cmp key" "by_key key (inorder t)" and nd: "nd \<notin> dom (sp_cells s)"
    and t: "splay_at s t" and xs: "inorder t = xs" and p: "pot t = p"
    unfolding splay_paid_def by auto
  show "0 \<le> p \<and> by_key key xs" using pot_nonneg [of t] o(2) by (simp add: xs p)
  {
    assume "length xs \<le> n"
    then have sz: "size t \<le> n" by (simp flip: xs)
    show "\<exists>c s' p'. (\<forall>k \<ge> c. SPLAY_FIND cmp nd k e s = (Ret (find (\<lambda>x. key x = key e) xs), s'))
        \<and> splay_paid cmp key nd s' xs p' \<and> dom (sp_cells s') = dom (sp_cells s) \<and> real c + p' \<le> p + 3 * lg n"
    proof -
      from SPLAY_FIND_at [OF o t nd, of e] obtain s' where s':
        "\<forall>k \<ge> turns (cmp e) t. SPLAY_FIND cmp nd k e s = (Ret (find (\<lambda>x. key x = key e) xs), s')"
        "splay_at s' (splay_tree (cmp e) t)" "dom (sp_cells s') = dom (sp_cells s)" unfolding xs by blast
      then have "splay_paid cmp key nd s' xs (pot (splay_tree (cmp e) t))"
        using o nd unfolding splay_paid_def xs by (auto simp: inorder_splay_tree xs simp del: domIff)
      with s'(1,3) splay_cost [of "cmp e" t] rank_lg [OF sz] p show ?thesis
        by (intro exI [of _ "turns (cmp e) t"] exI [of _ s'] exI conjI) (assumption | linarith)+
    qed
    show "\<exists>c s' p'. (\<forall>k \<ge> c. SPLAY_REMOVE cmp nd k e s = (Ret (), s'))
        \<and> splay_paid cmp key nd s' (drop_key key e xs) p' \<and> dom (sp_cells s') = dom (sp_cells s) \<and> real c + p' \<le> p + 5 * lg n"
    proof -
      let ?c = "turns (cmp e) t + turns2 (cmp e) t"
      from SPLAY_REMOVE_at [OF o t nd, of e] obtain s' where s': "\<forall>k \<ge> ?c. SPLAY_REMOVE cmp nd k e s = (Ret (), s')"
        "splay_at s' (tree_remove (cmp e) t)" "inorder (tree_remove (cmp e) t) = drop_key key e xs"
        "dom (sp_cells s') = dom (sp_cells s)" unfolding xs by (metis add_leE max.bounded_iff)
      then have "splay_paid cmp key nd s' (drop_key key e xs) (pot (tree_remove (cmp e) t))"
        using o nd by_key_drop_key unfolding splay_paid_def xs by (auto simp del: domIff)
      with s'(1,4) tree_remove_cost [of "cmp e" t] rank_lg [OF sz] p show ?thesis
        by (intro exI [of _ ?c] exI [of _ s'] exI conjI) (assumption | linarith)+
    qed
  }
  assume n: "length (add_key key e xs) \<le> n" and e: "e \<in> dom (sp_cells s)"
  show "\<exists>c s' p'. (\<forall>k \<ge> c. SPLAY_INSERT cmp nd k e s = (Ret (), s'))
      \<and> splay_paid cmp key nd s' (add_key key e xs) p' \<and> dom (sp_cells s') = dom (sp_cells s) \<and> real c + p' \<le> p + 4 * lg n"
  proof -
    from SPLAY_INSERT_at [OF o t nd e] obtain s' where s': "\<forall>k \<ge> turns (cmp e) t. SPLAY_INSERT cmp nd k e s = (Ret (), s')"
      "splay_at s' (tree_insert (cmp e) e t)" "inorder (tree_insert (cmp e) e t) = add_key key e xs"
      "dom (sp_cells s') = dom (sp_cells s)" unfolding xs by blast
    then have "splay_paid cmp key nd s' (add_key key e xs) (pot (tree_insert (cmp e) e t))"
      using o nd by_key_add_key unfolding splay_paid_def xs by (auto simp del: domIff)
    moreover have "length xs \<le> length (add_key key e xs)" by (simp add: add_key_def)
    then have "size t \<le> n" "size (tree_insert (cmp e) e t) \<le> n"
      using n arg_cong [OF s'(3), of length] by (simp_all flip: xs)
    then have "real (turns (cmp e) t) + pot (tree_insert (cmp e) e t) \<le> p + 4 * lg n"
      using tree_insert_cost [of t n "cmp e" e] p by (simp add: lg_def)
    ultimately show ?thesis using s'(1,4)
      by (intro exI [of _ "turns (cmp e) t"] exI [of _ s'] exI conjI) assumption+
  qed
qed

section \<open>The property\<close>

text \<open>
  C21: The bound the head of the file promises: on an initially empty splay tree m requests
  (puts, look-ups, removals), n of them puts, take O(m lg n) turns of the loop of SPLAY. There
  is fuel for each request, 8 m lg(n+1) in all, with which every operation returns, and the
  answers are those of a list in the order of the keys.
\<close>

theorem splay_requests_amortised:
  assumes "orders cmp key" "SPLAY_ROOT s = None" "nd \<notin> dom (sp_cells s)" "{e. Put e \<in> set qs} \<subseteq> dom (sp_cells s)"
  shows "\<exists>ks. length ks = length qs
    \<and> real (sum_list ks) \<le> 8 * real (length qs) * log 2 (real (puts qs + 1))
    \<and> fst (serve_each (SPLAY_FIND cmp nd) (SPLAY_INSERT cmp nd) (SPLAY_REMOVE cmp nd) (zip ks qs) s)
      = Ret (list_answers key qs [])"
proof -
  have "splay_at s Leaf" using assms(2) by (simp add: splay_at_def)
  then have "splay_paid cmp key nd s [] 0" using assms(1,3) unfolding splay_paid_def
    by (intro conjI exI [of _ Leaf]) simp_all
  from SPLAY_paid.serve_each_paid [OF this _ assms(4), of "puts qs"] obtain ks s' where ks: "length ks = length qs"
    "real (sum_list ks) \<le> sum_list (map (SPLAY_paid.fee (puts qs)) qs)"
    "serve_each (SPLAY_FIND cmp nd) (SPLAY_INSERT cmp nd) (SPLAY_REMOVE cmp nd) (zip ks qs) s = (Ret (list_answers key qs []), s')"
    by auto
  have "SPLAY_paid.fee n q \<le> 8 * lg n" for n q by (cases q) simp_all
  then have "sum_list (map (SPLAY_paid.fee (puts qs)) qs) \<le> sum_list (map (\<lambda>_. 8 * lg (puts qs)) qs)"
    by (intro sum_list_mono)
  with ks show ?thesis by (intro exI [of _ ks]) (simp add: sum_list_triv lg_def algebra_simps)
qed

theorem splay_requests_amortised_witness:
  "\<exists>ks. length ks = 5 \<and> real (sum_list ks) \<le> 8 * 5 * log 2 3
    \<and> fst (serve_each (SPLAY_FIND (\<lambda>a b. int a - int b) 9) (SPLAY_INSERT (\<lambda>a b. int a - int b) 9)
        (SPLAY_REMOVE (\<lambda>a b. int a - int b) 9) (zip ks [Put 2, Put 1, Take 2, Get 2, Get 1]) (sp_put_root None two_nodes))
      = Ret [None, None, Some 2, None, Some 1]"
proof -
  have e: "SPLAY_ROOT (sp_put_root None two_nodes) = None" "9 \<notin> dom (sp_cells (sp_put_root None two_nodes))"
    using two_nodes_free by simp_all
  have p: "{e. Put e \<in> set [Put 2, Put 1, Take 2, Get 2, Get 1]} \<subseteq> dom (sp_cells (sp_put_root None two_nodes))"
    by (auto simp: two_nodes_def)
  have a: "[None, None, Some 2, None, Some 1] = list_answers (\<lambda>x. x) [Put 2, Put 1, Take 2, Get 2, Get 1] []"
    by (simp add: add_key_def drop_key_def)
  from splay_requests_amortised [OF orders_diff e p] obtain ks where
    ks: "length ks = length [Put 2, Put 1, Take 2, Get 2, Get 1]"
      "real (sum_list ks) \<le> 8 * real (length [Put 2, Put 1, Take 2, Get 2, Get 1])
        * log 2 (real (puts [Put 2, Put 1, Take 2, Get 2, Get 1] + 1))"
      "fst (serve_each (SPLAY_FIND (\<lambda>a b. int a - int b) 9) (SPLAY_INSERT (\<lambda>a b. int a - int b) 9)
        (SPLAY_REMOVE (\<lambda>a b. int a - int b) 9) (zip ks [Put 2, Put 1, Take 2, Get 2, Get 1]) (sp_put_root None two_nodes))
      = Ret (list_answers (\<lambda>x. x) [Put 2, Put 1, Take 2, Get 2, Get 1] [])" by blast
  from ks(1,2) have "length ks = 5" "real (sum_list ks) \<le> 8 * 5 * log 2 3" by simp_all
  with ks(3) show ?thesis unfolding a by blast
qed

end
