(* ===== verification/RedBlack.thy ===== *)
theory RedBlack
  imports TreeHeap
begin

text \<open>
  The red-black trees of utils/tree.h: the macros and the functions they generate, on a heap of nodes with
  left, right and parent pointers and a colour. \<open>RB_AUGMENT\<close> is empty unless the user of the header
  defines it, so it does nothing here; the walk to the root that calls it is kept. The comparison of two
  elements is an argument \<open>cmp\<close>, and the loops carry fuel.
\<close>

record rb_entry =
  rbe_left :: ptr
  rbe_right :: ptr
  rbe_parent :: ptr
  rbe_color :: int

record rb_head =
  rbh_root :: ptr
  rb_cells :: "nat \<Rightarrow> rb_entry option"

definition RB_BLACK :: int where "RB_BLACK = 0"

definition RB_RED :: int where "RB_RED = 1"

section \<open>Access through pointers\<close>

definition rb_load :: "(rb_entry \<Rightarrow> 'a) \<Rightarrow> ptr \<Rightarrow> (rb_head, 'a) prog" where
  "rb_load f p s = (case Option.bind p (rb_cells s) of None \<Rightarrow> (Fault, s) | Some n \<Rightarrow> (Ret (f n), s))"

definition rb_put :: "nat \<Rightarrow> (rb_entry \<Rightarrow> rb_entry) \<Rightarrow> rb_head \<Rightarrow> rb_head" where
  "rb_put x g s = s\<lparr>rb_cells := (rb_cells s)(x := map_option g (rb_cells s x))\<rparr>"

definition rb_store :: "ptr \<Rightarrow> (rb_entry \<Rightarrow> rb_entry) \<Rightarrow> (rb_head, unit) prog" where
  "rb_store p g s = (case p of None \<Rightarrow> (Fault, s)
     | Some x \<Rightarrow> if rb_cells s x = None then (Fault, s) else (Ret (), rb_put x g s))"

definition rb_put_root :: "ptr \<Rightarrow> rb_head \<Rightarrow> rb_head" where
  "rb_put_root p s = s\<lparr>rbh_root := p\<rparr>"

section \<open>The macros\<close>

definition RB_LEFT :: "ptr \<Rightarrow> (rb_head, ptr) prog" where
  "RB_LEFT = rb_load rbe_left"

definition RB_RIGHT :: "ptr \<Rightarrow> (rb_head, ptr) prog" where
  "RB_RIGHT = rb_load rbe_right"

definition RB_PARENT :: "ptr \<Rightarrow> (rb_head, ptr) prog" where
  "RB_PARENT = rb_load rbe_parent"

definition RB_COLOR :: "ptr \<Rightarrow> (rb_head, int) prog" where
  "RB_COLOR = rb_load rbe_color"

definition RB_LEFT_set :: "ptr \<Rightarrow> ptr \<Rightarrow> (rb_head, unit) prog" where
  "RB_LEFT_set p q = rb_store p (\<lambda>n. n\<lparr>rbe_left := q\<rparr>)"

definition RB_RIGHT_set :: "ptr \<Rightarrow> ptr \<Rightarrow> (rb_head, unit) prog" where
  "RB_RIGHT_set p q = rb_store p (\<lambda>n. n\<lparr>rbe_right := q\<rparr>)"

definition RB_PARENT_set :: "ptr \<Rightarrow> ptr \<Rightarrow> (rb_head, unit) prog" where
  "RB_PARENT_set p q = rb_store p (\<lambda>n. n\<lparr>rbe_parent := q\<rparr>)"

definition RB_COLOR_set :: "ptr \<Rightarrow> int \<Rightarrow> (rb_head, unit) prog" where
  "RB_COLOR_set p c = rb_store p (\<lambda>n. n\<lparr>rbe_color := c\<rparr>)"

definition RB_INIT :: "(rb_head, unit) prog" where
  "RB_INIT = smod (rb_put_root None)"

definition RB_INITIALIZER :: "(nat \<Rightarrow> rb_entry option) \<Rightarrow> rb_head" where
  "RB_INITIALIZER cs = \<lparr>rbh_root = None, rb_cells = cs\<rparr>"

lemma RB_is_initializer: "RB_INIT s = (Ret (), RB_INITIALIZER (rb_cells s))"
  by (simp add: RB_INIT_def RB_INITIALIZER_def rb_put_root_def smod_def)

definition RB_ROOT :: "rb_head \<Rightarrow> ptr" where
  "RB_ROOT s = rbh_root s"

definition RB_EMPTY :: "rb_head \<Rightarrow> bool" where
  "RB_EMPTY s \<longleftrightarrow> RB_ROOT s = None"

definition RB_SET :: "ptr \<Rightarrow> ptr \<Rightarrow> (rb_head, unit) prog" where
  "RB_SET elm parent =
     sseq (RB_PARENT_set elm parent)
     (sseq (RB_RIGHT_set elm None)
     (sseq (RB_LEFT_set elm None)
        (RB_COLOR_set elm RB_RED)))"

definition RB_SET_BLACKRED :: "ptr \<Rightarrow> ptr \<Rightarrow> (rb_head, unit) prog" where
  "RB_SET_BLACKRED black red = sseq (RB_COLOR_set black RB_BLACK) (RB_COLOR_set red RB_RED)"

text \<open>The rotations: the result is what they assign to their argument \<open>tmp\<close>. They share the part that
  puts \<open>tmp\<close> in the place of \<open>elm\<close> below its parent.\<close>

definition rotate_up :: "ptr \<Rightarrow> ptr \<Rightarrow> (rb_head, unit) prog" where
  "rotate_up elm tmp =
     sbind (RB_PARENT elm) (\<lambda>p.
     sseq (RB_PARENT_set tmp p)
       (if p \<noteq> None then
          sbind (sbind (RB_PARENT elm) RB_LEFT) (\<lambda>l.
          if elm = l then sbind (RB_PARENT elm) (\<lambda>q. RB_LEFT_set q tmp)
          else sbind (RB_PARENT elm) (\<lambda>q. RB_RIGHT_set q tmp))
        else smod (rb_put_root tmp)))"

definition RB_ROTATE_LEFT :: "ptr \<Rightarrow> (rb_head, ptr) prog" where
  "RB_ROTATE_LEFT elm =
     sbind (RB_RIGHT elm) (\<lambda>tmp.
     sbind (RB_LEFT tmp) (\<lambda>b.
     sseq (RB_RIGHT_set elm b)
     (sseq (if b \<noteq> None then sbind (RB_LEFT tmp) (\<lambda>q. RB_PARENT_set q elm) else sret ())
     (sseq (rotate_up elm tmp)
     (sseq (RB_LEFT_set tmp elm)
     (sseq (RB_PARENT_set elm tmp)
        (sret tmp)))))))"

definition RB_ROTATE_RIGHT :: "ptr \<Rightarrow> (rb_head, ptr) prog" where
  "RB_ROTATE_RIGHT elm =
     sbind (RB_LEFT elm) (\<lambda>tmp.
     sbind (RB_RIGHT tmp) (\<lambda>b.
     sseq (RB_LEFT_set elm b)
     (sseq (if b \<noteq> None then sbind (RB_RIGHT tmp) (\<lambda>q. RB_PARENT_set q elm) else sret ())
     (sseq (rotate_up elm tmp)
     (sseq (RB_RIGHT_set tmp elm)
     (sseq (RB_PARENT_set elm tmp)
        (sret tmp)))))))"

section \<open>Insertion\<close>

text \<open>\<open>p && RB_COLOR(p) == RB_RED\<close> and \<open>p == NULL || RB_COLOR(p) == RB_BLACK\<close>.\<close>

definition is_red :: "ptr \<Rightarrow> (rb_head, bool) prog" where
  "is_red p = (if p = None then sret False else sbind (RB_COLOR p) (\<lambda>c. sret (c = RB_RED)))"

definition is_black :: "ptr \<Rightarrow> (rb_head, bool) prog" where
  "is_black p = (if p = None then sret True else sbind (RB_COLOR p) (\<lambda>c. sret (c = RB_BLACK)))"

text \<open>The two halves of the body of the loop; the result is the next \<open>elm\<close>.\<close>

definition insert_fix_left :: "ptr \<Rightarrow> ptr \<Rightarrow> ptr \<Rightarrow> (rb_head, ptr) prog" where
  "insert_fix_left elm parent gparent =
     sbind (RB_RIGHT gparent) (\<lambda>tmp.
     sbind (is_red tmp) (\<lambda>red.
     if red then
       sseq (RB_COLOR_set tmp RB_BLACK)
       (sseq (RB_SET_BLACKRED parent gparent) (sret gparent))
     else
       sbind (RB_RIGHT parent) (\<lambda>r.
       sbind (if r = elm then sseq (RB_ROTATE_LEFT parent) (sret (elm, parent)) else sret (parent, elm))
         (\<lambda>(parent', elm').
       sseq (RB_SET_BLACKRED parent' gparent)
       (sseq (RB_ROTATE_RIGHT gparent) (sret elm'))))))"

definition insert_fix_right :: "ptr \<Rightarrow> ptr \<Rightarrow> ptr \<Rightarrow> (rb_head, ptr) prog" where
  "insert_fix_right elm parent gparent =
     sbind (RB_LEFT gparent) (\<lambda>tmp.
     sbind (is_red tmp) (\<lambda>red.
     if red then
       sseq (RB_COLOR_set tmp RB_BLACK)
       (sseq (RB_SET_BLACKRED parent gparent) (sret gparent))
     else
       sbind (RB_LEFT parent) (\<lambda>l.
       sbind (if l = elm then sseq (RB_ROTATE_RIGHT parent) (sret (elm, parent)) else sret (parent, elm))
         (\<lambda>(parent', elm').
       sseq (RB_SET_BLACKRED parent' gparent)
       (sseq (RB_ROTATE_LEFT gparent) (sret elm'))))))"

primrec insert_color_loop :: "nat \<Rightarrow> ptr \<Rightarrow> (rb_head, unit) prog" where
  "insert_color_loop 0 elm = (\<lambda>s. (Wait, s))"
| "insert_color_loop (Suc k) elm =
     sbind (RB_PARENT elm) (\<lambda>parent.
     sbind (is_red parent) (\<lambda>red.
     if \<not> red then sret ()
     else
       sbind (RB_PARENT parent) (\<lambda>gparent.
       sbind (RB_LEFT gparent) (\<lambda>l.
       sbind (if parent = l then insert_fix_left elm parent gparent else insert_fix_right elm parent gparent)
         (insert_color_loop k)))))"

definition RB_INSERT_COLOR :: "nat \<Rightarrow> ptr \<Rightarrow> (rb_head, unit) prog" where
  "RB_INSERT_COLOR k elm =
     sseq (insert_color_loop k elm) (sbind (sget RB_ROOT) (\<lambda>r. RB_COLOR_set r RB_BLACK))"

text \<open>The search for the place: \<open>Inl\<close> is the element with the same key, \<open>Inr\<close> the last parent and the
  last comparison.\<close>

primrec insert_search :: "(nat \<Rightarrow> int) \<Rightarrow> nat \<Rightarrow> ptr \<Rightarrow> ptr \<Rightarrow> int \<Rightarrow> (rb_head, ptr + ptr \<times> int) prog" where
  "insert_search c 0 tmp parent cv = (\<lambda>s. (Wait, s))"
| "insert_search c (Suc k) tmp parent cv = (case tmp of
      None \<Rightarrow> sret (Inr (parent, cv))
    | Some x \<Rightarrow>
        if c x < 0 then sbind (RB_LEFT tmp) (\<lambda>l. insert_search c k l tmp (c x))
        else if c x > 0 then sbind (RB_RIGHT tmp) (\<lambda>r. insert_search c k r tmp (c x))
        else sret (Inl tmp))"

definition RB_INSERT :: "(nat \<Rightarrow> nat \<Rightarrow> int) \<Rightarrow> nat \<Rightarrow> nat \<Rightarrow> (rb_head, ptr) prog" where
  "RB_INSERT cmp k elm =
     sbind (sget RB_ROOT) (\<lambda>root.
     sbind (insert_search (cmp elm) k root None 0) (\<lambda>res. case res of
        Inl tmp \<Rightarrow> sret tmp
      | Inr (parent, cv) \<Rightarrow>
          sseq (RB_SET (Some elm) parent)
          (sseq (if parent \<noteq> None then
                   if cv < 0 then RB_LEFT_set parent (Some elm) else RB_RIGHT_set parent (Some elm)
                 else smod (rb_put_root (Some elm)))
          (sseq (RB_INSERT_COLOR k (Some elm)) (sret None)))))"

section \<open>Removal\<close>

text \<open>The body of the loop of \<open>RB_REMOVE_COLOR\<close>: \<open>Inl\<close> is a \<open>break\<close> with the new \<open>elm\<close>, \<open>Inr\<close> the next
  \<open>parent\<close> and \<open>elm\<close>. What follows once the sibling \<open>tmp\<close> is black is
  \<open>remove_black_left\<close>; \<open>remove_last_left\<close> is its end, with the outer nephew red.\<close>

definition remove_last_left :: "ptr \<Rightarrow> ptr \<Rightarrow> (rb_head, ptr + ptr \<times> ptr) prog" where
  "remove_last_left parent tmp =
       sseq (sbind (RB_COLOR parent) (RB_COLOR_set tmp))
       (sseq (RB_COLOR_set parent RB_BLACK)
       (sseq (sbind (RB_RIGHT tmp) (\<lambda>r. if r \<noteq> None then RB_COLOR_set r RB_BLACK else sret ()))
       (sseq (RB_ROTATE_LEFT parent)
          (sbind (sget RB_ROOT) (\<lambda>root. sret (Inl root))))))"

definition remove_black_left :: "ptr \<Rightarrow> ptr \<Rightarrow> (rb_head, ptr + ptr \<times> ptr) prog" where
  "remove_black_left parent tmp =
     sbind (sbind (sbind (RB_LEFT tmp) is_black) (\<lambda>b. if b then sbind (RB_RIGHT tmp) is_black else sret False)) (\<lambda>both.
     if both then
       sseq (RB_COLOR_set tmp RB_RED)
       (sbind (RB_PARENT parent) (\<lambda>p. sret (Inr (p, parent))))
     else
       sbind (sbind (sbind (RB_RIGHT tmp) is_black) (\<lambda>b. if b
           then sbind (RB_LEFT tmp) (\<lambda>oleft.
                sseq (if oleft \<noteq> None then RB_COLOR_set oleft RB_BLACK else sret ())
                (sseq (RB_COLOR_set tmp RB_RED)
                (sseq (RB_ROTATE_RIGHT tmp) (RB_RIGHT parent))))
           else sret tmp))
       (remove_last_left parent))"

definition remove_fix_left :: "ptr \<Rightarrow> (rb_head, ptr + ptr \<times> ptr) prog" where
  "remove_fix_left parent =
     sbind (RB_RIGHT parent) (\<lambda>tmp0.
     sbind (sbind (RB_COLOR tmp0) (\<lambda>c. if c = RB_RED
         then sseq (RB_SET_BLACKRED tmp0 parent) (sseq (RB_ROTATE_LEFT parent) (RB_RIGHT parent))
         else sret tmp0)) 
     (remove_black_left parent))"

definition remove_last_right :: "ptr \<Rightarrow> ptr \<Rightarrow> (rb_head, ptr + ptr \<times> ptr) prog" where
  "remove_last_right parent tmp =
       sseq (sbind (RB_COLOR parent) (RB_COLOR_set tmp))
       (sseq (RB_COLOR_set parent RB_BLACK)
       (sseq (sbind (RB_LEFT tmp) (\<lambda>l. if l \<noteq> None then RB_COLOR_set l RB_BLACK else sret ()))
       (sseq (RB_ROTATE_RIGHT parent)
          (sbind (sget RB_ROOT) (\<lambda>root. sret (Inl root))))))"

definition remove_black_right :: "ptr \<Rightarrow> ptr \<Rightarrow> (rb_head, ptr + ptr \<times> ptr) prog" where
  "remove_black_right parent tmp =
     sbind (sbind (sbind (RB_LEFT tmp) is_black) (\<lambda>b. if b then sbind (RB_RIGHT tmp) is_black else sret False)) (\<lambda>both.
     if both then
       sseq (RB_COLOR_set tmp RB_RED)
       (sbind (RB_PARENT parent) (\<lambda>p. sret (Inr (p, parent))))
     else
       sbind (sbind (sbind (RB_LEFT tmp) is_black) (\<lambda>b. if b
           then sbind (RB_RIGHT tmp) (\<lambda>oright.
                sseq (if oright \<noteq> None then RB_COLOR_set oright RB_BLACK else sret ())
                (sseq (RB_COLOR_set tmp RB_RED)
                (sseq (RB_ROTATE_LEFT tmp) (RB_LEFT parent))))
           else sret tmp))
       (remove_last_right parent))"

definition remove_fix_right :: "ptr \<Rightarrow> (rb_head, ptr + ptr \<times> ptr) prog" where
  "remove_fix_right parent =
     sbind (RB_LEFT parent) (\<lambda>tmp0.
     sbind (sbind (RB_COLOR tmp0) (\<lambda>c. if c = RB_RED
         then sseq (RB_SET_BLACKRED tmp0 parent) (sseq (RB_ROTATE_RIGHT parent) (RB_LEFT parent))
         else sret tmp0)) 
     (remove_black_right parent))"

primrec remove_color_loop :: "nat \<Rightarrow> ptr \<Rightarrow> ptr \<Rightarrow> (rb_head, ptr) prog" where
  "remove_color_loop 0 parent elm = (\<lambda>s. (Wait, s))"
| "remove_color_loop (Suc k) parent elm =
     sbind (is_black elm) (\<lambda>black.
     sbind (sget RB_ROOT) (\<lambda>root.
     if black \<and> elm \<noteq> root then
       sbind (sbind (RB_LEFT parent) (\<lambda>l. if l = elm then remove_fix_left parent else remove_fix_right parent))
         (\<lambda>res. case res of Inl elm' \<Rightarrow> sret elm' | Inr (parent', elm') \<Rightarrow> remove_color_loop k parent' elm')
     else sret elm))"

definition RB_REMOVE_COLOR :: "nat \<Rightarrow> ptr \<Rightarrow> ptr \<Rightarrow> (rb_head, unit) prog" where
  "RB_REMOVE_COLOR k parent elm =
     sbind (remove_color_loop k parent elm) (\<lambda>e. if e \<noteq> None then RB_COLOR_set e RB_BLACK else sret ())"

text \<open>\<open>while ((left = RB_LEFT(elm))) elm = left;\<close>\<close>

primrec rb_leftmost :: "nat \<Rightarrow> ptr \<Rightarrow> (rb_head, ptr) prog" where
  "rb_leftmost 0 elm = (\<lambda>s. (Wait, s))"
| "rb_leftmost (Suc k) elm = sbind (RB_LEFT elm) (\<lambda>l. if l \<noteq> None then rb_leftmost k l else sret elm)"

text \<open>The walk that would call \<open>RB_AUGMENT\<close>.\<close>

primrec augment_walk :: "nat \<Rightarrow> ptr \<Rightarrow> (rb_head, unit) prog" where
  "augment_walk 0 p = (\<lambda>s. (Wait, s))"
| "augment_walk (Suc k) p = sbind (RB_PARENT p) (\<lambda>q. if q \<noteq> None then augment_walk k q else sret ())"

text \<open>\<open>child\<close> takes the place of \<open>elm\<close> below \<open>parent\<close>.\<close>

definition unhook :: "ptr \<Rightarrow> ptr \<Rightarrow> ptr \<Rightarrow> (rb_head, unit) prog" where
  "unhook parent elm child =
     sseq (if child \<noteq> None then RB_PARENT_set child parent else sret ())
       (if parent \<noteq> None then
          sbind (RB_LEFT parent) (\<lambda>l. if l = elm then RB_LEFT_set parent child else RB_RIGHT_set parent child)
        else smod (rb_put_root child))"

text \<open>\<open>elm\<close> takes the fields of \<open>old\<close>, and with them its place.\<close>

definition swap_in :: "ptr \<Rightarrow> ptr \<Rightarrow> (rb_head, unit) prog" where
  "swap_in old elm =
     sseq (sbind (rb_load (\<lambda>n. n) old) (\<lambda>n. rb_store elm (\<lambda>_. n)))
     (sseq (sbind (RB_PARENT old) (\<lambda>p. if p \<noteq> None then
              sbind (sbind (RB_PARENT old) RB_LEFT) (\<lambda>l.
              if l = old then sbind (RB_PARENT old) (\<lambda>q. RB_LEFT_set q elm)
              else sbind (RB_PARENT old) (\<lambda>q. RB_RIGHT_set q elm))
            else smod (rb_put_root elm)))
     (sseq (sbind (RB_LEFT old) (\<lambda>l. RB_PARENT_set l elm))
        (sbind (RB_RIGHT old) (\<lambda>r. if r \<noteq> None then sbind (RB_RIGHT old) (\<lambda>r. RB_PARENT_set r elm) else sret ()))))"

text \<open>The branch for an element with two children: the next element takes its place and its colour. The
  result is what the code has in \<open>color\<close>, \<open>parent\<close> and \<open>child\<close> at the label.\<close>

definition remove_inner :: "nat \<Rightarrow> ptr \<Rightarrow> (rb_head, int \<times> ptr \<times> ptr) prog" where
  "remove_inner k old =
     sbind (sbind (RB_RIGHT old) (rb_leftmost k)) (\<lambda>elm.
     sbind (RB_RIGHT elm) (\<lambda>child.
     sbind (RB_PARENT elm) (\<lambda>parent0.
     sbind (RB_COLOR elm) (\<lambda>color.
     sseq (unhook parent0 elm child)
     (sbind (RB_PARENT elm) (\<lambda>q.
     let parent = (if q = old then elm else parent0) in
     sseq (swap_in old elm)
     (sseq (if parent \<noteq> None then augment_walk k parent else sret ())
        (sret (color, parent, child)))))))))"

definition remove_outer :: "ptr \<Rightarrow> ptr \<Rightarrow> (rb_head, int \<times> ptr \<times> ptr) prog" where
  "remove_outer elm child =
     sbind (RB_PARENT elm) (\<lambda>parent.
     sbind (RB_COLOR elm) (\<lambda>color.
     sseq (unhook parent elm child)
        (sret (color, parent, child))))"

definition RB_REMOVE :: "nat \<Rightarrow> nat \<Rightarrow> (rb_head, unit) prog" where
  "RB_REMOVE k elm =
     sbind (sbind (RB_LEFT (Some elm)) (\<lambda>l.
       if l = None then sbind (RB_RIGHT (Some elm)) (remove_outer (Some elm))
       else sbind (RB_RIGHT (Some elm)) (\<lambda>r.
         if r = None then sbind (RB_LEFT (Some elm)) (remove_outer (Some elm))
         else remove_inner k (Some elm)))) (\<lambda>(color, parent, child).
     if color = RB_BLACK then RB_REMOVE_COLOR k parent child else sret ())"

section \<open>Finding and visiting\<close>

primrec find_loop :: "(nat \<Rightarrow> int) \<Rightarrow> nat \<Rightarrow> ptr \<Rightarrow> (rb_head, ptr) prog" where
  "find_loop c 0 tmp = (\<lambda>s. (Wait, s))"
| "find_loop c (Suc k) tmp = (case tmp of
      None \<Rightarrow> sret None
    | Some x \<Rightarrow>
        if c x < 0 then sbind (RB_LEFT tmp) (find_loop c k)
        else if c x > 0 then sbind (RB_RIGHT tmp) (find_loop c k)
        else sret tmp)"

definition RB_FIND :: "(nat \<Rightarrow> nat \<Rightarrow> int) \<Rightarrow> nat \<Rightarrow> nat \<Rightarrow> (rb_head, ptr) prog" where
  "RB_FIND cmp k elm = sbind (sget RB_ROOT) (find_loop (cmp elm) k)"

text \<open>\<open>while (RB_PARENT(elm) && elm == RB_RIGHT(RB_PARENT(elm))) elm = RB_PARENT(elm);\<close> and the step
  behind it.\<close>

primrec climb :: "nat \<Rightarrow> ptr \<Rightarrow> (rb_head, ptr) prog" where
  "climb 0 elm = (\<lambda>s. (Wait, s))"
| "climb (Suc k) elm =
     sbind (RB_PARENT elm) (\<lambda>p.
     sbind (if p \<noteq> None then sbind (RB_RIGHT p) (\<lambda>r. sret (elm = r)) else sret False) (\<lambda>b.
     if b then climb k p else RB_PARENT elm))"

definition RB_NEXT :: "nat \<Rightarrow> ptr \<Rightarrow> (rb_head, ptr) prog" where
  "RB_NEXT k elm =
     sbind (RB_RIGHT elm) (\<lambda>r.
     if r \<noteq> None then rb_leftmost k r
     else
       sbind (RB_PARENT elm) (\<lambda>p.
       sbind (if p \<noteq> None then sbind (RB_LEFT p) (\<lambda>l. sret (elm = l)) else sret False) (\<lambda>b.
       if b then RB_PARENT elm else climb k elm)))"

primrec minmax_walk :: "int \<Rightarrow> nat \<Rightarrow> ptr \<Rightarrow> ptr \<Rightarrow> (rb_head, ptr) prog" where
  "minmax_walk val 0 tmp parent = (\<lambda>s. (Wait, s))"
| "minmax_walk val (Suc k) tmp parent = (case tmp of
      None \<Rightarrow> sret parent
    | Some x \<Rightarrow> sbind (if val < 0 then RB_LEFT tmp else RB_RIGHT tmp) (\<lambda>t. minmax_walk val k t tmp))"

definition RB_MINMAX :: "nat \<Rightarrow> int \<Rightarrow> (rb_head, ptr) prog" where
  "RB_MINMAX k val = sbind (sget RB_ROOT) (\<lambda>root. minmax_walk val k root None)"

definition RB_NEGINF :: int where "RB_NEGINF = - 1"

definition RB_INF :: int where "RB_INF = 1"

definition RB_MIN :: "nat \<Rightarrow> (rb_head, ptr) prog" where
  "RB_MIN k = RB_MINMAX k RB_NEGINF"

definition RB_MAX :: "nat \<Rightarrow> (rb_head, ptr) prog" where
  "RB_MAX k = RB_MINMAX k RB_INF"

text \<open>\<open>RB_FOREACH\<close> with a body that changes a value; \<open>n\<close> bounds the rounds.\<close>

primrec rb_foreach_loop ::
  "nat \<Rightarrow> nat \<Rightarrow> ptr \<Rightarrow> (nat \<Rightarrow> 'v \<Rightarrow> 'v) \<Rightarrow> 'v \<Rightarrow> (rb_head, 'v) prog" where
  "rb_foreach_loop k 0 x f v = (\<lambda>s. (if x = None then Ret v else Wait, s))"
| "rb_foreach_loop k (Suc n) x f v = (case x of
      None \<Rightarrow> sret v
    | Some a \<Rightarrow> sbind (RB_NEXT k x) (\<lambda>y. rb_foreach_loop k n y f (f a v)))"

definition RB_FOREACH :: "nat \<Rightarrow> nat \<Rightarrow> (nat \<Rightarrow> 'v \<Rightarrow> 'v) \<Rightarrow> 'v \<Rightarrow> (rb_head, 'v) prog" where
  "RB_FOREACH k n f v = sbind (RB_MIN k) (\<lambda>x. rb_foreach_loop k n x f v)"

end
