(* ===== verification/RedBlackHeap.thy ===== *)
theory RedBlackHeap
  imports RedBlack
begin

text \<open>
  Red-black trees in the heap. A place in a tree is its subtree and its context, the frames up to the root
  (\<open>zip\<close>); the operations work at such a place, and \<open>plug\<close> gives the whole tree. Rotations act on the
  subtree and leave the context alone.
\<close>

section \<open>Fields\<close>

definition rb_lf :: "rb_head \<Rightarrow> field" where
  "rb_lf s x = map_option rbe_left (rb_cells s x)"

definition rb_rg :: "rb_head \<Rightarrow> field" where
  "rb_rg s x = map_option rbe_right (rb_cells s x)"

definition rb_pa :: "rb_head \<Rightarrow> field" where
  "rb_pa s x = map_option rbe_parent (rb_cells s x)"

definition rb_co :: "rb_head \<Rightarrow> nat \<Rightarrow> int option" where
  "rb_co s x = map_option rbe_color (rb_cells s x)"

abbreviation put_left where "put_left x q \<equiv> rb_put x (\<lambda>n. n\<lparr>rbe_left := q\<rparr>)"
abbreviation put_right where "put_right x q \<equiv> rb_put x (\<lambda>n. n\<lparr>rbe_right := q\<rparr>)"
abbreviation put_parent where "put_parent x q \<equiv> rb_put x (\<lambda>n. n\<lparr>rbe_parent := q\<rparr>)"
abbreviation put_color where "put_color x c \<equiv> rb_put x (\<lambda>n. n\<lparr>rbe_color := c\<rparr>)"

text \<open>Updates of allocated nodes.\<close>

lemma rb_fields [simp]:
  "x \<in> dom (rb_cells s) \<Longrightarrow> rb_lf (put_left x q s) = (rb_lf s)(x \<mapsto> q)"
  "rb_rg (put_left x q s) = rb_rg s" "rb_pa (put_left x q s) = rb_pa s" "rb_co (put_left x q s) = rb_co s"
  "x \<in> dom (rb_cells s) \<Longrightarrow> rb_rg (put_right x q s) = (rb_rg s)(x \<mapsto> q)"
  "rb_lf (put_right x q s) = rb_lf s" "rb_pa (put_right x q s) = rb_pa s" "rb_co (put_right x q s) = rb_co s"
  "x \<in> dom (rb_cells s) \<Longrightarrow> rb_pa (put_parent x q s) = (rb_pa s)(x \<mapsto> q)"
  "rb_lf (put_parent x q s) = rb_lf s" "rb_rg (put_parent x q s) = rb_rg s" "rb_co (put_parent x q s) = rb_co s"
  "x \<in> dom (rb_cells s) \<Longrightarrow> rb_co (put_color x c s) = (rb_co s)(x \<mapsto> c)"
  "rb_lf (put_color x c s) = rb_lf s" "rb_rg (put_color x c s) = rb_rg s" "rb_pa (put_color x c s) = rb_pa s"
  "rb_lf (rb_put_root p s) = rb_lf s" "rb_rg (rb_put_root p s) = rb_rg s" "rb_pa (rb_put_root p s) = rb_pa s"
  "rb_co (rb_put_root p s) = rb_co s" "RB_ROOT (rb_put_root p s) = p" "RB_ROOT (rb_put x g s) = RB_ROOT s"
  by (auto simp: rb_lf_def rb_rg_def rb_pa_def rb_co_def rb_put_def rb_put_root_def RB_ROOT_def fun_eq_iff
      option.map_comp comp_def)

lemma rb_dom [simp]:
  "dom (rb_cells (rb_put x g s)) = dom (rb_cells s)" "dom (rb_cells (rb_put_root p s)) = dom (rb_cells s)"
  by (auto simp: rb_put_def rb_put_root_def)

lemma rb_alloc:
  "rb_lf s x = Some q \<Longrightarrow> x \<in> dom (rb_cells s)" "rb_rg s x = Some q \<Longrightarrow> x \<in> dom (rb_cells s)"
  "rb_pa s x = Some q \<Longrightarrow> x \<in> dom (rb_cells s)" "rb_co s x = Some c \<Longrightarrow> x \<in> dom (rb_cells s)"
  by (auto simp: rb_lf_def rb_rg_def rb_pa_def rb_co_def)

lemma rb_access:
  "rb_lf s x = Some q \<Longrightarrow> RB_LEFT (Some x) s = (Ret q, s)"
  "rb_rg s x = Some q \<Longrightarrow> RB_RIGHT (Some x) s = (Ret q, s)"
  "rb_pa s x = Some q \<Longrightarrow> RB_PARENT (Some x) s = (Ret q, s)"
  "rb_co s x = Some c \<Longrightarrow> RB_COLOR (Some x) s = (Ret c, s)"
  "x \<in> dom (rb_cells s) \<Longrightarrow> RB_LEFT_set (Some x) q s = (Ret (), put_left x q s)"
  "x \<in> dom (rb_cells s) \<Longrightarrow> RB_RIGHT_set (Some x) q s = (Ret (), put_right x q s)"
  "x \<in> dom (rb_cells s) \<Longrightarrow> RB_PARENT_set (Some x) q s = (Ret (), put_parent x q s)"
  "x \<in> dom (rb_cells s) \<Longrightarrow> RB_COLOR_set (Some x) c s = (Ret (), put_color x c s)"
  by (auto simp: rb_lf_def rb_rg_def rb_pa_def rb_co_def RB_LEFT_def RB_RIGHT_def RB_PARENT_def RB_COLOR_def
      rb_load_def RB_LEFT_set_def RB_RIGHT_set_def RB_PARENT_set_def RB_COLOR_set_def rb_store_def)

declare domIff [iff del]

lemmas rb_run = sbind_def sseq_def prog_eval rb_access

section \<open>Places in a tree\<close>

text \<open>\<open>Below_left x r\<close>: the place is the left subtree of \<open>x\<close>, whose right subtree is \<open>r\<close>.\<close>

datatype frame = Below_left nat "nat tree" | Below_right "nat tree" nat

type_synonym ctx = "frame list"

fun plug :: "ctx \<Rightarrow> nat tree \<Rightarrow> nat tree" where
  "plug [] t = t"
| "plug (Below_left x r # ctx) t = plug ctx (Node t x r)"
| "plug (Below_right l x # ctx) t = plug ctx (Node l x t)"

fun up :: "ctx \<Rightarrow> ptr" where
  "up [] = None"
| "up (Below_left x r # ctx) = Some x"
| "up (Below_right l x # ctx) = Some x"

fun before :: "ctx \<Rightarrow> nat list" where
  "before [] = []"
| "before (Below_left x r # ctx) = before ctx"
| "before (Below_right l x # ctx) = before ctx @ inorder l @ [x]"

fun behind :: "ctx \<Rightarrow> nat list" where
  "behind [] = []"
| "behind (Below_left x r # ctx) = x # inorder r @ behind ctx"
| "behind (Below_right l x # ctx) = behind ctx"

lemma inorder_plug [simp]: "inorder (plug ctx t) = before ctx @ inorder t @ behind ctx"
  by (induction ctx t rule: plug.induct) auto

lemma plug_append: "plug (d @ ctx) t = plug ctx (plug d t)"
  by (induction d t rule: plug.induct) simp_all

lemma ctx_append: "before (d @ ctx) = before ctx @ before d" "behind (d @ ctx) = behind d @ behind ctx"
  "up (d @ ctx) = (if d = [] then up ctx else up d)"
  by (induction d rule: before.induct; simp)+

abbreviation ctx_set :: "ctx \<Rightarrow> nat set" where
  "ctx_set ctx \<equiv> set (before ctx) \<union> set (behind ctx)"

fun parents_at :: "field \<Rightarrow> ptr \<Rightarrow> nat tree \<Rightarrow> bool" where
  "parents_at pa q Leaf \<longleftrightarrow> True"
| "parents_at pa q (Node l x r) \<longleftrightarrow> pa x = Some q \<and> parents_at pa (Some x) l \<and> parents_at pa (Some x) r"

definition sub_at :: "rb_head \<Rightarrow> ptr \<Rightarrow> nat tree \<Rightarrow> bool" where
  "sub_at s q t \<longleftrightarrow> tree_at (rb_lf s) (rb_rg s) (root_ptr t) t \<and> parents_at (rb_pa s) q t"

lemma sub_at_Leaf [simp]: "sub_at s q Leaf"
  by (simp add: sub_at_def)

lemma sub_at_Node: "sub_at s q (Node l x r) \<longleftrightarrow> rb_lf s x = Some (root_ptr l) \<and> rb_rg s x = Some (root_ptr r)
    \<and> rb_pa s x = Some q \<and> sub_at s (Some x) l \<and> sub_at s (Some x) r"
  by (auto simp: sub_at_def tree_at_iff simp del: tree_at.simps)

text \<open>The context holds the pointer \<open>p\<close> at its place.\<close>

fun ctx_at :: "rb_head \<Rightarrow> ctx \<Rightarrow> ptr \<Rightarrow> bool" where
  "ctx_at s [] p \<longleftrightarrow> RB_ROOT s = p"
| "ctx_at s (Below_left x r # ctx) p \<longleftrightarrow> rb_lf s x = Some p \<and> rb_rg s x = Some (root_ptr r)
    \<and> rb_pa s x = Some (up ctx) \<and> sub_at s (Some x) r \<and> ctx_at s ctx (Some x)"
| "ctx_at s (Below_right l x # ctx) p \<longleftrightarrow> rb_rg s x = Some p \<and> rb_lf s x = Some (root_ptr l)
    \<and> rb_pa s x = Some (up ctx) \<and> sub_at s (Some x) l \<and> ctx_at s ctx (Some x)"

definition zip_at :: "rb_head \<Rightarrow> ctx \<Rightarrow> nat tree \<Rightarrow> bool" where
  "zip_at s ctx t \<longleftrightarrow> ctx_at s ctx (root_ptr t) \<and> sub_at s (up ctx) t \<and> distinct (before ctx @ inorder t @ behind ctx)"

lemma zip_at_move:
  "zip_at s (Below_left x r # ctx) t \<longleftrightarrow> zip_at s ctx (Node t x r)"
  "zip_at s (Below_right l x # ctx) t \<longleftrightarrow> zip_at s ctx (Node l x t)"
  by (auto simp: zip_at_def sub_at_Node)

lemma zip_at_plug: "zip_at s ctx t \<longleftrightarrow> zip_at s [] (plug ctx t)"
  by (induction ctx t rule: plug.induct) (simp_all add: zip_at_move)

text \<open>What depends on the fields of which nodes.\<close>

definition same_on :: "nat set \<Rightarrow> rb_head \<Rightarrow> rb_head \<Rightarrow> bool" where
  "same_on A s s' \<longleftrightarrow> (\<forall>x \<in> A. rb_lf s' x = rb_lf s x \<and> rb_rg s' x = rb_rg s x \<and> rb_pa s' x = rb_pa s x)"

lemma same_on_simps [simp]: "same_on A s s" "same_on (A \<union> B) s s' \<longleftrightarrow> same_on A s s' \<and> same_on B s s'"
  "same_on (insert x A) s s' \<longleftrightarrow>
    rb_lf s' x = rb_lf s x \<and> rb_rg s' x = rb_rg s x \<and> rb_pa s' x = rb_pa s x \<and> same_on A s s'"
  "same_on {} s s'"
  by (auto simp: same_on_def)

lemma parents_at_frame:
  "parents_at pa q t \<Longrightarrow> \<forall>x \<in> set_tree t. pa' x = pa x \<Longrightarrow> parents_at pa' q t"
  by (induction t arbitrary: q) auto

lemma sub_at_frame: "sub_at s q t \<Longrightarrow> same_on (set_tree t) s s' \<Longrightarrow> sub_at s' q t"
  unfolding sub_at_def same_on_def by (auto elim!: tree_at_frame parents_at_frame)

lemma ctx_at_frame: "ctx_at s ctx p \<Longrightarrow> same_on (ctx_set ctx) s s' \<Longrightarrow> RB_ROOT s' = RB_ROOT s \<Longrightarrow> ctx_at s' ctx p"
proof (induction s ctx p rule: ctx_at.induct)
  case (2 s x r ctx p)
  then show ?case by (auto simp: Un_insert_left sub_at_frame)
next
  case (3 s l x ctx p)
  then show ?case by (auto simp: sub_at_frame)
qed simp

lemma rb_put_other [simp]:
  "y \<noteq> x \<Longrightarrow> rb_lf (rb_put x g s) y = rb_lf s y" "y \<noteq> x \<Longrightarrow> rb_rg (rb_put x g s) y = rb_rg s y"
  "y \<noteq> x \<Longrightarrow> rb_pa (rb_put x g s) y = rb_pa s y" "y \<noteq> x \<Longrightarrow> rb_co (rb_put x g s) y = rb_co s y"
  by (simp_all add: rb_lf_def rb_rg_def rb_pa_def rb_co_def rb_put_def)

lemma same_on_sym: "same_on A s s' \<Longrightarrow> same_on A s' s"
  by (simp add: same_on_def)

lemma same_on_sub: "same_on (set_tree t) s s' \<Longrightarrow> sub_at s' q t \<longleftrightarrow> sub_at s q t"
  using sub_at_frame same_on_sym by blast

lemma same_on_ctx: "same_on (ctx_set ctx) s s' \<Longrightarrow> RB_ROOT s' = RB_ROOT s \<Longrightarrow> ctx_at s' ctx p \<longleftrightarrow> ctx_at s ctx p"
  using ctx_at_frame same_on_sym by metis

lemma same_on_put: "x \<notin> A \<Longrightarrow> same_on A s (rb_put x g s)"
  unfolding same_on_def using rb_put_other by metis

lemma at_put [simp]:
  "x \<notin> set_tree t \<Longrightarrow> sub_at (rb_put x g s) q t \<longleftrightarrow> sub_at s q t"
  "x \<notin> set (before ctx) \<Longrightarrow> x \<notin> set (behind ctx) \<Longrightarrow> ctx_at (rb_put x g s) ctx p \<longleftrightarrow> ctx_at s ctx p"
  "sub_at (rb_put_root r s) q t \<longleftrightarrow> sub_at s q t"
  "sub_at (put_color x c s) q t \<longleftrightarrow> sub_at s q t"
  "ctx_at (put_color x c s) ctx p \<longleftrightarrow> ctx_at s ctx p"
  "zip_at (put_color x c s) ctx t \<longleftrightarrow> zip_at s ctx t"
proof -
  show "x \<notin> set_tree t \<Longrightarrow> sub_at (rb_put x g s) q t \<longleftrightarrow> sub_at s q t"
    by (rule same_on_sub [OF same_on_put])
  show "x \<notin> set (before ctx) \<Longrightarrow> x \<notin> set (behind ctx) \<Longrightarrow> ctx_at (rb_put x g s) ctx p \<longleftrightarrow> ctx_at s ctx p"
    by (rule same_on_ctx [OF same_on_put]) simp_all
  show "sub_at (rb_put_root r s) q t \<longleftrightarrow> sub_at s q t" by (rule same_on_sub) (simp add: same_on_def)
  have c: "same_on A s (put_color x c s)" for A by (simp add: same_on_def)
  show "sub_at (put_color x c s) q t \<longleftrightarrow> sub_at s q t" by (rule same_on_sub [OF c])
  show "ctx_at (put_color x c s) ctx p \<longleftrightarrow> ctx_at s ctx p" by (rule same_on_ctx [OF c]) simp
  then show "zip_at (put_color x c s) ctx t \<longleftrightarrow> zip_at s ctx t"
    unfolding zip_at_def using same_on_sub [OF c] by (simp add: same_on_ctx [OF c])
qed

text \<open>Changing the pointer at the place.\<close>

fun hook :: "ctx \<Rightarrow> ptr \<Rightarrow> rb_head \<Rightarrow> rb_head" where
  "hook [] q s = rb_put_root q s"
| "hook (Below_left x r # ctx) q s = put_left x q s"
| "hook (Below_right l x # ctx) q s = put_right x q s"

lemma hook_simps [simp]:
  "x \<notin> ctx_set ctx \<Longrightarrow> rb_lf (hook ctx q s) x = rb_lf s x"
  "x \<notin> ctx_set ctx \<Longrightarrow> rb_rg (hook ctx q s) x = rb_rg s x"
  "rb_pa (hook ctx q s) = rb_pa s" "rb_co (hook ctx q s) = rb_co s"
  "dom (rb_cells (hook ctx q s)) = dom (rb_cells s)"
  by (cases "(ctx, q, s)" rule: hook.cases; simp)+

lemma sub_at_hook [simp]:
  assumes "set_tree t \<inter> ctx_set ctx = {}"
  shows "sub_at (hook ctx q s) p t \<longleftrightarrow> sub_at s p t"
proof -
  have "x \<notin> ctx_set ctx" if "x \<in> set_tree t" for x using assms that by blast
  then have "same_on (set_tree t) s (hook ctx q s)" by (simp add: same_on_def)
  then show ?thesis by (rule same_on_sub)
qed

lemma ctx_at_hook: "ctx_at s ctx p \<Longrightarrow> distinct (before ctx @ behind ctx) \<Longrightarrow> ctx_at (hook ctx q s) ctx q"
  using rb_alloc(1) [of s _ p] rb_alloc(2) [of s _ p]
  by (cases "(ctx, q, s)" rule: hook.cases) simp_all

text \<open>\<open>rotate_up\<close> is \<open>hook\<close> at the place of the rotated node.\<close>

lemma rotate_up_ok:
  assumes "ctx_at s ctx (Some x)" "rb_pa s x = Some (up ctx)" "y \<in> dom (rb_cells s)" "x \<noteq> y"
    "x \<notin> ctx_set ctx" "y \<notin> ctx_set ctx"
  shows "rotate_up (Some x) (Some y) s = (Ret (), hook ctx (Some y) (put_parent y (up ctx) s))"
proof (cases ctx)
  case (Cons f c)
  show ?thesis
  proof (cases f)
    case (Below_left z r)
    with Cons assms rb_alloc(1) [of s z "Some x"] show ?thesis
      by (auto simp: rotate_up_def rb_run)
  next
    case (Below_right l z)
    have "root_ptr l \<noteq> Some x" using assms(5) Cons Below_right by (cases l) auto
    with Cons Below_right assms rb_alloc(2) [of s z "Some x"] show ?thesis
      by (auto simp: rotate_up_def rb_run)
  qed
qed (use assms in \<open>simp add: rotate_up_def rb_run del: domIff\<close>)

section \<open>Rotations\<close>

text \<open>A subtree gets a new parent.\<close>

definition adopt :: "nat tree \<Rightarrow> ptr \<Rightarrow> rb_head \<Rightarrow> rb_head" where
  "adopt t p s = (case t of Leaf \<Rightarrow> s | Node l z r \<Rightarrow> put_parent z p s)"

lemma adopt_simps [simp]:
  "rb_lf (adopt t p s) = rb_lf s" "rb_rg (adopt t p s) = rb_rg s" "rb_co (adopt t p s) = rb_co s"
  "y \<notin> set_tree t \<Longrightarrow> rb_pa (adopt t p s) y = rb_pa s y"
  "dom (rb_cells (adopt t p s)) = dom (rb_cells s)" "RB_ROOT (adopt t p s) = RB_ROOT s"
  by (cases t; simp add: adopt_def)+

lemma adopt_at [simp]:
  "set_tree t \<inter> set_tree u = {} \<Longrightarrow> sub_at (adopt t p s) q u \<longleftrightarrow> sub_at s q u"
  "set_tree t \<inter> ctx_set ctx = {} \<Longrightarrow> ctx_at (adopt t p s) ctx q \<longleftrightarrow> ctx_at s ctx q"
  by (cases t; simp add: adopt_def)+

lemma sub_at_adopt: "sub_at s q t \<Longrightarrow> distinct (inorder t) \<Longrightarrow> sub_at (adopt t p s) p t"
  using rb_alloc(3) [of s _ q] by (cases t) (simp_all add: adopt_def sub_at_Node)

lemma adopt_run:
  assumes "sub_at s q t" "get s = (Ret (root_ptr t), s)"
  shows "(if root_ptr t \<noteq> None then sbind get (\<lambda>r. RB_PARENT_set r p) else sret ()) s = (Ret (), adopt t p s)"
  using assms rb_alloc(3) [of s _ q] by (cases t) (simp_all add: adopt_def sub_at_Node rb_run)

lemma RB_ROTATE_LEFT_ok:
  assumes "zip_at s ctx (Node a x (Node b y c))"
  shows "\<exists>s'. RB_ROTATE_LEFT (Some x) s = (Ret (Some y), s') \<and> zip_at s' ctx (Node (Node a x b) y c)
    \<and> rb_co s' = rb_co s \<and> dom (rb_cells s') = dom (rb_cells s)"
proof -
  define s1 where "s1 = put_right x (root_ptr b) s"
  define s2 where "s2 = adopt b (Some x) s1"
  define s3 where "s3 = hook ctx (Some y) (put_parent y (up ctx) s2)"
  define s5 where "s5 = put_parent x (Some y) (put_left y (Some x) s3)"
  have c: "ctx_at s ctx (Some x)" and t: "sub_at s (up ctx) (Node a x (Node b y c))"
    and d: "distinct (before ctx @ inorder (Node a x (Node b y c)) @ behind ctx)"
    using assms by (simp_all add: zip_at_def)
  note f = t [unfolded sub_at_Node]
  have x: "x \<in> dom (rb_cells s)" "y \<in> dom (rb_cells s)" using f rb_alloc by auto
  have out: "x \<notin> ctx_set ctx" "y \<notin> ctx_set ctx" "set_tree a \<inter> ctx_set ctx = {}" "set_tree b \<inter> ctx_set ctx = {}"
    "set_tree c \<inter> ctx_set ctx = {}" using d by auto
  have ne: "x \<noteq> y" "x \<notin> set_tree a" "x \<notin> set_tree b" "x \<notin> set_tree c" "y \<notin> set_tree a" "y \<notin> set_tree b"
    "y \<notin> set_tree c" "set_tree b \<inter> set_tree a = {}" "set_tree b \<inter> set_tree c = {}" using d by auto
  have dc: "distinct (before ctx @ behind ctx)" using d by auto
  have b1: "sub_at s1 (Some y) b" using f ne by (simp add: s1_def)
  have c2: "ctx_at s2 ctx (Some x)" using c out by (simp add: s2_def s1_def)
  have e: "RB_LEFT (Some y) s1 = (Ret (root_ptr b), s1)" using f ne x by (simp add: rb_access s1_def)
  have up: "rotate_up (Some x) (Some y) s2 = (Ret (), s3)"
    unfolding s3_def by (rule rotate_up_ok [OF c2]) (use f x ne out in \<open>simp_all add: s2_def s1_def\<close>)
  have r: "RB_RIGHT (Some x) s = (Ret (Some y), s)" "RB_LEFT (Some y) s = (Ret (root_ptr b), s)"
    "RB_RIGHT_set (Some x) (root_ptr b) s = (Ret (), s1)"
    "RB_LEFT_set (Some y) (Some x) s3 = (Ret (), put_left y (Some x) s3)"
    "RB_PARENT_set (Some x) (Some y) (put_left y (Some x) s3) = (Ret (), s5)"
    unfolding s5_def using f x by (auto intro!: rb_access simp: s1_def s2_def s3_def)
  have "RB_ROTATE_LEFT (Some x) s = (Ret (Some y), s5)"
    using adopt_run [of s1 "Some y" b "RB_LEFT (Some y)" "Some x", OF b1 e]
    by (simp only: RB_ROTATE_LEFT_def sbind_Ret sseq_Ret r up prog_eval flip: s2_def)
  moreover have "ctx_at s3 ctx (Some y)"
    unfolding s3_def by (rule ctx_at_hook [of _ _ "Some x"]) (use c2 out dc in simp_all)
  then have "ctx_at s5 ctx (Some y)" using out by (simp add: s5_def)
  moreover have "sub_at s2 (Some x) b" using b1 d by (simp add: s2_def sub_at_adopt)
  then have "sub_at s5 (up ctx) (Node (Node a x b) y c)"
    using f x ne out by (simp add: sub_at_Node s5_def s3_def s2_def s1_def)
  ultimately show ?thesis using d by (auto simp: zip_at_def s5_def s3_def s2_def s1_def)
qed

lemma RB_ROTATE_RIGHT_ok:
  assumes "zip_at s ctx (Node (Node c y b) x a)"
  shows "\<exists>s'. RB_ROTATE_RIGHT (Some x) s = (Ret (Some y), s') \<and> zip_at s' ctx (Node c y (Node b x a))
    \<and> rb_co s' = rb_co s \<and> dom (rb_cells s') = dom (rb_cells s)"
proof -
  define s1 where "s1 = put_left x (root_ptr b) s"
  define s2 where "s2 = adopt b (Some x) s1"
  define s3 where "s3 = hook ctx (Some y) (put_parent y (up ctx) s2)"
  define s5 where "s5 = put_parent x (Some y) (put_right y (Some x) s3)"
  have c: "ctx_at s ctx (Some x)" and t: "sub_at s (up ctx) (Node (Node c y b) x a)"
    and d: "distinct (before ctx @ inorder (Node (Node c y b) x a) @ behind ctx)"
    using assms by (simp_all add: zip_at_def)
  note f = t [unfolded sub_at_Node]
  have x: "x \<in> dom (rb_cells s)" "y \<in> dom (rb_cells s)" using f rb_alloc by auto
  have out: "x \<notin> ctx_set ctx" "y \<notin> ctx_set ctx" "set_tree a \<inter> ctx_set ctx = {}" "set_tree b \<inter> ctx_set ctx = {}"
    "set_tree c \<inter> ctx_set ctx = {}" using d by auto
  have ne: "x \<noteq> y" "x \<notin> set_tree a" "x \<notin> set_tree b" "x \<notin> set_tree c" "y \<notin> set_tree a" "y \<notin> set_tree b"
    "y \<notin> set_tree c" "set_tree b \<inter> set_tree a = {}" "set_tree b \<inter> set_tree c = {}" using d by auto
  have dc: "distinct (before ctx @ behind ctx)" using d by auto
  have b1: "sub_at s1 (Some y) b" using f ne by (simp add: s1_def)
  have c2: "ctx_at s2 ctx (Some x)" using c out by (simp add: s2_def s1_def)
  have e: "RB_RIGHT (Some y) s1 = (Ret (root_ptr b), s1)" using f ne x by (simp add: rb_access s1_def)
  have up: "rotate_up (Some x) (Some y) s2 = (Ret (), s3)"
    unfolding s3_def by (rule rotate_up_ok [OF c2]) (use f x ne out in \<open>simp_all add: s2_def s1_def\<close>)
  have r: "RB_LEFT (Some x) s = (Ret (Some y), s)" "RB_RIGHT (Some y) s = (Ret (root_ptr b), s)"
    "RB_LEFT_set (Some x) (root_ptr b) s = (Ret (), s1)"
    "RB_RIGHT_set (Some y) (Some x) s3 = (Ret (), put_right y (Some x) s3)"
    "RB_PARENT_set (Some x) (Some y) (put_right y (Some x) s3) = (Ret (), s5)"
    unfolding s5_def using f x by (auto intro!: rb_access simp: s1_def s2_def s3_def)
  have "RB_ROTATE_RIGHT (Some x) s = (Ret (Some y), s5)"
    using adopt_run [of s1 "Some y" b "RB_RIGHT (Some y)" "Some x", OF b1 e]
    by (simp only: RB_ROTATE_RIGHT_def sbind_Ret sseq_Ret r up prog_eval flip: s2_def)
  moreover have "ctx_at s3 ctx (Some y)"
    unfolding s3_def by (rule ctx_at_hook [of _ _ "Some x"]) (use c2 out dc in simp_all)
  then have "ctx_at s5 ctx (Some y)" using out by (simp add: s5_def)
  moreover have "sub_at s2 (Some x) b" using b1 d by (simp add: s2_def sub_at_adopt)
  then have "sub_at s5 (up ctx) (Node c y (Node b x a))"
    using f x ne out by (simp add: sub_at_Node s5_def s3_def s2_def s1_def)
  ultimately show ?thesis using d by (auto simp: zip_at_def s5_def s3_def s2_def s1_def)
qed

end
