(* ===== verification/RedBlackInsert.thy ===== *)
theory RedBlackInsert
  imports RedBlackHeap Complex_Main
begin

text \<open>
  Insertion into the red-black trees of utils/tree.h: the colour invariants, of trees and of contexts, the
  repair loop, the height of the tree and the fuel it needs.
\<close>

declare domIff [iff del]

section \<open>Colours\<close>

type_synonym colours = "nat \<Rightarrow> int option"

abbreviation black :: "colours \<Rightarrow> nat \<Rightarrow> bool" where
  "black C x \<equiv> C x = Some RB_BLACK"

abbreviation red :: "colours \<Rightarrow> nat \<Rightarrow> bool" where
  "red C x \<equiv> C x = Some RB_RED"

lemma red_not_black [simp]: "RB_RED \<noteq> RB_BLACK" "RB_BLACK \<noteq> RB_RED"
  by (simp_all add: RB_RED_def RB_BLACK_def)

fun root_black :: "colours \<Rightarrow> nat tree \<Rightarrow> bool" where
  "root_black C Leaf \<longleftrightarrow> True"
| "root_black C (Node l x r) \<longleftrightarrow> black C x"

text \<open>No red node has a red child, and every path has as many black nodes.\<close>

fun coloured :: "colours \<Rightarrow> nat tree \<Rightarrow> bool" where
  "coloured C Leaf \<longleftrightarrow> True"
| "coloured C (Node l x r) \<longleftrightarrow> (black C x \<or> red C x \<and> root_black C l \<and> root_black C r)
    \<and> coloured C l \<and> coloured C r"

fun black_height :: "colours \<Rightarrow> nat tree \<Rightarrow> nat" where
  "black_height C Leaf = 0"
| "black_height C (Node l x r) = black_height C l + (if black C x then 1 else 0)"

fun balanced :: "colours \<Rightarrow> nat tree \<Rightarrow> bool" where
  "balanced C Leaf \<longleftrightarrow> True"
| "balanced C (Node l x r) \<longleftrightarrow> black_height C l = black_height C r \<and> balanced C l \<and> balanced C r"

definition rb_tree :: "colours \<Rightarrow> nat tree \<Rightarrow> bool" where
  "rb_tree C t \<longleftrightarrow> root_black C t \<and> coloured C t \<and> balanced C t"

fun ctx_coloured :: "colours \<Rightarrow> ctx \<Rightarrow> bool" where
  "ctx_coloured C [] \<longleftrightarrow> True"
| "ctx_coloured C (Below_left x r # ctx) \<longleftrightarrow>
    (black C x \<or> red C x \<and> root_black C r \<and> (case up ctx of None \<Rightarrow> True | Some y \<Rightarrow> black C y))
    \<and> coloured C r \<and> ctx_coloured C ctx"
| "ctx_coloured C (Below_right l x # ctx) \<longleftrightarrow>
    (black C x \<or> red C x \<and> root_black C l \<and> (case up ctx of None \<Rightarrow> True | Some y \<Rightarrow> black C y))
    \<and> coloured C l \<and> ctx_coloured C ctx"

text \<open>The context wants a subtree of black height \<open>h\<close>.\<close>

fun ctx_balanced :: "colours \<Rightarrow> nat \<Rightarrow> ctx \<Rightarrow> bool" where
  "ctx_balanced C h [] \<longleftrightarrow> True"
| "ctx_balanced C h (Below_left x r # ctx) \<longleftrightarrow> black_height C r = h \<and> balanced C r
    \<and> ctx_balanced C (h + (if black C x then 1 else 0)) ctx"
| "ctx_balanced C h (Below_right l x # ctx) \<longleftrightarrow> black_height C l = h \<and> balanced C l
    \<and> ctx_balanced C (h + (if black C x then 1 else 0)) ctx"

text \<open>The root of the whole tree is black when it is in the context.\<close>

fun ctx_rooted :: "colours \<Rightarrow> ctx \<Rightarrow> bool" where
  "ctx_rooted C [] \<longleftrightarrow> True"
| "ctx_rooted C (f # ctx) \<longleftrightarrow> (if ctx = [] then (case up [f] of None \<Rightarrow> True | Some y \<Rightarrow> black C y) else ctx_rooted C ctx)"

lemma coloured_plug:
  "coloured C (plug ctx t) \<longleftrightarrow> ctx_coloured C ctx \<and> coloured C t
    \<and> (root_black C t \<or> (case up ctx of None \<Rightarrow> True | Some y \<Rightarrow> black C y))"
  by (induction ctx t rule: plug.induct) auto

lemma balanced_plug: "balanced C (plug ctx t) \<longleftrightarrow> balanced C t \<and> ctx_balanced C (black_height C t) ctx"
  by (induction ctx t rule: plug.induct) auto

lemma root_black_plug: "root_black C (plug ctx t) \<longleftrightarrow> (if ctx = [] then root_black C t else ctx_rooted C ctx)"
proof (induction ctx t rule: plug.induct)
  case (2 x r ctx t)
  then show ?case by (cases ctx) auto
next
  case (3 l x ctx t)
  then show ?case by (cases ctx) auto
qed simp

text \<open>Colours of other nodes do not matter.\<close>

lemma colours_agree:
  "\<forall>x \<in> set_tree t. C' x = C x \<Longrightarrow> root_black C' t = root_black C t \<and> coloured C' t = coloured C t
    \<and> black_height C' t = black_height C t \<and> balanced C' t = balanced C t"
proof (induction t)
  case (Node l x r)
  then show ?case by (cases l; cases r) simp_all
qed simp

lemma up_in_ctx: "up ctx = Some y \<Longrightarrow> y \<in> ctx_set ctx"
  by (cases ctx rule: up.cases) auto

lemma ctx_agree:
  "\<forall>x \<in> ctx_set ctx. C' x = C x \<Longrightarrow> ctx_coloured C' ctx = ctx_coloured C ctx
    \<and> ctx_balanced C' h ctx = ctx_balanced C h ctx \<and> ctx_rooted C' ctx = ctx_rooted C ctx"
proof (induction C ctx arbitrary: h rule: ctx_coloured.induct)
  case (2 C x r ctx)
  have "C' y = C y" if "up ctx = Some y" for y using up_in_ctx [OF that] 2 by auto
  then have u: "(case up ctx of None \<Rightarrow> True | Some y \<Rightarrow> black C' y) = (case up ctx of None \<Rightarrow> True | Some y \<Rightarrow> black C y)"
    by (cases "up ctx") auto
  have "\<forall>x \<in> ctx_set ctx. C' x = C x" "C' x = C x" using 2 by auto
  with 2 u colours_agree [of r C' C] show ?case by simp
next
  case (3 C l x ctx)
  have "C' y = C y" if "up ctx = Some y" for y using up_in_ctx [OF that] 3 by auto
  then have u: "(case up ctx of None \<Rightarrow> True | Some y \<Rightarrow> black C' y) = (case up ctx of None \<Rightarrow> True | Some y \<Rightarrow> black C y)"
    by (cases "up ctx") auto
  have "\<forall>x \<in> ctx_set ctx. C' x = C x" "C' x = C x" using 3 by auto
  with 3 u colours_agree [of l C' C] show ?case by simp
qed simp

lemma ctx_upd [simp]:
  assumes "x \<notin> set (before ctx)" "x \<notin> set (behind ctx)"
  shows "ctx_coloured (C(x := c)) ctx = ctx_coloured C ctx" "ctx_balanced (C(x := c)) h ctx = ctx_balanced C h ctx"
    "ctx_rooted (C(x := c)) ctx = ctx_rooted C ctx"
proof -
  have "\<forall>y \<in> ctx_set ctx. (C(x := c)) y = C y" using assms by auto
  note ag = ctx_agree [of ctx "C(x := c)" C, OF this]
  from ag show "ctx_coloured (C(x := c)) ctx = ctx_coloured C ctx" by blast
  from ag show "ctx_balanced (C(x := c)) h ctx = ctx_balanced C h ctx" by blast
  from ag show "ctx_rooted (C(x := c)) ctx = ctx_rooted C ctx" by blast
qed

lemma colours_upd [simp]:
  assumes "x \<notin> set_tree t"
  shows "root_black (C(x := c)) t = root_black C t" "coloured (C(x := c)) t = coloured C t"
    "black_height (C(x := c)) t = black_height C t" "balanced (C(x := c)) t = balanced C t"
proof -
  have "\<forall>y \<in> set_tree t. (C(x := c)) y = C y" using assms by auto
  from colours_agree [of t "C(x := c)" C, OF this] show "root_black (C(x := c)) t = root_black C t"
    "coloured (C(x := c)) t = coloured C t" "black_height (C(x := c)) t = black_height C t"
    "balanced (C(x := c)) t = balanced C t" by simp_all
qed

lemma is_red_ok:
  "sub_at s q t \<Longrightarrow> coloured (rb_co s) t \<Longrightarrow> is_red (root_ptr t) s = (Ret (\<not> root_black (rb_co s) t), s)"
  by (cases t) (auto simp: is_red_def rb_run)

lemma is_black_ok:
  "sub_at s q t \<Longrightarrow> coloured (rb_co s) t \<Longrightarrow> is_black (root_ptr t) s = (Ret (root_black (rb_co s) t), s)"
  by (cases t) (auto simp: is_black_def rb_run)

section \<open>The repair loop\<close>

text \<open>What one turn makes of the subtree below the grandparent: it is well-coloured, as high as before,
  and the loop goes on at its red root or stops.\<close>

definition fixed :: "rb_head \<Rightarrow> ctx \<Rightarrow> nat tree \<Rightarrow> ptr \<Rightarrow> rb_head \<Rightarrow> bool" where
  "fixed s ctx t e s' \<longleftrightarrow> (\<exists>t'. zip_at s' ctx t' \<and> inorder t' = inorder t
    \<and> coloured (rb_co s') t' \<and> balanced (rb_co s') t' \<and> black_height (rb_co s') t' = black_height (rb_co s) t
    \<and> (\<forall>x. x \<notin> set_tree t \<longrightarrow> rb_co s' x = rb_co s x) \<and> dom (rb_cells s') = dom (rb_cells s)
    \<and> (if root_black (rb_co s') t' then \<exists>x p. e = Some x \<and> rb_pa s' x = Some (Some p) \<and> black (rb_co s') p
       else e = root_ptr t'))"

lemma zip_fields: "zip_at s ctx t \<Longrightarrow> sub_at s (up ctx) t \<and> distinct (inorder t)"
  by (simp add: zip_at_def)

lemma zip_dom: "zip_at s ctx (Node l x r) \<Longrightarrow> x \<in> dom (rb_cells s)"
  by (auto dest!: zip_fields simp: sub_at_Node intro: rb_alloc)

lemma insert_fix_left_recolour:
  assumes z: "zip_at s ctx (Node (Node a p b) g u)" and c: "black (rb_co s) g" "red (rb_co s) p" "\<not> root_black (rb_co s) u"
    and col: "coloured (rb_co s) a" "coloured (rb_co s) b" "coloured (rb_co s) u"
    and bal: "balanced (rb_co s) (Node (Node a p b) g u)"
  shows "\<exists>s'. insert_fix_left e (Some p) (Some g) s = (Ret (Some g), s') \<and> fixed s ctx (Node (Node a p b) g u) (Some g) s'"
proof -
  obtain l y r where u: "u = Node l y r" using c(3) by (cases u) auto
  note z = z [unfolded u]
  define s' where "s' = put_color g RB_RED (put_color p RB_BLACK (put_color y RB_BLACK s))"
  have f: "sub_at s (up ctx) (Node (Node a p b) g (Node l y r))" "distinct (inorder (Node (Node a p b) g (Node l y r)))"
    using zip_fields [OF z] by auto
  then have d: "g \<in> dom (rb_cells s)" "p \<in> dom (rb_cells s)" "y \<in> dom (rb_cells s)"
    by (auto simp: sub_at_Node intro: rb_alloc)
  have ry: "red (rb_co s) y" using c(3) col(3) u by auto
  have "insert_fix_left e (Some p) (Some g) s = (Ret (Some g), s')"
    using f(1) d ry by (simp add: insert_fix_left_def sub_at_Node rb_run is_red_def RB_SET_BLACKRED_def s'_def)
  moreover have "fixed s ctx (Node (Node a p b) g u) (Some g) s'"
    unfolding fixed_def u using z f(2) col bal c(1,2) ry d
    by (intro exI [of _ "Node (Node a p b) g (Node l y r)"]) (auto simp: s'_def u)
  ultimately show ?thesis by blast
qed

lemma insert_fix_left_outer:
  assumes z: "zip_at s ctx (Node (Node (Node al e ar) p b) g u)"
    and c: "black (rb_co s) g" "red (rb_co s) p" "red (rb_co s) e" "root_black (rb_co s) u" "root_black (rb_co s) b"
    and col: "coloured (rb_co s) (Node al e ar)" "coloured (rb_co s) b" "coloured (rb_co s) u"
    and bal: "balanced (rb_co s) (Node (Node (Node al e ar) p b) g u)"
  shows "\<exists>s'. insert_fix_left (Some e) (Some p) (Some g) s = (Ret (Some e), s')
    \<and> fixed s ctx (Node (Node (Node al e ar) p b) g u) (Some e) s'"
proof -
  define s1 where "s1 = put_color g RB_RED (put_color p RB_BLACK s)"
  have f: "sub_at s (up ctx) (Node (Node (Node al e ar) p b) g u)"
    and d: "distinct (inorder (Node (Node (Node al e ar) p b) g u))" using zip_fields [OF z] by auto
  then have m: "g \<in> dom (rb_cells s)" "p \<in> dom (rb_cells s)" by (auto simp: sub_at_Node intro: rb_alloc)
  have ne: "root_ptr b \<noteq> Some e" using d by (cases b) auto
  have red: "is_red (root_ptr u) s = (Ret False, s)"
    using is_red_ok [of s "Some g" u] f col(3) c(4) by (simp add: sub_at_Node)
  have "zip_at s1 ctx (Node (Node (Node al e ar) p b) g u)" using z by (simp add: s1_def)
  from RB_ROTATE_RIGHT_ok [OF this] obtain s2 where s2: "RB_ROTATE_RIGHT (Some g) s1 = (Ret (Some p), s2)"
    "zip_at s2 ctx (Node (Node al e ar) p (Node b g u))" "rb_co s2 = rb_co s1" "dom (rb_cells s2) = dom (rb_cells s1)"
    by blast
  have "insert_fix_left (Some e) (Some p) (Some g) s = (Ret (Some e), s2)"
    using f m ne red s2(1)
    by (simp add: insert_fix_left_def sub_at_Node rb_run RB_SET_BLACKRED_def flip: s1_def)
  moreover have "rb_pa s2 e = Some (Some p)" using zip_fields [OF s2(2)] by (simp add: sub_at_Node)
  then have "fixed s ctx (Node (Node (Node al e ar) p b) g u) (Some e) s2"
    unfolding fixed_def using s2 d col bal c m
    by (intro exI [of _ "Node (Node al e ar) p (Node b g u)"]) (auto simp: s1_def)
  ultimately show ?thesis by blast
qed

lemma insert_fix_left_inner:
  assumes z: "zip_at s ctx (Node (Node a p (Node bl e br)) g u)"
    and c: "black (rb_co s) g" "red (rb_co s) p" "red (rb_co s) e" "root_black (rb_co s) u" "root_black (rb_co s) a"
    and col: "coloured (rb_co s) (Node bl e br)" "coloured (rb_co s) a" "coloured (rb_co s) u"
    and bal: "balanced (rb_co s) (Node (Node a p (Node bl e br)) g u)"
  shows "\<exists>s'. insert_fix_left (Some e) (Some p) (Some g) s = (Ret (Some p), s')
    \<and> fixed s ctx (Node (Node a p (Node bl e br)) g u) (Some p) s'"
proof -
  have f: "sub_at s (up ctx) (Node (Node a p (Node bl e br)) g u)"
    and d: "distinct (inorder (Node (Node a p (Node bl e br)) g u))" using zip_fields [OF z] by auto
  then have m: "g \<in> dom (rb_cells s)" "e \<in> dom (rb_cells s)" by (auto simp: sub_at_Node intro: rb_alloc)
  have red: "is_red (root_ptr u) s = (Ret False, s)"
    using is_red_ok [of s "Some g" u] f col(3) c(4) by (simp add: sub_at_Node)
  from z have "zip_at s (Below_left g u # ctx) (Node a p (Node bl e br))" by (simp add: zip_at_move)
  from RB_ROTATE_LEFT_ok [OF this] obtain s1 where s1: "RB_ROTATE_LEFT (Some p) s = (Ret (Some e), s1)"
    "zip_at s1 ctx (Node (Node (Node a p bl) e br) g u)" "rb_co s1 = rb_co s" "dom (rb_cells s1) = dom (rb_cells s)"
    by (auto simp: zip_at_move)
  define s2 where "s2 = put_color g RB_RED (put_color e RB_BLACK s1)"
  have "zip_at s2 ctx (Node (Node (Node a p bl) e br) g u)" using s1(2) by (simp add: s2_def)
  from RB_ROTATE_RIGHT_ok [OF this] obtain s3 where s3: "RB_ROTATE_RIGHT (Some g) s2 = (Ret (Some e), s3)"
    "zip_at s3 ctx (Node (Node a p bl) e (Node br g u))" "rb_co s3 = rb_co s2" "dom (rb_cells s3) = dom (rb_cells s2)"
    by blast
  have "insert_fix_left (Some e) (Some p) (Some g) s = (Ret (Some p), s3)"
    using f m red s1(1,4) s3(1)
    by (simp add: insert_fix_left_def sub_at_Node rb_run RB_SET_BLACKRED_def flip: s2_def)
  moreover have "rb_pa s3 p = Some (Some e)" using zip_fields [OF s3(2)] by (simp add: sub_at_Node)
  then have "fixed s ctx (Node (Node a p (Node bl e br)) g u) (Some p) s3"
    unfolding fixed_def using s3 s1(3,4) d col bal c m
    by (intro exI [of _ "Node (Node a p bl) e (Node br g u)"]) (auto simp: s2_def)
  ultimately show ?thesis by blast
qed

lemma insert_fix_right_recolour:
  assumes z: "zip_at s ctx (Node u g (Node b p a))" and c: "black (rb_co s) g" "red (rb_co s) p" "\<not> root_black (rb_co s) u"
    and col: "coloured (rb_co s) a" "coloured (rb_co s) b" "coloured (rb_co s) u"
    and bal: "balanced (rb_co s) (Node u g (Node b p a))"
  shows "\<exists>s'. insert_fix_right e (Some p) (Some g) s = (Ret (Some g), s') \<and> fixed s ctx (Node u g (Node b p a)) (Some g) s'"
proof -
  obtain l y r where u: "u = Node r y l" using c(3) by (cases u) auto
  note z = z [unfolded u]
  define s' where "s' = put_color g RB_RED (put_color p RB_BLACK (put_color y RB_BLACK s))"
  have f: "sub_at s (up ctx) (Node (Node r y l) g (Node b p a))" "distinct (inorder (Node (Node r y l) g (Node b p a)))"
    using zip_fields [OF z] by auto
  then have d: "g \<in> dom (rb_cells s)" "p \<in> dom (rb_cells s)" "y \<in> dom (rb_cells s)"
    by (auto simp: sub_at_Node intro: rb_alloc)
  have ry: "red (rb_co s) y" using c(3) col(3) u by auto
  have "insert_fix_right e (Some p) (Some g) s = (Ret (Some g), s')"
    using f(1) d ry by (simp add: insert_fix_right_def sub_at_Node rb_run is_red_def RB_SET_BLACKRED_def s'_def)
  moreover have "fixed s ctx (Node u g (Node b p a)) (Some g) s'"
    unfolding fixed_def u using z f(2) col bal c(1,2) ry d
    by (intro exI [of _ "Node (Node r y l) g (Node b p a)"]) (auto simp: s'_def u)
  ultimately show ?thesis by blast
qed

lemma insert_fix_right_outer:
  assumes z: "zip_at s ctx (Node u g (Node b p (Node ar e al)))"
    and c: "black (rb_co s) g" "red (rb_co s) p" "red (rb_co s) e" "root_black (rb_co s) u" "root_black (rb_co s) b"
    and col: "coloured (rb_co s) (Node ar e al)" "coloured (rb_co s) b" "coloured (rb_co s) u"
    and bal: "balanced (rb_co s) (Node u g (Node b p (Node ar e al)))"
  shows "\<exists>s'. insert_fix_right (Some e) (Some p) (Some g) s = (Ret (Some e), s')
    \<and> fixed s ctx (Node u g (Node b p (Node ar e al))) (Some e) s'"
proof -
  define s1 where "s1 = put_color g RB_RED (put_color p RB_BLACK s)"
  have f: "sub_at s (up ctx) (Node u g (Node b p (Node ar e al)))"
    and d: "distinct (inorder (Node u g (Node b p (Node ar e al))))" using zip_fields [OF z] by auto
  then have m: "g \<in> dom (rb_cells s)" "p \<in> dom (rb_cells s)" by (auto simp: sub_at_Node intro: rb_alloc)
  have ne: "root_ptr b \<noteq> Some e" using d by (cases b) auto
  have red: "is_red (root_ptr u) s = (Ret False, s)"
    using is_red_ok [of s "Some g" u] f col(3) c(4) by (simp add: sub_at_Node)
  have "zip_at s1 ctx (Node u g (Node b p (Node ar e al)))" using z by (simp add: s1_def)
  from RB_ROTATE_LEFT_ok [OF this] obtain s2 where s2: "RB_ROTATE_LEFT (Some g) s1 = (Ret (Some p), s2)"
    "zip_at s2 ctx (Node (Node u g b) p (Node ar e al))" "rb_co s2 = rb_co s1" "dom (rb_cells s2) = dom (rb_cells s1)"
    by blast
  have "insert_fix_right (Some e) (Some p) (Some g) s = (Ret (Some e), s2)"
    using f m ne red s2(1)
    by (simp add: insert_fix_right_def sub_at_Node rb_run RB_SET_BLACKRED_def flip: s1_def)
  moreover have "rb_pa s2 e = Some (Some p)" using zip_fields [OF s2(2)] by (simp add: sub_at_Node)
  then have "fixed s ctx (Node u g (Node b p (Node ar e al))) (Some e) s2"
    unfolding fixed_def using s2 d col bal c m
    by (intro exI [of _ "Node (Node u g b) p (Node ar e al)"]) (auto simp: s1_def)
  ultimately show ?thesis by blast
qed

lemma insert_fix_right_inner:
  assumes z: "zip_at s ctx (Node u g (Node (Node br e bl) p a))"
    and c: "black (rb_co s) g" "red (rb_co s) p" "red (rb_co s) e" "root_black (rb_co s) u" "root_black (rb_co s) a"
    and col: "coloured (rb_co s) (Node br e bl)" "coloured (rb_co s) a" "coloured (rb_co s) u"
    and bal: "balanced (rb_co s) (Node u g (Node (Node br e bl) p a))"
  shows "\<exists>s'. insert_fix_right (Some e) (Some p) (Some g) s = (Ret (Some p), s')
    \<and> fixed s ctx (Node u g (Node (Node br e bl) p a)) (Some p) s'"
proof -
  have f: "sub_at s (up ctx) (Node u g (Node (Node br e bl) p a))"
    and d: "distinct (inorder (Node u g (Node (Node br e bl) p a)))" using zip_fields [OF z] by auto
  then have m: "g \<in> dom (rb_cells s)" "e \<in> dom (rb_cells s)" by (auto simp: sub_at_Node intro: rb_alloc)
  have red: "is_red (root_ptr u) s = (Ret False, s)"
    using is_red_ok [of s "Some g" u] f col(3) c(4) by (simp add: sub_at_Node)
  from z have "zip_at s (Below_right u g # ctx) (Node (Node br e bl) p a)" by (simp add: zip_at_move)
  from RB_ROTATE_RIGHT_ok [OF this] obtain s1 where s1: "RB_ROTATE_RIGHT (Some p) s = (Ret (Some e), s1)"
    "zip_at s1 ctx (Node u g (Node br e (Node bl p a)))" "rb_co s1 = rb_co s" "dom (rb_cells s1) = dom (rb_cells s)"
    by (auto simp: zip_at_move)
  define s2 where "s2 = put_color g RB_RED (put_color e RB_BLACK s1)"
  have "zip_at s2 ctx (Node u g (Node br e (Node bl p a)))" using s1(2) by (simp add: s2_def)
  from RB_ROTATE_LEFT_ok [OF this] obtain s3 where s3: "RB_ROTATE_LEFT (Some g) s2 = (Ret (Some e), s3)"
    "zip_at s3 ctx (Node (Node u g br) e (Node bl p a))" "rb_co s3 = rb_co s2" "dom (rb_cells s3) = dom (rb_cells s2)"
    by blast
  have "insert_fix_right (Some e) (Some p) (Some g) s = (Ret (Some p), s3)"
    using f m red s1(1,4) s3(1)
    by (simp add: insert_fix_right_def sub_at_Node rb_run RB_SET_BLACKRED_def flip: s2_def)
  moreover have "rb_pa s3 p = Some (Some e)" using zip_fields [OF s3(2)] by (simp add: sub_at_Node)
  then have "fixed s ctx (Node u g (Node (Node br e bl) p a)) (Some p) s3"
    unfolding fixed_def using s3 s1(3,4) d col bal c m
    by (intro exI [of _ "Node (Node u g br) e (Node bl p a)"]) (auto simp: s2_def)
  ultimately show ?thesis by blast
qed

lemma insert_turn_left:
  assumes z: "zip_at s ctx (Node (plug [f] (Node l e r)) g u)" and p: "up [f] = Some p"
    and c: "black (rb_co s) g" "red (rb_co s) p" "red (rb_co s) e"
    and col: "coloured (rb_co s) (Node l e r)" "ctx_coloured (rb_co s) [f]" "coloured (rb_co s) u"
    and bal: "balanced (rb_co s) (Node (plug [f] (Node l e r)) g u)"
  shows "\<exists>e' s'. insert_fix_left (Some e) (Some p) (Some g) s = (Ret e', s')
    \<and> fixed s ctx (Node (plug [f] (Node l e r)) g u) e' s'"
proof (cases "root_black (rb_co s) u")
  case u: True
  show ?thesis
  proof (cases f)
    case (Below_left x sib)
    with p col(2) c(2) have "x = p" "root_black (rb_co s) sib" "coloured (rb_co s) sib" by auto
    with insert_fix_left_outer [where s = s and ctx = ctx and al = l and e = e and ar = r and p = p and b = sib and g = g and u = u] z c u col(1,3) bal Below_left show ?thesis by auto
  next
    case (Below_right sib x)
    with p col(2) c(2) have "x = p" "root_black (rb_co s) sib" "coloured (rb_co s) sib" by auto
    with insert_fix_left_inner [where s = s and ctx = ctx and a = sib and p = p and bl = l and e = e and br = r and g = g and u = u] z c u col(1,3) bal Below_right show ?thesis by auto
  qed
next
  case u: False
  show ?thesis
  proof (cases f)
    case (Below_left x sib)
    with p col(2) have "x = p" "coloured (rb_co s) sib" by auto
    with insert_fix_left_recolour [where s = s and ctx = ctx and a = "Node l e r" and p = p and b = sib and g = g and u = u and e = "Some e"] z c u col(1,3) bal Below_left
    show ?thesis by auto
  next
    case (Below_right sib x)
    with p col(2) have "x = p" "coloured (rb_co s) sib" by auto
    with insert_fix_left_recolour [where s = s and ctx = ctx and a = sib and p = p and b = "Node l e r" and g = g and u = u and e = "Some e"] z c u col(1,3) bal Below_right
    show ?thesis by auto
  qed
qed

lemma insert_turn_right:
  assumes z: "zip_at s ctx (Node u g (plug [f] (Node r e l)))" and p: "up [f] = Some p"
    and c: "black (rb_co s) g" "red (rb_co s) p" "red (rb_co s) e"
    and col: "coloured (rb_co s) (Node r e l)" "ctx_coloured (rb_co s) [f]" "coloured (rb_co s) u"
    and bal: "balanced (rb_co s) (Node u g (plug [f] (Node r e l)))"
  shows "\<exists>e' s'. insert_fix_right (Some e) (Some p) (Some g) s = (Ret e', s')
    \<and> fixed s ctx (Node u g (plug [f] (Node r e l))) e' s'"
proof (cases "root_black (rb_co s) u")
  case u: True
  show ?thesis
  proof (cases f)
    case (Below_right sib x)
    with p col(2) c(2) have "x = p" "root_black (rb_co s) sib" "coloured (rb_co s) sib" by auto
    with insert_fix_right_outer [where s = s and ctx = ctx and al = l and e = e and ar = r and p = p and b = sib and g = g and u = u] z c u col(1,3) bal Below_right show ?thesis by auto
  next
    case (Below_left x sib)
    with p col(2) c(2) have "x = p" "root_black (rb_co s) sib" "coloured (rb_co s) sib" by auto
    with insert_fix_right_inner [where s = s and ctx = ctx and a = sib and p = p and bl = l and e = e and br = r and g = g and u = u] z c u col(1,3) bal Below_left show ?thesis by auto
  qed
next
  case u: False
  show ?thesis
  proof (cases f)
    case (Below_right sib x)
    with p col(2) have "x = p" "coloured (rb_co s) sib" by auto
    with insert_fix_right_recolour [where s = s and ctx = ctx and a = "Node r e l" and p = p and b = sib and g = g and u = u and e = "Some e"] z c u col(1,3) bal Below_right
    show ?thesis by auto
  next
    case (Below_left x sib)
    with p col(2) have "x = p" "coloured (rb_co s) sib" by auto
    with insert_fix_right_recolour [where s = s and ctx = ctx and a = sib and p = p and b = "Node r e l" and g = g and u = u and e = "Some e"] z c u col(1,3) bal Below_left
    show ?thesis by auto
  qed
qed

section \<open>The loop\<close>

definition ins_inv :: "rb_head \<Rightarrow> ctx \<Rightarrow> nat tree \<Rightarrow> bool" where
  "ins_inv s ctx t \<longleftrightarrow> zip_at s ctx t \<and> \<not> root_black (rb_co s) t \<and> coloured (rb_co s) t \<and> balanced (rb_co s) t
    \<and> ctx_balanced (rb_co s) (black_height (rb_co s) t) ctx \<and> ctx_coloured (rb_co s) ctx \<and> ctx_rooted (rb_co s) ctx"

lemma zip_at_frame: "zip_at s (f # ctx) t \<longleftrightarrow> zip_at s ctx (plug [f] t)"
  by (cases f) (simp_all add: zip_at_move)

lemma plug_Cons: "plug (f # ctx) t = plug ctx (plug [f] t)"
  by (cases f) simp_all

lemma frame_node: "up (f # ctx) = Some p \<Longrightarrow> \<exists>a b. plug [f] t = Node a p b"
  by (cases f) auto

lemma up_frame: "up (f # ctx) = up [f]"
  by (cases f) simp_all

text \<open>One turn, when the parent is red.\<close>

lemma insert_turn:
  assumes inv: "ins_inv s ctx t" and p: "up ctx = Some p" "red (rb_co s) p"
  shows "\<exists>f h ctx' g q e' s'. ctx = f # h # ctx' \<and> rb_pa s p = Some (Some g) \<and> rb_lf s g = Some q
    \<and> (if Some p = q then insert_fix_left (root_ptr t) (Some p) (Some g) s
       else insert_fix_right (root_ptr t) (Some p) (Some g) s) = (Ret e', s')
    \<and> fixed s ctx' (plug [h] (plug [f] t)) e' s'"
proof -
  let ?C = "rb_co s"
  obtain f ctx1 where f: "ctx = f # ctx1" using p by (cases ctx) auto
  have ct: "ctx1 \<noteq> []" using inv p up_frame [of f ctx1] by (auto simp: ins_inv_def f)
  then obtain h ctx' where h: "ctx1 = h # ctx'" by (cases ctx1) auto
  obtain g where g: "up ctx1 = Some g" by (cases h) (auto simp: h)
  obtain l e r where t: "t = Node l e r" "red ?C e" using inv by (cases t) (auto simp: ins_inv_def)
  have pf: "up [f] = Some p" using p f up_frame [of f ctx1] by simp
  have cc: "coloured ?C (plug (f # ctx1) t) \<or> ctx_coloured ?C (f # ctx1)" using inv by (simp add: ins_inv_def f)
  have gb: "black ?C g" and cf: "ctx_coloured ?C [f]" and ch: "ctx_coloured ?C [h]"
    using inv p(2) pf g unfolding ins_inv_def f h by (cases f; cases h; auto)+
  have bal: "balanced ?C (plug [h] (plug [f] t))"
    using inv balanced_plug [of ?C "[f, h]" t] unfolding ins_inv_def f h by (cases f; cases h) auto
  have z: "zip_at s ctx' (plug [h] (plug [f] t))" using inv by (simp add: ins_inv_def f h zip_at_frame)
  obtain a b where ab: "plug [f] t = Node a p b" using frame_node [of f "[]" p t] pf by auto
  show ?thesis
  proof (cases h)
    case (Below_left y u)
    with g h have y: "y = g" by simp
    from z have z': "zip_at s ctx' (Node (plug [f] (Node l e r)) g u)" by (simp add: Below_left y t)
    have pa: "rb_pa s p = Some (Some g)" "rb_lf s g = Some (Some p)"
      using zip_fields [OF z] by (simp_all add: Below_left y ab sub_at_Node)
    have "coloured ?C u" using ch Below_left by simp
    from insert_turn_left [OF z' pf gb p(2) t(2) _ cf this] inv bal obtain e' s' where
      "insert_fix_left (root_ptr t) (Some p) (Some g) s = (Ret e', s')" "fixed s ctx' (plug [h] (plug [f] t)) e' s'"
      by (auto simp: ins_inv_def t(1) Below_left y)
    with pa show ?thesis by (simp add: f h)
  next
    case (Below_right u y)
    with g h have y: "y = g" by simp
    from z have z': "zip_at s ctx' (Node u g (plug [f] (Node l e r)))" by (simp add: Below_right y t)
    have pa: "rb_pa s p = Some (Some g)" "rb_lf s g = Some (root_ptr u)" "root_ptr u \<noteq> Some p"
      using zip_fields [OF z] by (cases u; simp add: Below_right y ab sub_at_Node; blast)+
    have "coloured ?C u" using ch Below_right by simp
    from insert_turn_right [OF z' pf gb p(2) t(2) _ cf this] inv bal obtain e' s' where
      "insert_fix_right (root_ptr t) (Some p) (Some g) s = (Ret e', s')" "fixed s ctx' (plug [h] (plug [f] t)) e' s'"
      by (auto simp: ins_inv_def t(1) Below_right y)
    with pa show ?thesis by (simp add: f h)
  qed
qed

lemma ins_inv_plug:
  assumes "ins_inv s ctx t"
  shows "balanced (rb_co s) (plug ctx t)" "zip_at s [] (plug ctx t)"
    "(case up ctx of None \<Rightarrow> True | Some p \<Rightarrow> black (rb_co s) p) \<Longrightarrow> coloured (rb_co s) (plug ctx t)"
  using assms zip_at_plug [of s ctx t] by (simp_all add: ins_inv_def balanced_plug coloured_plug)

lemma ctx_parent_colour: "ctx_coloured C ctx \<Longrightarrow> up ctx = Some p \<Longrightarrow> black C p \<or> red C p"
  by (cases ctx rule: up.cases) auto

text \<open>The context above the grandparent keeps its invariants.\<close>

lemma fixed_inv:
  assumes inv: "ins_inv s (f # h # ctx) t" and fx: "fixed s ctx (plug [h] (plug [f] t)) e s'"
  obtains t' where "zip_at s' ctx t'" "inorder t' = inorder (plug [h] (plug [f] t))"
    "coloured (rb_co s') t'" "balanced (rb_co s') t'" "ctx_balanced (rb_co s') (black_height (rb_co s') t') ctx"
    "ctx_coloured (rb_co s') ctx" "ctx_rooted (rb_co s') ctx" "dom (rb_cells s') = dom (rb_cells s)"
    "if root_black (rb_co s') t' then \<exists>x p. e = Some x \<and> rb_pa s' x = Some (Some p) \<and> black (rb_co s') p
     else e = root_ptr t'"
proof -
  let ?T = "plug [h] (plug [f] t)"
  from fx obtain t' where t': "zip_at s' ctx t'" "inorder t' = inorder ?T" "coloured (rb_co s') t'"
    "balanced (rb_co s') t'" "black_height (rb_co s') t' = black_height (rb_co s) ?T"
    "\<forall>x. x \<notin> set_tree ?T \<longrightarrow> rb_co s' x = rb_co s x" "dom (rb_cells s') = dom (rb_cells s)"
    "if root_black (rb_co s') t' then \<exists>x p. e = Some x \<and> rb_pa s' x = Some (Some p) \<and> black (rb_co s') p
     else e = root_ptr t'" unfolding fixed_def by blast
  have "zip_at s ctx ?T" using inv by (simp add: ins_inv_def zip_at_frame [of s f] zip_at_frame [of s h])
  then have "set_tree ?T \<inter> ctx_set ctx = {}" by (auto simp: zip_at_def simp flip: set_inorder)
  with t'(6) have ag: "\<forall>x \<in> ctx_set ctx. rb_co s' x = rb_co s x" by blast
  have "balanced (rb_co s) (plug ctx ?T)" using ins_inv_plug(1) [OF inv] by (simp add: plug_Cons [of f "h # ctx"] plug_Cons [of h ctx])
  then have cb: "ctx_balanced (rb_co s) (black_height (rb_co s) ?T) ctx" by (simp add: balanced_plug)
  have cc: "ctx_coloured (rb_co s) ctx" "ctx_rooted (rb_co s) ctx"
  proof -
    have "ctx_coloured (rb_co s) (f # h # ctx)" using inv unfolding ins_inv_def by blast
    then show "ctx_coloured (rb_co s) ctx" by (cases f; cases h) simp_all
    have "ctx_rooted (rb_co s) (f # h # ctx)" using inv unfolding ins_inv_def by blast
    then show "ctx_rooted (rb_co s) ctx" by (cases "ctx = []") simp_all
  qed
  show thesis
    by (rule that [OF t'(1-4) _ _ _ t'(7,8)]) (use cb cc t'(5) ctx_agree [OF ag] in simp_all)
qed

lemma insert_color_loop_ok:
  "ins_inv s ctx t \<Longrightarrow> length ctx < k \<Longrightarrow> \<exists>s' T. insert_color_loop k (root_ptr t) s = (Ret (), s')
    \<and> zip_at s' [] T \<and> inorder T = before ctx @ inorder t @ behind ctx \<and> coloured (rb_co s') T
    \<and> balanced (rb_co s') T \<and> dom (rb_cells s') = dom (rb_cells s)"
proof (induction k arbitrary: s ctx t)
  case (Suc k)
  note inv = Suc.prems(1)
  obtain l e r where t: "t = Node l e r" using inv by (cases t) (auto simp: ins_inv_def)
  have pa: "RB_PARENT (root_ptr t) s = (Ret (up ctx), s)"
    using inv zip_fields [of s ctx t] by (simp add: ins_inv_def t sub_at_Node rb_access)
  show ?case
  proof (cases "case up ctx of None \<Rightarrow> False | Some p \<Rightarrow> red (rb_co s) p")
    case False
    then have up: "case up ctx of None \<Rightarrow> True | Some p \<Rightarrow> black (rb_co s) p"
      using inv ctx_parent_colour [of "rb_co s" ctx] by (auto simp: ins_inv_def split: option.splits)
    then have "is_red (up ctx) s = (Ret False, s)" by (auto simp: is_red_def rb_run split: option.splits)
    with pa have "insert_color_loop (Suc k) (root_ptr t) s = (Ret (), s)" by (simp add: sbind_def prog_eval)
    with ins_inv_plug [OF inv] up show ?thesis by (intro exI [of _ s] exI [of _ "plug ctx t"]) simp
  next
    case True
    then obtain p where p: "up ctx = Some p" "red (rb_co s) p" by (auto split: option.splits)
    obtain f h ctx' g q e' s1 where ft: "ctx = f # h # ctx'" "rb_pa s p = Some (Some g)" "rb_lf s g = Some q"
      "(if Some p = q then insert_fix_left (root_ptr t) (Some p) (Some g) s
       else insert_fix_right (root_ptr t) (Some p) (Some g) s) = (Ret e', s1)"
      "fixed s ctx' (plug [h] (plug [f] t)) e' s1" using insert_turn [OF inv p] by metis
    obtain t' where t': "zip_at s1 ctx' t'" "inorder t' = inorder (plug [h] (plug [f] t))"
      "coloured (rb_co s1) t'" "balanced (rb_co s1) t'" "ctx_balanced (rb_co s1) (black_height (rb_co s1) t') ctx'"
      "ctx_coloured (rb_co s1) ctx'" "ctx_rooted (rb_co s1) ctx'" "dom (rb_cells s1) = dom (rb_cells s)"
      "if root_black (rb_co s1) t' then \<exists>x p. e' = Some x \<and> rb_pa s1 x = Some (Some p) \<and> black (rb_co s1) p
       else e' = root_ptr t'"
      using fixed_inv [OF inv [unfolded ft(1)] ft(5)] by blast
    have io: "before ctx' @ inorder t' @ behind ctx' = before ctx @ inorder t @ behind ctx"
      unfolding t'(2) ft(1) using inorder_plug [of "f # h # ctx'" t] inorder_plug [of ctx' "plug [h] (plug [f] t)"]
      by (simp only: plug_Cons [of f "h # ctx'"] plug_Cons [of h ctx'])
    have "is_red (Some p) s = (Ret True, s)" using p(2) by (simp add: is_red_def rb_run)
    then have run: "insert_color_loop (Suc k) (root_ptr t) s = insert_color_loop k e' s1"
      using pa p(1) ft(2-4) by (simp add: sbind_def rb_access split: if_splits)
    show ?thesis
    proof (cases "root_black (rb_co s1) t'")
      case True
      with t'(9) obtain x y where xy: "e' = Some x" "rb_pa s1 x = Some (Some y)" "black (rb_co s1) y" by auto
      obtain k' where "k = Suc k'" using Suc.prems(2) ft(1) by (cases k) auto
      with xy have "insert_color_loop k e' s1 = (Ret (), s1)" by (simp add: is_red_def rb_run)
      with run t' True io show ?thesis
        using zip_at_plug [of s1 ctx' t']
        by (intro exI [of _ s1] exI [of _ "plug ctx' t'"]) (simp add: coloured_plug balanced_plug)
    next
      case False
      with t' have "ins_inv s1 ctx' t'" "e' = root_ptr t'" by (simp_all add: ins_inv_def)
      with Suc.IH [of s1 ctx' t'] Suc.prems(2) ft(1) run t'(8) show ?thesis unfolding io by simp
    qed
  qed
qed simp

lemma RB_INSERT_COLOR_ok:
  assumes "ins_inv s ctx t" "length ctx < k"
  shows "\<exists>s' T. RB_INSERT_COLOR k (root_ptr t) s = (Ret (), s') \<and> zip_at s' [] T
    \<and> inorder T = before ctx @ inorder t @ behind ctx \<and> rb_tree (rb_co s') T \<and> dom (rb_cells s') = dom (rb_cells s)"
proof -
  obtain s1 T where s1: "insert_color_loop k (root_ptr t) s = (Ret (), s1)" "zip_at s1 [] T"
    "inorder T = before ctx @ inorder t @ behind ctx" "coloured (rb_co s1) T" "balanced (rb_co s1) T"
    "dom (rb_cells s1) = dom (rb_cells s)"
    using insert_color_loop_ok [OF assms] by blast
  have "t \<noteq> Leaf" using assms(1) by (auto simp: ins_inv_def)
  with s1(3) obtain l x r where T: "T = Node l x r" by (cases T) auto
  have x: "x \<in> dom (rb_cells s1)" "RB_ROOT s1 = Some x" "x \<notin> set_tree l" "x \<notin> set_tree r"
    using s1(2) by (auto simp: T zip_at_def sub_at_Node intro: rb_alloc)
  have "RB_INSERT_COLOR k (root_ptr t) s = (Ret (), put_color x RB_BLACK s1)"
    using s1(1) x by (simp add: RB_INSERT_COLOR_def sseq_Ret sbind_Ret prog_eval rb_access)
  moreover have "rb_tree (rb_co (put_color x RB_BLACK s1)) T"
    using s1(4,5) x by (auto simp: rb_tree_def T)
  ultimately show ?thesis using s1(2,3,6) by (intro exI [of _ "put_color x RB_BLACK s1"] exI [of _ T]) simp
qed

text \<open>The search goes down to the element with the key or to its place.\<close>

fun went :: "int \<Rightarrow> ctx \<Rightarrow> bool" where
  "went cv [] \<longleftrightarrow> True"
| "went cv (Below_left x r # ctx) \<longleftrightarrow> cv < 0"
| "went cv (Below_right l x # ctx) \<longleftrightarrow> cv > 0"

definition parted :: "(nat \<Rightarrow> int) \<Rightarrow> ctx \<Rightarrow> bool" where
  "parted c ctx \<longleftrightarrow> (\<forall>y \<in> set (before ctx). c y > 0) \<and> (\<forall>y \<in> set (behind ctx). c y < 0)"

lemma insert_search_ok:
  "zip_at s ctx t \<Longrightarrow> height t < k \<Longrightarrow> steady c (inorder t) \<Longrightarrow> parted c ctx \<Longrightarrow> went cv ctx \<Longrightarrow>
   (\<exists>x \<in> set_tree t. c x = 0 \<and> insert_search c k (root_ptr t) (up ctx) cv s = (Ret (Inl (Some x)), s))
   \<or> (\<exists>ctx' cv'. insert_search c k (root_ptr t) (up ctx) cv s = (Ret (Inr (up ctx', cv')), s)
       \<and> plug ctx' Leaf = plug ctx t \<and> parted c ctx' \<and> went cv' ctx')"
proof (induction k arbitrary: ctx t cv)
  case (Suc k)
  show ?case
  proof (cases t)
    case Leaf
    with Suc.prems show ?thesis by (intro disjI2 exI [of _ ctx] exI [of _ cv]) (simp add: sret_def)
  next
    case (Node l x r)
    have f: "rb_lf s x = Some (root_ptr l)" "rb_rg s x = Some (root_ptr r)"
      using zip_fields [OF Suc.prems(1)] by (simp_all add: Node sub_at_Node)
    consider "c x < 0" | "c x > 0" | "c x = 0" by linarith
    then show ?thesis
    proof cases
      case 1
      with Suc.prems Suc.IH [of "Below_left x r # ctx" l "c x"] f Node show ?thesis
        by (auto simp: sbind_Ret rb_access zip_at_move parted_def)
    next
      case 2
      have "parted c (Below_right l x # ctx)"
        using 2 Suc.prems(3,4) unfolding Node parted_def by (auto simp: not_le)
      with 2 Suc.prems Suc.IH [of "Below_right l x # ctx" r "c x"] f Node show ?thesis
        by (auto simp: sbind_Ret rb_access zip_at_move)
    qed (use Node in \<open>auto simp: sret_def\<close>)
  qed
qed simp

lemma height_plug: "length ctx + height t \<le> height (plug ctx t)"
  by (induction ctx t rule: plug.induct) auto

definition new_node :: "nat \<Rightarrow> ptr \<Rightarrow> rb_head \<Rightarrow> rb_head" where
  "new_node e q s = put_color e RB_RED (put_left e None (put_right e None (put_parent e q s)))"

lemma RB_SET_run: "e \<in> dom (rb_cells s) \<Longrightarrow> RB_SET (Some e) q s = (Ret (), new_node e q s)"
  by (simp add: RB_SET_def new_node_def rb_run)

lemma hook_run:
  assumes "ctx_at s ctx p" "went cv ctx"
  shows "(if up ctx \<noteq> None then if cv < 0 then RB_LEFT_set (up ctx) q else RB_RIGHT_set (up ctx) q
    else smod (rb_put_root q)) s = (Ret (), hook ctx q s)"
  using assms rb_alloc(1) [of s _ p] rb_alloc(2) [of s _ p]
  by (cases "(cv, ctx)" rule: went.cases) (auto simp: rb_run)

lemma zip_at_new:
  assumes "zip_at s ctx Leaf" "e \<in> dom (rb_cells s)" "e \<notin> ctx_set ctx"
  shows "zip_at (hook ctx (Some e) (new_node e (up ctx) s)) ctx (Node Leaf e Leaf)"
    "rb_co (hook ctx (Some e) (new_node e (up ctx) s)) = (rb_co s)(e \<mapsto> RB_RED)"
proof -
  have c: "ctx_at (new_node e (up ctx) s) ctx None" "distinct (before ctx @ behind ctx)"
    using assms by (simp_all add: zip_at_def new_node_def)
  from ctx_at_hook [OF this, of "Some e"] assms
  show "zip_at (hook ctx (Some e) (new_node e (up ctx) s)) ctx (Node Leaf e Leaf)"
    by (auto simp: zip_at_def sub_at_Node new_node_def)
  show "rb_co (hook ctx (Some e) (new_node e (up ctx) s)) = (rb_co s)(e \<mapsto> RB_RED)"
    using assms by (simp add: new_node_def)
qed

lemma ins_inv_new:
  assumes "zip_at s ctx Leaf" "rb_tree (rb_co s) (plug ctx Leaf)" "e \<in> dom (rb_cells s)" "e \<notin> ctx_set ctx"
  shows "ins_inv (hook ctx (Some e) (new_node e (up ctx) s)) ctx (Node Leaf e Leaf)"
proof -
  have "ctx_coloured (rb_co s) ctx" "ctx_balanced (rb_co s) 0 ctx" "ctx_rooted (rb_co s) ctx"
    using assms(2) unfolding rb_tree_def coloured_plug balanced_plug root_black_plug
    by (auto split: if_splits)
  then show ?thesis
    using zip_at_new [OF assms(1,3,4)] assms(4) by (simp add: ins_inv_def)
qed

section \<open>Height and fuel\<close>

text \<open>The head of the file promises a height of at most 2 lg(n+1).\<close>

lemma black_height_bound: "balanced C t \<Longrightarrow> 2 ^ black_height C t \<le> size t + 1"
proof (induction t)
  case (Node l x r)
  then have "2 ^ black_height C l \<le> size l + 1" "2 ^ black_height C l \<le> size r + 1" by auto
  then show ?case by simp
qed simp

lemma height_black_height:
  "coloured C t \<Longrightarrow> balanced C t \<Longrightarrow> height t \<le> 2 * black_height C t + (if root_black C t then 0 else 1)"
proof (induction t)
  case (Node l x r)
  then show ?case by (auto split: if_splits)
qed simp

lemma rb_height:
  assumes "rb_tree C t"
  shows "real (height t) \<le> 2 * log 2 (real (size t + 1))"
proof -
  have "height t \<le> 2 * black_height C t" using assms height_black_height [of C t] by (simp add: rb_tree_def)
  moreover have "real (black_height C t) \<le> log 2 (real (size t + 1))"
    using assms black_height_bound [of C t] unfolding rb_tree_def by (intro le_log2_of_power) simp
  ultimately show ?thesis by linarith
qed

lemma height_size: "height (t :: nat tree) \<le> size t"
  by (induction t) auto

text \<open>Enough fuel for a tree of \<open>n\<close> elements.\<close>

definition enough :: "nat \<Rightarrow> nat \<Rightarrow> bool" where
  "enough n k \<longleftrightarrow> n < k \<or> 2 * log 2 (real (n + 1)) < real k"

lemma enough_size: "n < k \<Longrightarrow> enough n k"
  by (simp add: enough_def)

lemma enough_height:
  assumes "rb_tree C t" "enough (length (inorder t)) k"
  shows "height t < k"
  using assms(2) height_size [of t] rb_height [OF assms(1)] by (auto simp: enough_def)

section \<open>Insertion into the set\<close>

definition rb_at :: "rb_head \<Rightarrow> nat tree \<Rightarrow> bool" where
  "rb_at s t \<longleftrightarrow> zip_at s [] t \<and> rb_tree (rb_co s) t"

definition rb_list :: "rb_head \<Rightarrow> nat list \<Rightarrow> bool" where
  "rb_list s xs \<longleftrightarrow> (\<exists>t. rb_at s t \<and> inorder t = xs)"

lemma RB_INSERT_ok:
  assumes o: "orders cmp key" "by_key key xs" and s: "rb_list s xs" "enough (length xs) k" and e: "e \<in> dom (rb_cells s)"
  shows "\<exists>s'. RB_INSERT cmp k e s = (Ret (find (\<lambda>x. key x = key e) xs), s') \<and> rb_list s' (add_key key e xs)
    \<and> dom (rb_cells s') = dom (rb_cells s)"
proof -
  obtain t where t: "zip_at s [] t" "rb_tree (rb_co s) t" "inorder t = xs" using s(1) by (auto simp: rb_list_def rb_at_def)
  have root: "RB_ROOT s = root_ptr t" using t(1) by (simp add: zip_at_def)
  have k: "height t < k" using enough_height [OF t(2)] s(2) t(3) by simp
  have "parted (cmp e) []" by (simp add: parted_def)
  from insert_search_ok [OF t(1) k _ this, of 0] steady_by_key [OF o, of e] t(3)
  consider (found) x where "x \<in> set xs" "cmp e x = 0"
      "insert_search (cmp e) k (RB_ROOT s) None 0 s = (Ret (Inl (Some x)), s)"
    | (place) ctx cv where "insert_search (cmp e) k (RB_ROOT s) None 0 s = (Ret (Inr (up ctx, cv)), s)"
      "plug ctx Leaf = t" "parted (cmp e) ctx" "went cv ctx"
    unfolding root by auto
  then show ?thesis
  proof cases
    case found
    then have x: "key x = key e" using ordersD(3) [OF o(1), of e x] by simp
    with found find_key(1) [OF o(2), of e x] have "find (\<lambda>x. key x = key e) xs = Some x" by simp
    moreover have "add_key key e xs = xs" using found(1) x unfolding add_key_def by (metis imageI)
    moreover have "RB_INSERT cmp k e s = (Ret (Some x), s)"
      using found(3) by (simp add: RB_INSERT_def sbind_def prog_eval)
    ultimately show ?thesis using s(1) by simp
  next
    case place
    have ctx: "before ctx @ behind ctx = xs" using t(3) place(2) inorder_plug [of ctx Leaf] by simp
    have pk: "\<forall>y \<in> set (before ctx). key y < key e" "\<forall>y \<in> set (behind ctx). key e < key y"
      using place(3) ordersD [OF o(1)] by (simp_all add: parted_def)
    then have ne: "e \<notin> ctx_set ctx" by auto
    have z: "zip_at s ctx Leaf" using t(1) zip_at_plug [of s ctx Leaf] place(2) by simp
    define s1 where "s1 = hook ctx (Some e) (new_node e (up ctx) s)"
    have inv: "ins_inv s1 ctx (Node Leaf e Leaf)"
      unfolding s1_def using ins_inv_new [OF z _ e ne] t(2) place(2) by simp
    have "length ctx < k" using height_plug [of ctx Leaf] place(2) k by simp
    from RB_INSERT_COLOR_ok [OF inv this] obtain s2 T where s2: "RB_INSERT_COLOR k (Some e) s1 = (Ret (), s2)"
      "zip_at s2 [] T" "inorder T = before ctx @ e # behind ctx" "rb_tree (rb_co s2) T"
      "dom (rb_cells s2) = dom (rb_cells s1)" by auto
    have c1: "ctx_at (new_node e (up ctx) s) ctx None" using z e ne by (simp add: zip_at_def new_node_def)
    have "RB_INSERT cmp k e s = (Ret None, s2)"
      using place(1) RB_SET_run [OF e, of "up ctx"] hook_run [OF c1 place(4), of "Some e"] s2(1)
      by (simp only: RB_INSERT_def sbind_def sseq_def prog_eval cres.case sum.case prod.case s1_def)
    moreover have "find (\<lambda>x. key x = key e) xs = None"
      unfolding find_None_iff ctx [symmetric] using pk by (metis Un_iff less_irrefl set_append)
    moreover have "add_key key e xs = before ctx @ e # behind ctx" using add_key_between [OF pk] ctx by simp
    then have "rb_list s2 (add_key key e xs)" using s2 by (auto simp: rb_list_def rb_at_def)
    moreover have "dom (rb_cells s2) = dom (rb_cells s)" using s2(5) by (simp add: s1_def new_node_def)
    ultimately show ?thesis by auto
  qed
qed

end
