(* ===== verification/RedBlackRemove.thy ===== *)
theory RedBlackRemove
  imports RedBlackInsert
begin

text \<open>
  Removal from the red-black trees of utils/tree.h: the repair loop \<open>RB_REMOVE_COLOR\<close>, whose place has one
  black node too few, and \<open>RB_REMOVE\<close>.
\<close>

section \<open>Repairing below a parent\<close>

text \<open>What a \<open>break\<close> leaves: a valid subtree of black height \<open>h\<close>, with a black root when \<open>rb\<close>.\<close>

definition mended :: "rb_head \<Rightarrow> ctx \<Rightarrow> nat tree \<Rightarrow> nat \<Rightarrow> bool \<Rightarrow> rb_head \<Rightarrow> bool" where
  "mended s ctx t h rb s' \<longleftrightarrow> (\<exists>t'. zip_at s' ctx t' \<and> inorder t' = inorder t
    \<and> coloured (rb_co s') t' \<and> balanced (rb_co s') t' \<and> black_height (rb_co s') t' = h
    \<and> (rb \<longrightarrow> root_black (rb_co s') t')
    \<and> (\<forall>x. x \<notin> set_tree t \<longrightarrow> rb_co s' x = rb_co s x) \<and> dom (rb_cells s') = dom (rb_cells s))"

lemma remove_black_left_both:
  assumes z: "zip_at s ctx (Node t p (Node a y b))"
    and c: "root_black (rb_co s) a" "root_black (rb_co s) b" and col: "coloured (rb_co s) a" "coloured (rb_co s) b"
  shows "remove_black_left (Some p) (Some y) s = (Ret (Inr (up ctx, Some p)), put_color y RB_RED s)"
proof -
  have f: "sub_at s (up ctx) (Node t p (Node a y b))" using zip_fields [OF z] by simp
  then have m: "p \<in> dom (rb_cells s)" "y \<in> dom (rb_cells s)" by (auto simp: sub_at_Node intro: rb_alloc)
  have "is_black (root_ptr a) s = (Ret True, s)" "is_black (root_ptr b) s = (Ret True, s)"
    using is_black_ok [of s "Some y" a] is_black_ok [of s "Some y" b] f c col by (simp_all add: sub_at_Node)
  with f m show ?thesis by (simp add: remove_black_left_def sub_at_Node rb_run)
qed

lemma remove_black_right_both:
  assumes z: "zip_at s ctx (Node (Node b y a) p t)"
    and c: "root_black (rb_co s) a" "root_black (rb_co s) b" and col: "coloured (rb_co s) a" "coloured (rb_co s) b"
  shows "remove_black_right (Some p) (Some y) s = (Ret (Inr (up ctx, Some p)), put_color y RB_RED s)"
proof -
  have f: "sub_at s (up ctx) (Node (Node b y a) p t)" using zip_fields [OF z] by simp
  then have m: "p \<in> dom (rb_cells s)" "y \<in> dom (rb_cells s)" by (auto simp: sub_at_Node intro: rb_alloc)
  have "is_black (root_ptr a) s = (Ret True, s)" "is_black (root_ptr b) s = (Ret True, s)"
    using is_black_ok [of s "Some y" a] is_black_ok [of s "Some y" b] f c col by (simp_all add: sub_at_Node)
  with f m show ?thesis by (simp add: remove_black_right_def sub_at_Node rb_run)
qed

text \<open>The outer nephew is red: one rotation.\<close>

lemma remove_left_last:
  assumes z: "zip_at s ctx (Node t p (Node a y b))"
    and c: "black (rb_co s) y" "\<not> root_black (rb_co s) b" "root_black (rb_co s) t" "black (rb_co s) p \<or> red (rb_co s) p"
    and col: "coloured (rb_co s) t" "coloured (rb_co s) a" "coloured (rb_co s) b"
    and bal: "balanced (rb_co s) t" "balanced (rb_co s) (Node a y b)"
      "black_height (rb_co s) (Node a y b) = black_height (rb_co s) t + 1"
  shows "\<exists>s'. remove_last_left (Some p) (Some y) s = (Ret (Inl (RB_ROOT s')), s')
    \<and> mended s ctx (Node t p (Node a y b)) (black_height (rb_co s) t + 1 + (if black (rb_co s) p then 1 else 0))
        (black (rb_co s) p) s'"
proof -
  obtain bl n br where b: "b = Node bl n br" using c(2) by (cases b) auto
  obtain cp where cp: "rb_co s p = Some cp" "cp = RB_BLACK \<or> cp = RB_RED" using c(4) by auto
  have rn: "red (rb_co s) n" using c(2) col(3) b by auto
  have f: "sub_at s (up ctx) (Node t p (Node a y b))" and d: "distinct (inorder (Node t p (Node a y b)))"
    using zip_fields [OF z] by auto
  then have m: "p \<in> dom (rb_cells s)" "y \<in> dom (rb_cells s)" "n \<in> dom (rb_cells s)"
    by (auto simp: sub_at_Node b intro: rb_alloc)
  define s1 where "s1 = put_color n RB_BLACK (put_color p RB_BLACK (put_color y cp s))"
  have "zip_at s1 ctx (Node t p (Node a y b))" using z by (simp add: s1_def)
  from RB_ROTATE_LEFT_ok [OF this] obtain s2 where s2: "RB_ROTATE_LEFT (Some p) s1 = (Ret (Some y), s2)"
    "zip_at s2 ctx (Node (Node t p a) y b)" "rb_co s2 = rb_co s1" "dom (rb_cells s2) = dom (rb_cells s1)" by blast
  have run: "remove_last_left (Some p) (Some y) s = (Ret (Inl (RB_ROOT s2)), s2)"
    using f m s2(1) cp(1) b by (simp add: remove_last_left_def sub_at_Node rb_run flip: s1_def)
  have C: "rb_co s2 = (rb_co s)(y \<mapsto> cp, p \<mapsto> RB_BLACK, n \<mapsto> RB_BLACK)" using m s2(3) by (simp add: s1_def)
  have "mended s ctx (Node t p (Node a y b)) (black_height (rb_co s) t + 1 + (if black (rb_co s) p then 1 else 0))
        (black (rb_co s) p) s2"
    unfolding mended_def
    by (intro exI [of _ "Node (Node t p a) y b"] conjI)
      (use s2(2,4) d c(1,3) col bal rn cp C in \<open>auto simp: b s1_def\<close>)
  with run show ?thesis by blast
qed

lemma remove_right_last:
  assumes z: "zip_at s ctx (Node (Node b y a) p t)"
    and c: "black (rb_co s) y" "\<not> root_black (rb_co s) b" "root_black (rb_co s) t" "black (rb_co s) p \<or> red (rb_co s) p"
    and col: "coloured (rb_co s) t" "coloured (rb_co s) a" "coloured (rb_co s) b"
    and bal: "balanced (rb_co s) t" "balanced (rb_co s) (Node b y a)"
      "black_height (rb_co s) (Node b y a) = black_height (rb_co s) t + 1"
  shows "\<exists>s'. remove_last_right (Some p) (Some y) s = (Ret (Inl (RB_ROOT s')), s')
    \<and> mended s ctx (Node (Node b y a) p t) (black_height (rb_co s) t + 1 + (if black (rb_co s) p then 1 else 0))
        (black (rb_co s) p) s'"
proof -
  obtain bl n br where b: "b = Node br n bl" using c(2) by (cases b) auto
  obtain cp where cp: "rb_co s p = Some cp" "cp = RB_BLACK \<or> cp = RB_RED" using c(4) by auto
  have rn: "red (rb_co s) n" using c(2) col(3) b by auto
  have f: "sub_at s (up ctx) (Node (Node b y a) p t)" and d: "distinct (inorder (Node (Node b y a) p t))"
    using zip_fields [OF z] by auto
  then have m: "p \<in> dom (rb_cells s)" "y \<in> dom (rb_cells s)" "n \<in> dom (rb_cells s)"
    by (auto simp: sub_at_Node b intro: rb_alloc)
  define s1 where "s1 = put_color n RB_BLACK (put_color p RB_BLACK (put_color y cp s))"
  have "zip_at s1 ctx (Node (Node b y a) p t)" using z by (simp add: s1_def)
  from RB_ROTATE_RIGHT_ok [OF this] obtain s2 where s2: "RB_ROTATE_RIGHT (Some p) s1 = (Ret (Some y), s2)"
    "zip_at s2 ctx (Node b y (Node a p t))" "rb_co s2 = rb_co s1" "dom (rb_cells s2) = dom (rb_cells s1)" by blast
  have run: "remove_last_right (Some p) (Some y) s = (Ret (Inl (RB_ROOT s2)), s2)"
    using f m s2(1) cp(1) b by (simp add: remove_last_right_def sub_at_Node rb_run flip: s1_def)
  have C: "rb_co s2 = (rb_co s)(y \<mapsto> cp, p \<mapsto> RB_BLACK, n \<mapsto> RB_BLACK)" using m s2(3) by (simp add: s1_def)
  have "mended s ctx (Node (Node b y a) p t) (black_height (rb_co s) t + 1 + (if black (rb_co s) p then 1 else 0))
        (black (rb_co s) p) s2"
    unfolding mended_def
    by (intro exI [of _ "Node b y (Node a p t)"] conjI)
      (use s2(2,4) d c(1,3) col bal rn cp C in \<open>auto simp: b s1_def\<close>)
  with run show ?thesis by blast
qed

lemma mended_trans:
  assumes "mended s1 ctx t1 h rb s'" "inorder t1 = inorder t" "\<forall>x. x \<notin> set_tree t \<longrightarrow> rb_co s1 x = rb_co s x"
    "dom (rb_cells s1) = dom (rb_cells s)"
  shows "mended s ctx t h rb s'"
proof -
  have "set_tree t1 = set_tree t" using assms(2) by (metis set_inorder)
  with assms show ?thesis unfolding mended_def by auto
qed

lemma remove_black_left_mend:
  assumes z: "zip_at s ctx (Node t p (Node a y b))"
    and c: "black (rb_co s) y" "\<not> (root_black (rb_co s) a \<and> root_black (rb_co s) b)" "root_black (rb_co s) t"
      "black (rb_co s) p \<or> red (rb_co s) p"
    and col: "coloured (rb_co s) t" "coloured (rb_co s) a" "coloured (rb_co s) b"
    and bal: "balanced (rb_co s) t" "balanced (rb_co s) (Node a y b)"
      "black_height (rb_co s) (Node a y b) = black_height (rb_co s) t + 1"
  shows "\<exists>s'. remove_black_left (Some p) (Some y) s = (Ret (Inl (RB_ROOT s')), s')
    \<and> mended s ctx (Node t p (Node a y b)) (black_height (rb_co s) t + 1 + (if black (rb_co s) p then 1 else 0))
        (black (rb_co s) p) s'"
proof -
  have f: "sub_at s (up ctx) (Node t p (Node a y b))" and d: "distinct (inorder (Node t p (Node a y b)))"
    using zip_fields [OF z] by auto
  have m: "p \<in> dom (rb_cells s)" "y \<in> dom (rb_cells s)" using f by (auto simp: sub_at_Node intro: rb_alloc)
  have fy: "rb_lf s y = Some (root_ptr a)" "rb_rg s y = Some (root_ptr b)" using f by (simp_all add: sub_at_Node)
  have isb: "is_black (root_ptr a) s = (Ret (root_black (rb_co s) a), s)"
    "is_black (root_ptr b) s = (Ret (root_black (rb_co s) b), s)"
    using is_black_ok [of s "Some y" a] is_black_ok [of s "Some y" b] f col by (simp_all add: sub_at_Node)
  show ?thesis
  proof (cases "root_black (rb_co s) b")
    case False
    then show ?thesis
      using remove_left_last [OF z c(1) False c(3,4) col bal] isb fy
      by (simp add: remove_black_left_def sbind_def rb_access prog_eval)
  next
    case True
    with c(2) have na: "\<not> root_black (rb_co s) a" by simp
    then obtain al n ar where a: "a = Node al n ar" by (cases a) auto
    have rn: "red (rb_co s) n" using na col(2) a by auto
    have n: "n \<in> dom (rb_cells s)" using f by (auto simp: a sub_at_Node intro: rb_alloc)
    define s1 where "s1 = put_color y RB_RED (put_color n RB_BLACK s)"
    have "zip_at s1 (Below_right t p # ctx) (Node (Node al n ar) y b)" using z by (simp add: s1_def a zip_at_move)
    from RB_ROTATE_RIGHT_ok [OF this] obtain s2 where s2: "RB_ROTATE_RIGHT (Some y) s1 = (Ret (Some n), s2)"
      "zip_at s2 ctx (Node t p (Node al n (Node ar y b)))" "rb_co s2 = rb_co s1" "dom (rb_cells s2) = dom (rb_cells s1)"
      by (auto simp: zip_at_move)
    have C: "rb_co s2 = (rb_co s)(n \<mapsto> RB_BLACK, y \<mapsto> RB_RED)" using m n s2(3) by (simp add: s1_def)
    have cp: "rb_co s2 p = rb_co s p" using d by (auto simp: C a)
    have rp: "rb_rg s2 p = Some (Some n)" using zip_fields [OF s2(2)] by (simp add: sub_at_Node)
    have bh: "black_height (rb_co s2) t = black_height (rb_co s) t" using d by (auto simp: C a)
    have nb: "root_ptr a = Some n" by (simp add: a)
    have pre: "black (rb_co s2) n" "\<not> root_black (rb_co s2) (Node ar y b)" "root_black (rb_co s2) t"
      "black (rb_co s2) p \<or> red (rb_co s2) p" "coloured (rb_co s2) t" "coloured (rb_co s2) al"
      "coloured (rb_co s2) (Node ar y b)" "balanced (rb_co s2) t" "balanced (rb_co s2) (Node al n (Node ar y b))"
      "black_height (rb_co s2) (Node al n (Node ar y b)) = black_height (rb_co s2) t + 1"
      using c col bal d rn True by (auto simp: C a)
    from remove_left_last [OF s2(2) pre] obtain s3 where s3: "remove_last_left (Some p) (Some n) s2 = (Ret (Inl (RB_ROOT s3)), s3)"
      "mended s2 ctx (Node t p (Node al n (Node ar y b)))
        (black_height (rb_co s2) t + 1 + (if black (rb_co s2) p then 1 else 0)) (black (rb_co s2) p) s3" by blast
    have s1r: "RB_COLOR_set (Some n) RB_BLACK s = (Ret (), put_color n RB_BLACK s)"
      "RB_COLOR_set (Some y) RB_RED (put_color n RB_BLACK s) = (Ret (), s1)"
      using n m by (simp_all add: rb_access s1_def)
    have "remove_black_left (Some p) (Some y) s = (Ret (Inl (RB_ROOT s3)), s3)"
      using isb fy na True nb s1r s2(1) rp s3(1)
      by (simp add: remove_black_left_def sbind_def sseq_def rb_access prog_eval)
    moreover have "mended s ctx (Node t p (Node a y b))
      (black_height (rb_co s) t + 1 + (if black (rb_co s) p then 1 else 0)) (black (rb_co s) p) s3"
      by (rule mended_trans [OF s3(2) [unfolded bh cp]]) (use s2(4) in \<open>auto simp: C a s1_def\<close>)
    ultimately show ?thesis by blast
  qed
qed

lemma remove_black_right_mend:
  assumes z: "zip_at s ctx (Node (Node b y a) p t)"
    and c: "black (rb_co s) y" "\<not> (root_black (rb_co s) a \<and> root_black (rb_co s) b)" "root_black (rb_co s) t"
      "black (rb_co s) p \<or> red (rb_co s) p"
    and col: "coloured (rb_co s) t" "coloured (rb_co s) a" "coloured (rb_co s) b"
    and bal: "balanced (rb_co s) t" "balanced (rb_co s) (Node b y a)"
      "black_height (rb_co s) (Node b y a) = black_height (rb_co s) t + 1"
  shows "\<exists>s'. remove_black_right (Some p) (Some y) s = (Ret (Inl (RB_ROOT s')), s')
    \<and> mended s ctx (Node (Node b y a) p t) (black_height (rb_co s) t + 1 + (if black (rb_co s) p then 1 else 0))
        (black (rb_co s) p) s'"
proof -
  have f: "sub_at s (up ctx) (Node (Node b y a) p t)" and d: "distinct (inorder (Node (Node b y a) p t))"
    using zip_fields [OF z] by auto
  have m: "p \<in> dom (rb_cells s)" "y \<in> dom (rb_cells s)" using f by (auto simp: sub_at_Node intro: rb_alloc)
  have fy: "rb_rg s y = Some (root_ptr a)" "rb_lf s y = Some (root_ptr b)" using f by (simp_all add: sub_at_Node)
  have isb: "is_black (root_ptr a) s = (Ret (root_black (rb_co s) a), s)"
    "is_black (root_ptr b) s = (Ret (root_black (rb_co s) b), s)"
    using is_black_ok [of s "Some y" a] is_black_ok [of s "Some y" b] f col by (simp_all add: sub_at_Node)
  show ?thesis
  proof (cases "root_black (rb_co s) b")
    case False
    then show ?thesis
      using remove_right_last [OF z c(1) False c(3,4) col bal] isb fy
      by (simp add: remove_black_right_def sbind_def rb_access prog_eval)
  next
    case True
    with c(2) have na: "\<not> root_black (rb_co s) a" by simp
    then obtain al n ar where a: "a = Node ar n al" by (cases a) auto
    have rn: "red (rb_co s) n" using na col(2) a by auto
    have n: "n \<in> dom (rb_cells s)" using f by (auto simp: a sub_at_Node intro: rb_alloc)
    define s1 where "s1 = put_color y RB_RED (put_color n RB_BLACK s)"
    have "zip_at s1 (Below_left p t # ctx) (Node b y (Node ar n al))" using z by (simp add: s1_def a zip_at_move)
    from RB_ROTATE_LEFT_ok [OF this] obtain s2 where s2: "RB_ROTATE_LEFT (Some y) s1 = (Ret (Some n), s2)"
      "zip_at s2 ctx (Node (Node (Node b y ar) n al) p t)" "rb_co s2 = rb_co s1" "dom (rb_cells s2) = dom (rb_cells s1)"
      by (auto simp: zip_at_move)
    have C: "rb_co s2 = (rb_co s)(n \<mapsto> RB_BLACK, y \<mapsto> RB_RED)" using m n s2(3) by (simp add: s1_def)
    have cp: "rb_co s2 p = rb_co s p" using d by (auto simp: C a)
    have rp: "rb_lf s2 p = Some (Some n)" using zip_fields [OF s2(2)] by (simp add: sub_at_Node)
    have bh: "black_height (rb_co s2) t = black_height (rb_co s) t" using d by (auto simp: C a)
    have nb: "root_ptr a = Some n" by (simp add: a)
    have pre: "black (rb_co s2) n" "\<not> root_black (rb_co s2) (Node b y ar)" "root_black (rb_co s2) t"
      "black (rb_co s2) p \<or> red (rb_co s2) p" "coloured (rb_co s2) t" "coloured (rb_co s2) al"
      "coloured (rb_co s2) (Node b y ar)" "balanced (rb_co s2) t" "balanced (rb_co s2) (Node (Node b y ar) n al)"
      "black_height (rb_co s2) (Node (Node b y ar) n al) = black_height (rb_co s2) t + 1"
      using c col bal d rn True by (auto simp: C a)
    from remove_right_last [OF s2(2) pre] obtain s3 where s3: "remove_last_right (Some p) (Some n) s2 = (Ret (Inl (RB_ROOT s3)), s3)"
      "mended s2 ctx (Node (Node (Node b y ar) n al) p t)
        (black_height (rb_co s2) t + 1 + (if black (rb_co s2) p then 1 else 0)) (black (rb_co s2) p) s3" by blast
    have s1r: "RB_COLOR_set (Some n) RB_BLACK s = (Ret (), put_color n RB_BLACK s)"
      "RB_COLOR_set (Some y) RB_RED (put_color n RB_BLACK s) = (Ret (), s1)"
      using n m by (simp_all add: rb_access s1_def)
    have "remove_black_right (Some p) (Some y) s = (Ret (Inl (RB_ROOT s3)), s3)"
      using isb fy na True nb s1r s2(1) rp s3(1)
      by (simp add: remove_black_right_def sbind_def sseq_def rb_access prog_eval)
    moreover have "mended s ctx (Node (Node b y a) p t)
      (black_height (rb_co s) t + 1 + (if black (rb_co s) p then 1 else 0)) (black (rb_co s) p) s3"
      by (rule mended_trans [OF s3(2) [unfolded bh cp]]) (use s2(4) in \<open>auto simp: C a s1_def\<close>)
    ultimately show ?thesis by blast
  qed
qed

section \<open>One turn of the loop\<close>

text \<open>The root may still be red below a red parent: it is blackened when the loop ends there.\<close>

fun coloured_under :: "colours \<Rightarrow> nat tree \<Rightarrow> bool" where
  "coloured_under C Leaf \<longleftrightarrow> True"
| "coloured_under C (Node l x r) \<longleftrightarrow> (black C x \<or> red C x) \<and> coloured C l \<and> coloured C r"

lemma coloured_under: "coloured C t \<Longrightarrow> coloured_under C t" "coloured_under C t \<Longrightarrow> root_black C t \<Longrightarrow> coloured C t"
  by (cases t; auto)+

text \<open>The place has one black node too few.\<close>

definition rem_inv :: "rb_head \<Rightarrow> ctx \<Rightarrow> nat tree \<Rightarrow> bool" where
  "rem_inv s ctx t \<longleftrightarrow> zip_at s ctx t \<and> coloured_under (rb_co s) t \<and> balanced (rb_co s) t
    \<and> ctx_balanced (rb_co s) (black_height (rb_co s) t + 1) ctx \<and> ctx_coloured (rb_co s) ctx
    \<and> ctx_rooted (rb_co s) ctx"

definition whole :: "rb_head \<Rightarrow> nat list \<Rightarrow> rb_head \<Rightarrow> bool" where
  "whole s xs s' \<longleftrightarrow> (\<exists>t. zip_at s' [] t \<and> inorder t = xs \<and> coloured (rb_co s') t \<and> balanced (rb_co s') t)
    \<and> dom (rb_cells s') = dom (rb_cells s)"

definition turned :: "rb_head \<Rightarrow> ctx \<Rightarrow> nat tree \<Rightarrow> ptr + ptr \<times> ptr \<Rightarrow> rb_head \<Rightarrow> bool" where
  "turned s ctx t res s' \<longleftrightarrow> (case res of
      Inl e \<Rightarrow> e = RB_ROOT s' \<and> whole s (inorder (plug ctx t)) s'
    | Inr (q, e) \<Rightarrow> \<exists>ctx' t'. q = up ctx' \<and> e = root_ptr t' \<and> rem_inv s' ctx' t'
        \<and> inorder (plug ctx' t') = inorder (plug ctx t) \<and> dom (rb_cells s') = dom (rb_cells s)
        \<and> (length ctx' < length ctx \<or> length ctx' = length ctx \<and> \<not> root_black (rb_co s') t'))"

lemma mended_whole:
  assumes m: "mended s1 ctx t h rb s'" and z: "distinct (before ctx @ inorder t @ behind ctx)"
    and c: "ctx_balanced (rb_co s1) h ctx" "ctx_coloured (rb_co s1) ctx"
      "\<not> rb \<Longrightarrow> case up ctx of None \<Rightarrow> True | Some y \<Rightarrow> black (rb_co s1) y"
  shows "whole s1 (before ctx @ inorder t @ behind ctx) s'"
proof -
  from m obtain t' where t': "zip_at s' ctx t'" "inorder t' = inorder t" "coloured (rb_co s') t'"
    "balanced (rb_co s') t'" "black_height (rb_co s') t' = h" "rb \<longrightarrow> root_black (rb_co s') t'"
    "\<forall>x. x \<notin> set_tree t \<longrightarrow> rb_co s' x = rb_co s1 x" "dom (rb_cells s') = dom (rb_cells s1)"
    unfolding mended_def by blast
  have "set_tree t \<inter> ctx_set ctx = {}" using z by auto
  with t'(7) have ag: "\<forall>x \<in> ctx_set ctx. rb_co s' x = rb_co s1 x" by blast
  have "case up ctx of None \<Rightarrow> True | Some y \<Rightarrow> black (rb_co s') y" if "\<not> rb"
    using c(3) [OF that] ag up_in_ctx [of ctx] by (auto split: option.splits)
  then have "coloured (rb_co s') (plug ctx t')" "balanced (rb_co s') (plug ctx t')"
    using t' c(1,2) ctx_agree [OF ag] by (auto simp: coloured_plug balanced_plug)
  with t'(1,2,8) show ?thesis
    unfolding whole_def using zip_at_plug [of s' ctx t'] by (intro conjI exI [of _ "plug ctx t'"]) simp_all
qed

lemma black_left_ok:
  assumes inv: "rem_inv s (Below_left p (Node a y b) # ctx) t" and rb: "root_black (rb_co s) t"
    and y: "black (rb_co s) y"
  shows "(\<exists>s'. remove_black_left (Some p) (Some y) s = (Ret (Inl (RB_ROOT s')), s')
      \<and> whole s (inorder (plug ctx (Node t p (Node a y b)))) s')
    \<or> (\<exists>s'. remove_black_left (Some p) (Some y) s = (Ret (Inr (up ctx, Some p)), s')
      \<and> rem_inv s' ctx (Node t p (Node a y b)) \<and> rb_co s' p = rb_co s p \<and> dom (rb_cells s') = dom (rb_cells s))"
proof -
  let ?C = "rb_co s"
  have z: "zip_at s ctx (Node t p (Node a y b))" using inv by (simp add: rem_inv_def zip_at_move)
  have c: "coloured ?C t" "coloured ?C (Node a y b)" "black ?C p \<or> red ?C p" "ctx_coloured ?C ctx" "balanced ?C t"
      "balanced ?C (Node a y b)" "black_height ?C (Node a y b) = black_height ?C t + 1"
    and cp: "red ?C p \<Longrightarrow> case up ctx of None \<Rightarrow> True | Some q \<Rightarrow> black ?C q"
    and cb: "ctx_balanced ?C (black_height ?C t + 1 + (if black ?C p then 1 else 0)) ctx" and cr: "ctx_rooted ?C ctx"
    using inv rb coloured_under(2) [of ?C t] unfolding rem_inv_def by (auto split: if_splits)
  have d: "distinct (before ctx @ inorder (Node t p (Node a y b)) @ behind ctx)" using z by (simp add: zip_at_def)
  show ?thesis
  proof (cases "root_black ?C a \<and> root_black ?C b")
    case True
    let ?s = "put_color y RB_RED s"
    have C: "rb_co ?s = ?C(y \<mapsto> RB_RED)" using zip_fields [OF z] by (auto simp: sub_at_Node dest: rb_alloc)
    have "rem_inv ?s ctx (Node t p (Node a y b))"
      using z c cb cr d True y unfolding rem_inv_def by (auto simp: C)
    moreover have "rb_co ?s p = ?C p" using d by (auto simp: C)
    ultimately show ?thesis using remove_black_left_both [OF z] True c(2) by auto
  next
    case False
    from remove_black_left_mend [OF z y False rb c(3,1) _ _ c(5-7)] c(2) obtain s' where
      s': "remove_black_left (Some p) (Some y) s = (Ret (Inl (RB_ROOT s')), s')"
      "mended s ctx (Node t p (Node a y b)) (black_height ?C t + 1 + (if black ?C p then 1 else 0)) (black ?C p) s'"
      by auto
    have "whole s (before ctx @ inorder (Node t p (Node a y b)) @ behind ctx) s'"
      by (rule mended_whole [OF s'(2) d cb c(4)]) (use c(3) cp in blast)
    with s'(1) show ?thesis by auto
  qed
qed

lemma black_right_ok:
  assumes inv: "rem_inv s (Below_right (Node b y a) p # ctx) t" and rb: "root_black (rb_co s) t"
    and y: "black (rb_co s) y"
  shows "(\<exists>s'. remove_black_right (Some p) (Some y) s = (Ret (Inl (RB_ROOT s')), s')
      \<and> whole s (inorder (plug ctx (Node (Node b y a) p t))) s')
    \<or> (\<exists>s'. remove_black_right (Some p) (Some y) s = (Ret (Inr (up ctx, Some p)), s')
      \<and> rem_inv s' ctx (Node (Node b y a) p t) \<and> rb_co s' p = rb_co s p \<and> dom (rb_cells s') = dom (rb_cells s))"
proof -
  let ?C = "rb_co s"
  have z: "zip_at s ctx (Node (Node b y a) p t)" using inv by (simp add: rem_inv_def zip_at_move)
  have c: "coloured ?C t" "coloured ?C (Node b y a)" "black ?C p \<or> red ?C p" "ctx_coloured ?C ctx" "balanced ?C t"
      "balanced ?C (Node b y a)" "black_height ?C (Node b y a) = black_height ?C t + 1"
    and cp: "red ?C p \<Longrightarrow> case up ctx of None \<Rightarrow> True | Some q \<Rightarrow> black ?C q"
    and cb: "ctx_balanced ?C (black_height ?C t + 1 + (if black ?C p then 1 else 0)) ctx" and cr: "ctx_rooted ?C ctx"
    using inv rb coloured_under(2) [of ?C t] unfolding rem_inv_def by (auto split: if_splits)
  have d: "distinct (before ctx @ inorder (Node (Node b y a) p t) @ behind ctx)" using z by (simp add: zip_at_def)
  show ?thesis
  proof (cases "root_black ?C a \<and> root_black ?C b")
    case True
    let ?s = "put_color y RB_RED s"
    have C: "rb_co ?s = ?C(y \<mapsto> RB_RED)" using zip_fields [OF z] by (auto simp: sub_at_Node dest: rb_alloc)
    have "rem_inv ?s ctx (Node (Node b y a) p t)"
      using z c cb cr d True y unfolding rem_inv_def by (auto simp: C)
    moreover have "rb_co ?s p = ?C p" using d by (auto simp: C)
    ultimately show ?thesis using remove_black_right_both [OF z] True c(2) by auto
  next
    case False
    from remove_black_right_mend [OF z y False rb c(3,1) _ _ c(5-7)] c(2) obtain s' where
      s': "remove_black_right (Some p) (Some y) s = (Ret (Inl (RB_ROOT s')), s')"
      "mended s ctx (Node (Node b y a) p t) (black_height ?C t + 1 + (if black ?C p then 1 else 0)) (black ?C p) s'"
      by auto
    have "whole s (before ctx @ inorder (Node (Node b y a) p t) @ behind ctx) s'"
      by (rule mended_whole [OF s'(2) d cb c(4)]) (use c(3) cp in blast)
    with s'(1) show ?thesis by auto
  qed
qed

lemma fix_left_ok:
  assumes inv: "rem_inv s (Below_left p w # ctx) t" and rb: "root_black (rb_co s) t"
  shows "\<exists>res s'. remove_fix_left (Some p) s = (Ret res, s') \<and> turned s (Below_left p w # ctx) t res s'"
proof -
  let ?C = "rb_co s"
  have "black_height ?C w = black_height ?C t + 1" using inv by (simp add: rem_inv_def)
  then obtain a y b where w: "w = Node a y b" by (cases w) auto
  have z: "zip_at s ctx (Node t p (Node a y b))" using inv by (simp add: rem_inv_def zip_at_move w)
  have f: "rb_rg s p = Some (Some y)" "p \<in> dom (rb_cells s)" "y \<in> dom (rb_cells s)"
    using zip_fields [OF z] by (auto simp: sub_at_Node intro: rb_alloc)
  show ?thesis
  proof (cases "black ?C y")
    case y: True
    from f y have run: "remove_fix_left (Some p) s = remove_black_left (Some p) (Some y) s"
      by (simp add: remove_fix_left_def sbind_def rb_access prog_eval)
    from black_left_ok [OF inv [unfolded w] rb y] show ?thesis unfolding run w
    proof (elim disjE exE conjE)
      fix s' assume "remove_black_left (Some p) (Some y) s = (Ret (Inl (RB_ROOT s')), s')"
        "whole s (inorder (plug ctx (Node t p (Node a y b)))) s'"
      then show "\<exists>res s'. remove_black_left (Some p) (Some y) s = (Ret res, s')
        \<and> turned s (Below_left p (Node a y b) # ctx) t res s'" by (auto simp: turned_def)
    next
      fix s' assume "remove_black_left (Some p) (Some y) s = (Ret (Inr (up ctx, Some p)), s')"
        "rem_inv s' ctx (Node t p (Node a y b))" "dom (rb_cells s') = dom (rb_cells s)"
      then show "\<exists>res s'. remove_black_left (Some p) (Some y) s = (Ret res, s')
        \<and> turned s (Below_left p (Node a y b) # ctx) t res s'"
        by (intro exI conjI) (auto simp: turned_def intro!: exI [of _ ctx] exI [of _ "Node t p (Node a y b)"])
    qed
  next
    case False
    have c: "red ?C y" "black ?C p" "root_black ?C a" "root_black ?C b" "coloured ?C a" "coloured ?C b" "coloured_under ?C t"
      "ctx_coloured ?C ctx" "balanced ?C t" "balanced ?C a" "balanced ?C b" "black_height ?C a = black_height ?C t + 1"
      "black_height ?C b = black_height ?C t + 1" "ctx_balanced ?C (black_height ?C t + 2) ctx" "ctx_rooted ?C ctx"
      using inv False unfolding rem_inv_def w by (auto split: if_splits)
    obtain a1 v a2 where a: "a = Node a1 v a2" using c(12) by (cases a) auto
    define s1 where "s1 = put_color p RB_RED (put_color y RB_BLACK s)"
    have "zip_at s1 ctx (Node t p (Node a y b))" using z by (simp add: s1_def)
    from RB_ROTATE_LEFT_ok [OF this] obtain s2 where s2: "RB_ROTATE_LEFT (Some p) s1 = (Ret (Some y), s2)"
      "zip_at s2 ctx (Node (Node t p a) y b)" "rb_co s2 = rb_co s1" "dom (rb_cells s2) = dom (rb_cells s1)" by blast
    have d: "distinct (before ctx @ inorder (Node t p (Node a y b)) @ behind ctx)" using z by (simp add: zip_at_def)
    have C: "rb_co s2 = ?C(y \<mapsto> RB_BLACK, p \<mapsto> RB_RED)" using f s2(3) by (simp add: s1_def)
    have cu: "coloured_under (rb_co s2) t" using c(7) d by (cases t) (auto simp: C)
    have inv2: "rem_inv s2 (Below_left p (Node a1 v a2) # Below_left y b # ctx) t"
      using s2(2) c d cu unfolding rem_inv_def by (auto simp: C zip_at_move a)
    have rb2: "root_black (rb_co s2) t" "black (rb_co s2) v" "rb_rg s2 p = Some (Some v)" "red (rb_co s2) p"
      using rb c(3) d zip_fields [OF s2(2)] by (auto simp: C a sub_at_Node)
    have "RB_SET_BLACKRED (Some y) (Some p) s = (Ret (), s1)" using f by (simp add: RB_SET_BLACKRED_def rb_run s1_def)
    then have run: "remove_fix_left (Some p) s = remove_black_left (Some p) (Some v) s2"
      using f c(1) s2(1) rb2(3) by (simp add: remove_fix_left_def sbind_def sseq_def rb_access prog_eval)
    have dm: "dom (rb_cells s2) = dom (rb_cells s)" using s2(4) by (simp add: s1_def)
    from black_left_ok [OF inv2 rb2(1,2)] show ?thesis unfolding run
    proof (elim disjE exE conjE)
      fix s' assume "remove_black_left (Some p) (Some v) s2 = (Ret (Inl (RB_ROOT s')), s')"
        "whole s2 (inorder (plug (Below_left y b # ctx) (Node t p (Node a1 v a2)))) s'"
      then show "\<exists>res s'. remove_black_left (Some p) (Some v) s2 = (Ret res, s') \<and> turned s (Below_left p w # ctx) t res s'"
        by (auto simp: turned_def whole_def dm w a)
    next
      fix s' assume r: "remove_black_left (Some p) (Some v) s2 = (Ret (Inr (up (Below_left y b # ctx), Some p)), s')"
        "rem_inv s' (Below_left y b # ctx) (Node t p (Node a1 v a2))" "rb_co s' p = rb_co s2 p"
        "dom (rb_cells s') = dom (rb_cells s2)"
      have "turned s (Below_left p w # ctx) t (Inr (up (Below_left y b # ctx), Some p)) s'"
        unfolding turned_def sum.case prod.case
        by (rule exI [of _ "Below_left y b # ctx"], rule exI [of _ "Node t p (Node a1 v a2)"])
          (use r rb2(4) dm in \<open>simp add: w a\<close>)
      with r(1) show "\<exists>res s'. remove_black_left (Some p) (Some v) s2 = (Ret res, s')
        \<and> turned s (Below_left p w # ctx) t res s'" by blast
    qed
  qed
qed

lemma fix_right_ok:
  assumes inv: "rem_inv s (Below_right w p # ctx) t" and rb: "root_black (rb_co s) t"
  shows "\<exists>res s'. remove_fix_right (Some p) s = (Ret res, s') \<and> turned s (Below_right w p # ctx) t res s'"
proof -
  let ?C = "rb_co s"
  have "black_height ?C w = black_height ?C t + 1" using inv by (simp add: rem_inv_def)
  then obtain a y b where w: "w = Node b y a" by (cases w) auto
  have z: "zip_at s ctx (Node (Node b y a) p t)" using inv by (simp add: rem_inv_def zip_at_move w)
  have f: "rb_lf s p = Some (Some y)" "p \<in> dom (rb_cells s)" "y \<in> dom (rb_cells s)"
    using zip_fields [OF z] by (auto simp: sub_at_Node intro: rb_alloc)
  show ?thesis
  proof (cases "black ?C y")
    case y: True
    from f y have run: "remove_fix_right (Some p) s = remove_black_right (Some p) (Some y) s"
      by (simp add: remove_fix_right_def sbind_def rb_access prog_eval)
    from black_right_ok [OF inv [unfolded w] rb y] show ?thesis unfolding run w
    proof (elim disjE exE conjE)
      fix s' assume "remove_black_right (Some p) (Some y) s = (Ret (Inl (RB_ROOT s')), s')"
        "whole s (inorder (plug ctx (Node (Node b y a) p t))) s'"
      then show "\<exists>res s'. remove_black_right (Some p) (Some y) s = (Ret res, s')
        \<and> turned s (Below_right (Node b y a) p # ctx) t res s'" by (auto simp: turned_def)
    next
      fix s' assume "remove_black_right (Some p) (Some y) s = (Ret (Inr (up ctx, Some p)), s')"
        "rem_inv s' ctx (Node (Node b y a) p t)" "dom (rb_cells s') = dom (rb_cells s)"
      then show "\<exists>res s'. remove_black_right (Some p) (Some y) s = (Ret res, s')
        \<and> turned s (Below_right (Node b y a) p # ctx) t res s'"
        by (intro exI conjI) (auto simp: turned_def intro!: exI [of _ ctx] exI [of _ "Node (Node b y a) p t"])
    qed
  next
    case False
    have c: "red ?C y" "black ?C p" "root_black ?C a" "root_black ?C b" "coloured ?C a" "coloured ?C b" "coloured_under ?C t"
      "ctx_coloured ?C ctx" "balanced ?C t" "balanced ?C a" "balanced ?C b" "black_height ?C a = black_height ?C t + 1"
      "black_height ?C b = black_height ?C t + 1" "ctx_balanced ?C (black_height ?C t + 2) ctx" "ctx_rooted ?C ctx"
      using inv False unfolding rem_inv_def w by (auto split: if_splits)
    obtain a1 v a2 where a: "a = Node a2 v a1" using c(12) by (cases a) auto
    define s1 where "s1 = put_color p RB_RED (put_color y RB_BLACK s)"
    have "zip_at s1 ctx (Node (Node b y a) p t)" using z by (simp add: s1_def)
    from RB_ROTATE_RIGHT_ok [OF this] obtain s2 where s2: "RB_ROTATE_RIGHT (Some p) s1 = (Ret (Some y), s2)"
      "zip_at s2 ctx (Node b y (Node a p t))" "rb_co s2 = rb_co s1" "dom (rb_cells s2) = dom (rb_cells s1)" by blast
    have d: "distinct (before ctx @ inorder (Node (Node b y a) p t) @ behind ctx)" using z by (simp add: zip_at_def)
    have C: "rb_co s2 = ?C(y \<mapsto> RB_BLACK, p \<mapsto> RB_RED)" using f s2(3) by (simp add: s1_def)
    have cu: "coloured_under (rb_co s2) t" using c(7) d by (cases t) (auto simp: C)
    have inv2: "rem_inv s2 (Below_right (Node a2 v a1) p # Below_right b y # ctx) t"
      using s2(2) c d cu unfolding rem_inv_def by (auto simp: C zip_at_move a)
    have rb2: "root_black (rb_co s2) t" "black (rb_co s2) v" "rb_lf s2 p = Some (Some v)" "red (rb_co s2) p"
      using rb c(3) d zip_fields [OF s2(2)] by (auto simp: C a sub_at_Node)
    have "RB_SET_BLACKRED (Some y) (Some p) s = (Ret (), s1)" using f by (simp add: RB_SET_BLACKRED_def rb_run s1_def)
    then have run: "remove_fix_right (Some p) s = remove_black_right (Some p) (Some v) s2"
      using f c(1) s2(1) rb2(3) by (simp add: remove_fix_right_def sbind_def sseq_def rb_access prog_eval)
    have dm: "dom (rb_cells s2) = dom (rb_cells s)" using s2(4) by (simp add: s1_def)
    from black_right_ok [OF inv2 rb2(1,2)] show ?thesis unfolding run
    proof (elim disjE exE conjE)
      fix s' assume "remove_black_right (Some p) (Some v) s2 = (Ret (Inl (RB_ROOT s')), s')"
        "whole s2 (inorder (plug (Below_right b y # ctx) (Node (Node a2 v a1) p t))) s'"
      then show "\<exists>res s'. remove_black_right (Some p) (Some v) s2 = (Ret res, s') \<and> turned s (Below_right w p # ctx) t res s'"
        by (auto simp: turned_def whole_def dm w a)
    next
      fix s' assume r: "remove_black_right (Some p) (Some v) s2 = (Ret (Inr (up (Below_right b y # ctx), Some p)), s')"
        "rem_inv s' (Below_right b y # ctx) (Node (Node a2 v a1) p t)" "rb_co s' p = rb_co s2 p"
        "dom (rb_cells s') = dom (rb_cells s2)"
      have "turned s (Below_right w p # ctx) t (Inr (up (Below_right b y # ctx), Some p)) s'"
        unfolding turned_def sum.case prod.case
        by (rule exI [of _ "Below_right b y # ctx"], rule exI [of _ "Node (Node a2 v a1) p t"])
          (use r rb2(4) dm in \<open>simp add: w a\<close>)
      with r(1) show "\<exists>res s'. remove_black_right (Some p) (Some v) s2 = (Ret res, s')
        \<and> turned s (Below_right w p # ctx) t res s'" by blast
    qed
  qed
qed

section \<open>The loop\<close>

lemma is_black_under:
  "sub_at s q t \<Longrightarrow> coloured_under (rb_co s) t \<Longrightarrow> is_black (root_ptr t) s = (Ret (root_black (rb_co s) t), s)"
  by (cases t) (auto simp: is_black_def rb_run)

text \<open>The place is not the root of a tree it has a context in.\<close>

lemma root_in_ctx: "ctx_at s ctx p \<Longrightarrow> RB_ROOT s = p \<or> (\<exists>x \<in> ctx_set ctx. RB_ROOT s = Some x)"
  by (induction s ctx p rule: ctx_at.induct) auto

lemma root_in_ctx2: "ctx_at s ctx p \<Longrightarrow> ctx \<noteq> [] \<Longrightarrow> \<exists>x \<in> ctx_set ctx. RB_ROOT s = Some x"
proof (cases ctx rule: up.cases)
  case (2 x r c)
  assume "ctx_at s ctx p"
  with root_in_ctx [of s c "Some x"] 2 show ?thesis by auto
next
  case (3 l x c)
  assume "ctx_at s ctx p"
  with root_in_ctx [of s c "Some x"] 3 show ?thesis by auto
qed simp

lemma root_elsewhere:
  assumes "zip_at s ctx t" "ctx \<noteq> []"
  shows "RB_ROOT s \<noteq> root_ptr t"
proof -
  obtain x where "x \<in> ctx_set ctx" "RB_ROOT s = Some x"
    using assms root_in_ctx2 [of s ctx "root_ptr t"] by (auto simp: zip_at_def)
  moreover have "set_tree t \<inter> ctx_set ctx = {}" using assms(1) by (auto simp: zip_at_def)
  ultimately show ?thesis by (cases t) auto
qed

text \<open>Where the loop ends: at a place that can be blackened, or in a tree that is whole.\<close>

definition ended :: "rb_head \<Rightarrow> nat list \<Rightarrow> ptr \<Rightarrow> rb_head \<Rightarrow> bool" where
  "ended s xs e s' \<longleftrightarrow> dom (rb_cells s') = dom (rb_cells s) \<and>
    ((\<exists>ctx t. e = root_ptr t \<and> rem_inv s' ctx t \<and> inorder (plug ctx t) = xs \<and> (root_black (rb_co s') t \<longrightarrow> ctx = []))
     \<or> (e = RB_ROOT s' \<and> whole s xs s'))"

lemma fix_ok:
  assumes "rem_inv s ctx t" "root_black (rb_co s) t" "ctx \<noteq> []"
  shows "\<exists>res s'. sbind (RB_LEFT (up ctx)) (\<lambda>l. if l = root_ptr t then remove_fix_left (up ctx) else remove_fix_right (up ctx)) s
      = (Ret res, s') \<and> turned s ctx t res s'"
proof (cases ctx rule: up.cases)
  case (2 p w c)
  have "rb_lf s p = Some (root_ptr t)" using assms(1) by (simp add: 2 rem_inv_def zip_at_def)
  with fix_left_ok [of s p w c t] assms(1,2) show ?thesis by (simp add: 2 sbind_Ret rb_access)
next
  case (3 w p c)
  have f: "rb_lf s p = Some (root_ptr w)" "black_height (rb_co s) w = black_height (rb_co s) t + 1"
    "distinct (inorder w @ p # inorder t)"
    using assms(1) by (auto simp: 3 rem_inv_def zip_at_def)
  then have "root_ptr w \<noteq> root_ptr t" by (cases w; cases t) auto
  with f(1) fix_right_ok [of s w p c t] assms(1,2) show ?thesis by (simp add: 3 sbind_Ret rb_access)
qed (use assms(3) in simp)

lemma remove_color_loop_ok:
  "rem_inv s ctx t \<Longrightarrow> (if root_black (rb_co s) t then length ctx < k else 0 < k) \<Longrightarrow>
   \<exists>e s'. remove_color_loop k (up ctx) (root_ptr t) s = (Ret e, s') \<and> ended s (inorder (plug ctx t)) e s'"
proof (induction k arbitrary: s ctx t)
  case 0
  then show ?case by (simp split: if_splits)
next
  case (Suc k)
  note inv = Suc.prems(1)
  have b: "is_black (root_ptr t) s = (Ret (root_black (rb_co s) t), s)"
    using inv is_black_under [of s "up ctx" t] zip_fields [of s ctx t] by (simp add: rem_inv_def)
  show ?case
  proof (cases "root_black (rb_co s) t \<and> ctx \<noteq> []")
    case False
    have "\<not> (root_black (rb_co s) t \<and> root_ptr t \<noteq> RB_ROOT s)"
      using False inv by (auto simp: rem_inv_def zip_at_def)
    then have "remove_color_loop (Suc k) (up ctx) (root_ptr t) s = (Ret (root_ptr t), s)"
      using b by (auto simp: sbind_def prog_eval)
    moreover have "ended s (inorder (plug ctx t)) (root_ptr t) s" using inv False unfolding ended_def by blast
    ultimately show ?thesis by blast
  next
    case True
    then have rb: "root_black (rb_co s) t" "ctx \<noteq> []" by simp_all
    have ne: "root_ptr t \<noteq> RB_ROOT s" using root_elsewhere [of s ctx t] inv rb(2) by (auto simp: rem_inv_def)
    obtain res s1 where s1: "sbind (RB_LEFT (up ctx)) (\<lambda>l. if l = root_ptr t then remove_fix_left (up ctx)
      else remove_fix_right (up ctx)) s = (Ret res, s1)" "turned s ctx t res s1" using fix_ok [OF inv rb] by blast
    show ?thesis
    proof (cases res)
      case (Inl e)
      then have "remove_color_loop (Suc k) (up ctx) (root_ptr t) s = (Ret e, s1)"
        using b rb(1) ne s1(1) by (simp add: sbind_def prog_eval)
      moreover have "ended s (inorder (plug ctx t)) e s1"
        using s1(2) unfolding Inl turned_def ended_def whole_def by auto
      ultimately show ?thesis by blast
    next
      case (Inr qe)
      obtain q e where qe: "qe = (q, e)" by (cases qe)
      from s1(2) obtain ctx' t' where t': "q = up ctx'" "e = root_ptr t'" "rem_inv s1 ctx' t'"
        "inorder (plug ctx' t') = inorder (plug ctx t)" "dom (rb_cells s1) = dom (rb_cells s)"
        "length ctx' < length ctx \<or> length ctx' = length ctx \<and> \<not> root_black (rb_co s1) t'"
        unfolding turned_def Inr qe by auto
      have "remove_color_loop (Suc k) (up ctx) (root_ptr t) s = remove_color_loop k q e s1"
        using b rb(1) ne s1(1) by (simp add: sbind_def prog_eval Inr qe)
      moreover have "if root_black (rb_co s1) t' then length ctx' < k else 0 < k"
        using t'(6) Suc.prems(2) rb by (cases ctx) (auto split: if_splits)
      then obtain e' s' where "remove_color_loop k (up ctx') (root_ptr t') s1 = (Ret e', s')"
        "ended s1 (inorder (plug ctx' t')) e' s'" using Suc.IH [OF t'(3)] by blast
      ultimately show ?thesis using t'(1,2,4,5) by (auto simp: ended_def whole_def)
    qed
  qed
qed

lemma blacken_place:
  assumes inv: "rem_inv s ctx (Node l x r)" and fin: "root_black (rb_co s) (Node l x r) \<longrightarrow> ctx = []"
  shows "rb_list (put_color x RB_BLACK s) (inorder (plug ctx (Node l x r)))"
proof -
  let ?C = "rb_co s"
  have z: "zip_at s ctx (Node l x r)" using inv by (simp add: rem_inv_def)
  have x: "x \<in> dom (rb_cells s)" "x \<notin> set_tree l" "x \<notin> set_tree r" "x \<notin> set (before ctx)" "x \<notin> set (behind ctx)"
    using z by (auto simp: zip_at_def sub_at_Node intro: rb_alloc)
  have "coloured (?C(x \<mapsto> RB_BLACK)) (plug ctx (Node l x r))"
    using inv x by (auto simp: rem_inv_def coloured_plug)
  moreover have "balanced (?C(x \<mapsto> RB_BLACK)) (plug ctx (Node l x r))"
    using inv x fin by (cases "black ?C x") (auto simp: rem_inv_def balanced_plug)
  moreover have "root_black (?C(x \<mapsto> RB_BLACK)) (plug ctx (Node l x r))"
    using inv x by (simp add: rem_inv_def root_black_plug)
  ultimately show ?thesis
    using z zip_at_plug [of "put_color x RB_BLACK s" ctx "Node l x r"] x(1)
    by (auto simp: rb_list_def rb_at_def rb_tree_def intro!: exI [of _ "plug ctx (Node l x r)"])
qed

lemma blacken_whole:
  assumes "whole s xs s'"
  shows "case RB_ROOT s' of None \<Rightarrow> rb_list s' xs | Some x \<Rightarrow> rb_list (put_color x RB_BLACK s') xs \<and> x \<in> dom (rb_cells s')"
proof -
  from assms obtain t where t: "zip_at s' [] t" "inorder t = xs" "coloured (rb_co s') t" "balanced (rb_co s') t"
    unfolding whole_def by blast
  show ?thesis
  proof (cases t)
    case Leaf
    with t show ?thesis by (auto simp: rb_list_def rb_at_def rb_tree_def zip_at_def)
  next
    case (Node l x r)
    have x: "x \<in> dom (rb_cells s')" "x \<notin> set_tree l" "x \<notin> set_tree r" "RB_ROOT s' = Some x"
      using t(1) by (auto simp: Node zip_at_def sub_at_Node intro: rb_alloc)
    have "rb_at (put_color x RB_BLACK s') (Node l x r)"
      using t x by (auto simp: rb_at_def rb_tree_def Node)
    then have "rb_list (put_color x RB_BLACK s') xs" using t(2) unfolding rb_list_def Node by blast
    with x show ?thesis by simp
  qed
qed

lemma RB_REMOVE_COLOR_ok:
  assumes inv: "rem_inv s ctx t" and k: "length ctx < k"
  shows "\<exists>s'. RB_REMOVE_COLOR k (up ctx) (root_ptr t) s = (Ret (), s') \<and> rb_list s' (inorder (plug ctx t))
    \<and> dom (rb_cells s') = dom (rb_cells s)"
proof -
  have "if root_black (rb_co s) t then length ctx < k else 0 < k" using k by auto
  from remove_color_loop_ok [OF inv this] obtain e s1 where
    s1: "remove_color_loop k (up ctx) (root_ptr t) s = (Ret e, s1)" "ended s (inorder (plug ctx t)) e s1" by blast
  have dm: "dom (rb_cells s1) = dom (rb_cells s)" using s1(2) by (simp add: ended_def)
  from s1(2) consider
    (place) ctx' t' where "e = root_ptr t'" "rem_inv s1 ctx' t'" "inorder (plug ctx' t') = inorder (plug ctx t)"
      "root_black (rb_co s1) t' \<longrightarrow> ctx' = []"
    | (whole) "e = RB_ROOT s1" "whole s (inorder (plug ctx t)) s1"
    unfolding ended_def by blast
  then show ?thesis
  proof cases
    case place
    show ?thesis
    proof (cases t')
      case Leaf
      with place have "rb_list s1 (inorder (plug ctx t))"
        by (auto simp: rb_list_def rb_at_def rb_tree_def rem_inv_def intro!: exI [of _ Leaf])
      with s1(1) place(1) Leaf dm show ?thesis by (auto simp: RB_REMOVE_COLOR_def sbind_Ret prog_eval)
    next
      case (Node l x r)
      have "x \<in> dom (rb_cells s1)" using place(2) zip_dom by (auto simp: rem_inv_def Node)
      with s1(1) place(1) Node have "RB_REMOVE_COLOR k (up ctx) (root_ptr t) s = (Ret (), put_color x RB_BLACK s1)"
        by (simp add: RB_REMOVE_COLOR_def sbind_Ret rb_access)
      moreover have "rb_list (put_color x RB_BLACK s1) (inorder (plug ctx t))"
        using blacken_place [OF place(2) [unfolded Node]] place(3,4) Node by metis
      ultimately show ?thesis using dm by simp
    qed
  next
    case whole
    show ?thesis
    proof (cases "RB_ROOT s1")
      case None
      with blacken_whole [OF whole(2)] s1(1) whole(1) dm show ?thesis
        by (auto simp: RB_REMOVE_COLOR_def sbind_Ret prog_eval)
    next
      case (Some x)
      with blacken_whole [OF whole(2)] s1(1) whole(1) dm show ?thesis
        by (auto simp: RB_REMOVE_COLOR_def sbind_Ret rb_access)
    qed
  qed
qed

section \<open>Taking a node out\<close>

lemma unhook_ok:
  assumes c: "ctx_at s ctx (Some e)" "sub_at s q c" and d: "distinct (before ctx @ inorder c @ behind ctx)"
    and e: "e \<notin> ctx_set ctx"
  shows "unhook (up ctx) (Some e) (root_ptr c) s = (Ret (), hook ctx (root_ptr c) (adopt c (up ctx) s))"
    "zip_at (hook ctx (root_ptr c) (adopt c (up ctx) s)) ctx c"
proof -
  define s1 where "s1 = adopt c (up ctx) s"
  have dj: "set_tree c \<inter> ctx_set ctx = {}" and dc: "distinct (before ctx @ behind ctx)" "distinct (inorder c)" using d by auto
  have a: "(if root_ptr c \<noteq> None then RB_PARENT_set (root_ptr c) (up ctx) else sret ()) s = (Ret (), s1)"
    using adopt_run [OF c(2), of "sret (root_ptr c)" "up ctx"] by (cases c) (simp_all add: s1_def sbind_sret prog_eval)
  have c1: "ctx_at s1 ctx (Some e)" using c(1) dj by (simp add: s1_def)
  have h: "(if up ctx \<noteq> None then sbind (RB_LEFT (up ctx)) (\<lambda>l. if l = Some e then RB_LEFT_set (up ctx) (root_ptr c)
      else RB_RIGHT_set (up ctx) (root_ptr c)) else smod (rb_put_root (root_ptr c))) s1 = (Ret (), hook ctx (root_ptr c) s1)"
  proof (cases ctx rule: up.cases)
    case (2 x r ctx')
    with c1 rb_alloc(1) [of s1 x "Some e"] show ?thesis by (simp add: sbind_Ret rb_access)
  next
    case (3 l x ctx')
    have "root_ptr l \<noteq> Some e" using e 3 by (cases l) auto
    with 3 c1 rb_alloc(2) [of s1 x "Some e"] show ?thesis by (simp add: sbind_Ret rb_access)
  qed (simp add: prog_eval)
  show "unhook (up ctx) (Some e) (root_ptr c) s = (Ret (), hook ctx (root_ptr c) (adopt c (up ctx) s))"
    using a h unfolding unhook_def by (simp only: sseq_Ret s1_def)
  show "zip_at (hook ctx (root_ptr c) (adopt c (up ctx) s)) ctx c"
  proof -
    have "sub_at s1 (up ctx) c" by (simp add: s1_def sub_at_adopt [OF c(2) dc(2)])
    then show ?thesis using ctx_at_hook [OF c1 dc(1)] d dj by (simp add: zip_at_def flip: s1_def)
  qed
qed

text \<open>What the tree says of a place at which one node of colour \<open>col\<close> is taken out.\<close>

definition taken :: "colours \<Rightarrow> int \<Rightarrow> ctx \<Rightarrow> nat tree \<Rightarrow> bool" where
  "taken C col ctx c \<longleftrightarrow> coloured C c \<and> balanced C c \<and> ctx_coloured C ctx \<and> ctx_rooted C ctx
    \<and> (if col = RB_BLACK then ctx_balanced C (black_height C c + 1) ctx
       else root_black C c \<and> ctx_balanced C (black_height C c) ctx \<and> ctx \<noteq> [])"

lemma taken_out:
  assumes "rb_tree C (plug ctx (Node l e r))" and "l = Leaf \<and> c = r \<or> r = Leaf \<and> c = l"
  obtains col where "C e = Some col" "taken C col ctx c"
  using assms unfolding rb_tree_def coloured_plug balanced_plug root_black_plug taken_def by (auto split: if_splits)

lemma remove_finish:
  assumes t: "taken (rb_co s) col ctx c" and z: "zip_at s ctx c" and k: "length ctx < k"
  shows "\<exists>s'. (if col = RB_BLACK then RB_REMOVE_COLOR k (up ctx) (root_ptr c) else sret ()) s = (Ret (), s')
    \<and> rb_list s' (inorder (plug ctx c)) \<and> dom (rb_cells s') = dom (rb_cells s)"
proof (cases "col = RB_BLACK")
  case True
  with t z have "rem_inv s ctx c" by (simp add: rem_inv_def taken_def coloured_under(1))
  from RB_REMOVE_COLOR_ok [OF this k] True show ?thesis by simp
next
  case False
  with t have "rb_tree (rb_co s) (plug ctx c)"
    by (simp add: taken_def rb_tree_def coloured_plug balanced_plug root_black_plug)
  moreover have "zip_at s [] (plug ctx c)" using z zip_at_plug by blast
  ultimately have "rb_list s (inorder (plug ctx c))" unfolding rb_list_def rb_at_def by blast
  with False show ?thesis by (simp add: sret_def)
qed

lemma RB_REMOVE_outer:
  assumes z: "zip_at s ctx (Node l e r)" and t: "rb_tree (rb_co s) (plug ctx (Node l e r))"
    and lr: "l = Leaf \<and> c = r \<or> r = Leaf \<and> c = l" and k: "length ctx < k"
  shows "\<exists>s'. RB_REMOVE k e s = (Ret (), s') \<and> rb_list s' (inorder (plug ctx c)) \<and> dom (rb_cells s') = dom (rb_cells s)"
proof -
  define s1 where "s1 = hook ctx (root_ptr c) (adopt c (up ctx) s)"
  have f: "rb_lf s e = Some (root_ptr l)" "rb_rg s e = Some (root_ptr r)" "rb_pa s e = Some (up ctx)" "sub_at s (Some e) c"
    using zip_fields [OF z] lr by (auto simp: sub_at_Node)
  obtain col where col: "rb_co s e = Some col" "taken (rb_co s) col ctx c" by (rule taken_out [OF t lr])
  have d: "distinct (before ctx @ inorder c @ behind ctx)" "e \<notin> ctx_set ctx" "e \<notin> set_tree c"
    using z lr by (auto simp: zip_at_def)
  have cx: "ctx_at s ctx (Some e)" using z by (simp add: zip_at_def)
  note uh = unhook_ok [OF cx f(4) d(1,2)]
  have out: "remove_outer (Some e) (root_ptr c) s = (Ret (col, up ctx, root_ptr c), s1)"
    using f(3) col(1) uh(1) by (simp add: remove_outer_def sbind_Ret sseq_Ret rb_access prog_eval s1_def)
  have "sbind (RB_LEFT (Some e)) (\<lambda>p. if p = None then sbind (RB_RIGHT (Some e)) (remove_outer (Some e))
       else sbind (RB_RIGHT (Some e)) (\<lambda>q. if q = None then sbind (RB_LEFT (Some e)) (remove_outer (Some e))
         else remove_inner k (Some e))) s = (Ret (col, up ctx, root_ptr c), s1)"
    using f(1,2) out lr by (cases "l = Leaf") (auto simp: sbind_Ret rb_access)
  then have run: "RB_REMOVE k e s = (if col = RB_BLACK then RB_REMOVE_COLOR k (up ctx) (root_ptr c) else sret ()) s1"
    by (simp add: RB_REMOVE_def sbind_Ret)
  have "zip_at s1 ctx c" using uh(2) by (simp add: s1_def)
  moreover have "rb_co s1 = rb_co s" "dom (rb_cells s1) = dom (rb_cells s)" by (simp_all add: s1_def)
  ultimately show ?thesis using remove_finish [of s1 col ctx c k] col(2) k run by simp
qed

end
