(* ===== verification/RedBlackFind.thy ===== *)
theory RedBlackFind
  imports RedBlackInsert
begin

text \<open>
  Finding and visiting in the red-black trees of utils/tree.h.
\<close>

section \<open>Finding\<close>

text \<open>One turn for every level of the tree.\<close>

lemma find_loop_ok:
  "sub_at s q t \<Longrightarrow> height t < k \<Longrightarrow> steady c (inorder t) \<Longrightarrow>
   find_loop c k (root_ptr t) s = (Ret (find (\<lambda>x. c x = 0) (inorder t)), s)"
proof (induction k arbitrary: q t)
  case (Suc k)
  show ?case
  proof (cases t)
    case (Node l x r)
    with Suc.prems have f: "rb_lf s x = Some (root_ptr l)" "rb_rg s x = Some (root_ptr r)" "sub_at s (Some x) l"
      "sub_at s (Some x) r" "height l < k" "height r < k" "steady c (inorder l)" "steady c (inorder r)"
      by (auto simp: sub_at_Node)
    have l: "find (\<lambda>x. c x = 0) (inorder l) = None" if "c x \<ge> 0"
      using Suc.prems(3) that by (force simp: Node find_None_iff)
    have r: "find (\<lambda>x. c x = 0) (inorder r) = None" if "c x \<le> 0"
      using Suc.prems(3) that by (force simp: Node find_None_iff)
    have ap: "find P (xs @ ys) = (case find P xs of None \<Rightarrow> find P ys | Some y \<Rightarrow> Some y)" for P xs and ys :: "nat list"
      by (induction xs) auto
    consider "c x < 0" | "c x > 0" | "c x = 0" by linarith
    then show ?thesis
    proof cases
      case 1
      with Suc.IH [OF f(3,5,7)] r f(1) show ?thesis
        by (simp add: Node sbind_Ret rb_access ap split: option.split)
    next
      case 2
      with Suc.IH [OF f(4,6,8)] l f(2) show ?thesis by (simp add: Node sbind_Ret rb_access ap)
    next
      case 3
      with l show ?thesis by (simp add: Node sret_def ap)
    qed
  qed (simp add: sret_def)
qed simp

lemma RB_FIND_height:
  assumes o: "orders cmp key" "by_key key (inorder t)" and t: "rb_at s t" "height t < k"
  shows "RB_FIND cmp k e s = (Ret (find (\<lambda>x. key x = key e) (inorder t)), s)"
proof -
  have "(\<lambda>x. cmp e x = 0) = (\<lambda>x. key x = key e)" using ordersD(3) [OF o(1), of e] by auto
  moreover have "sub_at s None t" "RB_ROOT s = root_ptr t" using t(1) by (simp_all add: rb_at_def zip_at_def)
  ultimately show ?thesis
    using find_loop_ok [OF _ t(2) steady_by_key [OF o, of e]] by (simp add: RB_FIND_def sbind_Ret prog_eval)
qed

lemma RB_FIND_ok:
  assumes "orders cmp key" "by_key key xs" "rb_list s xs" "enough (length xs) k"
  shows "RB_FIND cmp k e s = (Ret (find (\<lambda>x. key x = key e) xs), s)"
proof -
  obtain t where t: "rb_at s t" "inorder t = xs" using assms(3) by (auto simp: rb_list_def)
  have "height t < k" using enough_height [of "rb_co s" t k] t assms(4) by (simp add: rb_at_def)
  with RB_FIND_height [of cmp key t s k e] assms(1,2) t show ?thesis by simp
qed

section \<open>Visiting\<close>

lemma rb_leftmost_ok:
  "sub_at s q t \<Longrightarrow> t \<noteq> Leaf \<Longrightarrow> height t \<le> k \<Longrightarrow> rb_leftmost k (root_ptr t) s = (Ret (Some (hd (inorder t))), s)"
proof (induction k arbitrary: q t)
  case (Suc k)
  then obtain l x r where t: "t = Node l x r" by (cases t) auto
  with Suc.prems have f: "rb_lf s x = Some (root_ptr l)" "sub_at s (Some x) l" "height l \<le> k"
    by (auto simp: sub_at_Node)
  show ?case
  proof (cases "l = Leaf")
    case False
    with Suc.IH [OF f(2) False f(3)] f(1) t show ?thesis by (simp add: sbind_Ret rb_access)
  qed (use f t in \<open>simp add: sbind_Ret rb_access sret_def\<close>)
qed simp

abbreviation head_ptr :: "nat list \<Rightarrow> ptr" where
  "head_ptr xs \<equiv> (if xs = [] then None else Some (hd xs))"

text \<open>Climbing from a subtree: to the first frame on the way up whose left subtree it is in.\<close>

lemma climb_ok:
  "zip_at s ctx (Node l x r) \<Longrightarrow> length ctx < k \<Longrightarrow> climb k (Some x) s = (Ret (head_ptr (behind ctx)), s)"
proof (induction k arbitrary: ctx l x r)
  case (Suc k)
  have pa: "rb_pa s x = Some (up ctx)" using zip_fields [OF Suc.prems(1)] by (simp add: sub_at_Node)
  show ?case
  proof (cases ctx)
    case Nil
    with pa show ?thesis by (simp add: sbind_def rb_access prog_eval)
  next
    case (Cons f c)
    show ?thesis
    proof (cases f)
      case (Below_left y u)
      have "rb_rg s y = Some (root_ptr u)" using Suc.prems(1) by (simp add: Cons Below_left zip_at_move zip_at_def sub_at_Node)
      moreover have "root_ptr u \<noteq> Some x" using Suc.prems(1) by (cases u) (auto simp: Cons Below_left zip_at_def)
      ultimately show ?thesis using pa by (auto simp: Cons Below_left sbind_def rb_access prog_eval)
    next
      case (Below_right u y)
      have z: "zip_at s c (Node u y (Node l x r))" using Suc.prems(1) by (simp add: Cons Below_right zip_at_move)
      then have "rb_rg s y = Some (Some x)" by (simp add: zip_at_def sub_at_Node)
      with pa Suc.IH [OF z] Suc.prems(2) show ?thesis by (simp add: Cons Below_right sbind_def rb_access prog_eval)
    qed
  qed
qed simp

lemma RB_NEXT_zip:
  assumes "zip_at s ctx (Node l x r)" "height r \<le> k" "length ctx < k"
  shows "RB_NEXT k (Some x) s = (Ret (head_ptr (inorder r @ behind ctx)), s)"
proof -
  have f: "rb_rg s x = Some (root_ptr r)" "rb_pa s x = Some (up ctx)" "sub_at s (Some x) r"
    using zip_fields [OF assms(1)] by (simp_all add: sub_at_Node)
  show ?thesis
  proof (cases "r = Leaf")
    case False
    with rb_leftmost_ok [OF f(3) False assms(2)] f(1) show ?thesis by (simp add: RB_NEXT_def sbind_Ret rb_access)
  next
    case r: True
    note cl = climb_ok [OF assms(1,3)]
    show ?thesis
    proof (cases ctx)
      case Nil
      with f r cl show ?thesis by (simp add: RB_NEXT_def sbind_def rb_access prog_eval)
    next
      case (Cons g c)
      show ?thesis
      proof (cases g)
        case (Below_left y u)
        have "rb_lf s y = Some (Some x)" using assms(1) by (simp add: Cons Below_left zip_at_move zip_at_def sub_at_Node)
        with f r show ?thesis by (simp add: RB_NEXT_def Cons Below_left sbind_def rb_access prog_eval)
      next
        case (Below_right u y)
        have "rb_lf s y = Some (root_ptr u)" using assms(1) by (simp add: Cons Below_right zip_at_move zip_at_def sub_at_Node)
        moreover have "root_ptr u \<noteq> Some x" using assms(1) by (cases u) (auto simp: Cons Below_right zip_at_def)
        ultimately show ?thesis using f r cl by (auto simp: RB_NEXT_def Cons Below_right sbind_def rb_access prog_eval)
      qed
    qed
  qed
qed

text \<open>Every node of a tree is at a place.\<close>

lemma place_of: "x \<in> set_tree t \<Longrightarrow> \<exists>ctx l r. plug ctx (Node l x r) = t"
proof (induction t)
  case (Node l y r)
  from Node.prems consider "x = y" | "x \<in> set_tree l" | "x \<in> set_tree r" by auto
  then show ?case
  proof cases
    case 1
    then show ?thesis by (intro exI [of _ "[]"]) auto
  next
    case 2
    with Node.IH(1) obtain ctx l' r' where "plug ctx (Node l' x r') = l" by blast
    then have "plug (ctx @ [Below_left y r]) (Node l' x r') = Node l y r" by (simp add: plug_append)
    then show ?thesis by blast
  next
    case 3
    with Node.IH(2) obtain ctx l' r' where "plug ctx (Node l' x r') = r" by blast
    then have "plug (ctx @ [Below_right l y]) (Node l' x r') = Node l y r" by (simp add: plug_append)
    then show ?thesis by blast
  qed
qed simp

lemma RB_NEXT_ok:
  assumes s: "rb_list s (ys @ e # zs)" and k: "enough (length (ys @ e # zs)) (Suc k)"
  shows "RB_NEXT k (Some e) s = (Ret (head_ptr zs), s)"
proof -
  obtain t where t: "zip_at s [] t" "inorder t = ys @ e # zs" "rb_tree (rb_co s) t"
    using s by (auto simp: rb_list_def rb_at_def)
  then have "e \<in> set_tree t" by (simp flip: set_inorder)
  then obtain ctx l r where p: "plug ctx (Node l e r) = t" using place_of by blast
  have z: "zip_at s ctx (Node l e r)" using t(1) zip_at_plug [of s ctx] p by simp
  have "before ctx @ inorder l @ e # inorder r @ behind ctx = ys @ e # zs" using t(2) p inorder_plug [of ctx "Node l e r"] by simp
  moreover have "distinct (ys @ e # zs)" using t by (simp add: zip_at_def)
  ultimately have "inorder r @ behind ctx = zs"
    by (metis append_Cons_eq_iff append_assoc distinct.simps(2) distinct_append not_distinct_conv_prefix)
  moreover have "height t < Suc k" using enough_height [OF t(3)] k t(2) by simp
  then have "height r \<le> k" "length ctx < k" using height_plug [of ctx "Node l e r"] p by simp_all
  ultimately show ?thesis using RB_NEXT_zip [OF z] by simp
qed

lemma minmax_walk_ok:
  "sub_at s q t \<Longrightarrow> height t < k \<Longrightarrow> minmax_walk val k (root_ptr t) p s =
    (Ret (if t = Leaf then p else Some (if val < 0 then hd (inorder t) else last (inorder t))), s)"
proof (induction k arbitrary: q t p)
  case (Suc k)
  show ?case
  proof (cases t)
    case (Node l x r)
    with Suc.prems have f: "rb_lf s x = Some (root_ptr l)" "rb_rg s x = Some (root_ptr r)" "sub_at s (Some x) l"
      "sub_at s (Some x) r" "height l < k" "height r < k" by (auto simp: sub_at_Node)
    show ?thesis
    proof (cases "val < 0")
      case True
      with Suc.IH [OF f(3,5), of "Some x"] f(1) Node show ?thesis by (simp add: sbind_Ret rb_access hd_append)
    next
      case False
      with Suc.IH [OF f(4,6), of "Some x"] f(2) Node show ?thesis by (simp add: sbind_Ret rb_access)
    qed
  qed (simp add: sret_def)
qed simp

lemma RB_MINMAX_ok:
  assumes "rb_list s xs" "enough (length xs) k"
  shows "RB_MINMAX k val s = (Ret (if xs = [] then None else Some (if val < 0 then hd xs else last xs)), s)"
proof -
  obtain t where t: "zip_at s [] t" "inorder t = xs" "rb_tree (rb_co s) t"
    using assms(1) by (auto simp: rb_list_def rb_at_def)
  then have "height t < k" "sub_at s None t" "RB_ROOT s = root_ptr t"
    using assms(2) enough_height [OF t(3)] by (simp_all add: zip_at_def)
  with minmax_walk_ok [of s None t k val None] t(2) show ?thesis by (auto simp: RB_MINMAX_def sbind_Ret prog_eval)
qed

lemma rb_foreach_loop_ok:
  "rb_list s (ys @ zs) \<Longrightarrow> length (ys @ zs) \<le> k \<Longrightarrow> length zs \<le> n \<Longrightarrow>
   rb_foreach_loop k n (head_ptr zs) f v s = (Ret (fold f zs v), s)"
proof (induction n arbitrary: ys zs v)
  case (Suc n)
  show ?case
  proof (cases zs)
    case (Cons e us)
    have "RB_NEXT k (Some e) s = (Ret (head_ptr us), s)" using RB_NEXT_ok [of s ys e us k] Suc.prems Cons by (simp add: enough_def)
    with Suc.IH [of "ys @ [e]" us "f e v"] Suc.prems Cons show ?thesis by (simp add: sbind_Ret)
  qed (simp add: sret_def)
qed simp

lemma RB_FOREACH_ok:
  assumes "rb_list s xs" "length xs < k"
  shows "RB_FOREACH k k f v s = (Ret (fold f xs v), s)"
proof -
  have "RB_MIN k s = (Ret (head_ptr xs), s)"
    using RB_MINMAX_ok [OF assms(1), of k "- 1"] assms(2) by (cases "xs = []") (simp_all add: RB_MIN_def RB_NEGINF_def enough_def)
  with rb_foreach_loop_ok [of s "[]" xs k k f v] assms show ?thesis by (simp add: RB_FOREACH_def sbind_def)
qed

end
