(* ===== verification/RedBlackDelete.thy ===== *)
theory RedBlackDelete
  imports RedBlackRemove RedBlackFind
begin

text \<open>
  \<open>RB_REMOVE\<close> of utils/tree.h on an element with two children, where the next element takes its place, and
  on any element: the element is gone, the tree is red-black again, and no other element is touched.
\<close>

declare domIff [iff]

section \<open>The next element takes the place of an inner one\<close>

text \<open>The leftmost element of the right subtree has no left child.\<close>

lemma leftmost_place:
  "t \<noteq> Leaf \<Longrightarrow> \<exists>ctx m c. plug ctx (Node Leaf m c) = t \<and> before ctx = []"
proof (induction t)
  case (Node l x r)
  show ?case
  proof (cases "l = Leaf")
    case True
    then show ?thesis by (intro exI [of _ "[]"]) auto
  next
    case False
    with Node.IH(1) obtain ctx m c where p: "plug ctx (Node Leaf m c) = l" "before ctx = []" by blast
    have "plug (ctx @ [Below_left x r]) (Node Leaf m c) = Node l x r" using p(1) by (simp add: plug_append)
    moreover have "before (ctx @ [Below_left x r]) = []" using p(2) by (simp add: ctx_append)
    ultimately show ?thesis by blast
  qed
qed simp

lemma relink_ok:
  assumes c: "ctx_at s ctx (Some x)" and f: "rb_pa s x = Some (up ctx)" and x: "x \<notin> ctx_set ctx"
  shows "sbind (RB_PARENT (Some x)) (\<lambda>p. if p \<noteq> None then
           sbind (sbind (RB_PARENT (Some x)) RB_LEFT) (\<lambda>l.
           if l = Some x then sbind (RB_PARENT (Some x)) (\<lambda>p. RB_LEFT_set p q)
           else sbind (RB_PARENT (Some x)) (\<lambda>p. RB_RIGHT_set p q))
         else smod (rb_put_root q)) s = (Ret (), hook ctx q s)"
proof (cases ctx rule: up.cases)
  case (2 y r ctx')
  with c f rb_alloc(1) [of s y "Some x"] show ?thesis by (simp add: rb_run)
next
  case (3 l y ctx')
  have "root_ptr l \<noteq> Some x" using x 3 by (cases l) auto
  with 3 c f rb_alloc(2) [of s y "Some x"] show ?thesis by (simp add: rb_run)
qed (use f in \<open>simp add: rb_run\<close>)

lemma swap_in_ok:
  assumes z: "zip_at s ctx (Node l e r)" and l: "l \<noteq> Leaf" and m: "m \<in> dom (rb_cells s)"
    "m \<notin> set_tree (Node l e r)" "m \<notin> ctx_set ctx"
  shows "\<exists>s'. swap_in (Some e) (Some m) s = (Ret (), s') \<and> zip_at s' ctx (Node l m r)
    \<and> rb_co s' = (rb_co s)(m := rb_co s e) \<and> dom (rb_cells s') = dom (rb_cells s)"
proof -
  have c: "ctx_at s ctx (Some e)" and f: "rb_lf s e = Some (root_ptr l)" "rb_rg s e = Some (root_ptr r)"
    "rb_pa s e = Some (up ctx)" "sub_at s (Some e) l" "sub_at s (Some e) r"
    and d: "distinct (before ctx @ inorder (Node l e r) @ behind ctx)"
    using z by (simp_all add: zip_at_def sub_at_Node)
  obtain n where n: "rb_cells s e = Some n" using zip_dom [OF z] by auto
  define s1 where "s1 = rb_put m (\<lambda>_. n) s"
  define s2 where "s2 = hook ctx (Some m) s1"
  define s3 where "s3 = adopt l (Some m) s2"
  define s4 where "s4 = adopt r (Some m) s3"
  have f1: "rb_lf s1 = (rb_lf s)(m := rb_lf s e)" "rb_rg s1 = (rb_rg s)(m := rb_rg s e)"
    "rb_pa s1 = (rb_pa s)(m := rb_pa s e)" "rb_co s1 = (rb_co s)(m := rb_co s e)"
    using m(1) n by (auto simp: s1_def rb_lf_def rb_rg_def rb_pa_def rb_co_def rb_put_def fun_eq_iff)
  have out: "e \<noteq> m" "m \<notin> set_tree l" "m \<notin> set_tree r" "e \<notin> set_tree l" "e \<notin> set_tree r" "e \<notin> ctx_set ctx"
    "set_tree l \<inter> ctx_set ctx = {}" "set_tree r \<inter> ctx_set ctx = {}" "set_tree l \<inter> set_tree r = {}"
    "distinct (before ctx @ behind ctx)" "distinct (inorder l)" "distinct (inorder r)" using d m(2) by auto
  have c1: "ctx_at s1 ctx (Some e)" using c m(3) by (simp add: s1_def)
  have sub1: "sub_at s1 (Some e) l" "sub_at s1 (Some e) r" using f(4,5) out by (simp_all add: s1_def)
  have sub2: "sub_at s2 (Some e) l" "sub_at s2 (Some e) r" using sub1 out by (simp_all add: s2_def)
  have sub3: "sub_at s3 (Some m) l" "sub_at s3 (Some e) r"
    using sub2 out sub_at_adopt [OF sub2(1)] by (simp_all add: s3_def)
  have sub4: "sub_at s4 (Some m) l" "sub_at s4 (Some m) r"
    using sub3 out sub_at_adopt [OF sub3(2)] by (simp_all add: s4_def Int_commute)
  have e2: "rb_lf s2 e = Some (root_ptr l)" "rb_rg s3 e = Some (root_ptr r)"
    "rb_pa s1 e = Some (up ctx)" using f out by (simp_all add: s3_def s2_def f1)
  have load: "rb_load (\<lambda>n. n) (Some e) s = (Ret n, s)" "rb_store (Some m) (\<lambda>_. n) s = (Ret (), s1)"
    using n m(1) by (auto simp: rb_load_def rb_store_def s1_def)
  have l_set: "sbind (RB_LEFT (Some e)) (\<lambda>q. RB_PARENT_set q (Some m)) s2 = (Ret (), s3)"
    using e2(1) sub2(1) l rb_alloc(3) [of s2 _ "Some e"]
    by (cases l) (simp_all add: s3_def adopt_def sub_at_Node rb_run)
  have r_set: "sbind (RB_RIGHT (Some e)) (\<lambda>q. if q \<noteq> None then sbind (RB_RIGHT (Some e)) (\<lambda>q. RB_PARENT_set q (Some m)) else sret ()) s3
    = (Ret (), s4)"
    using e2(2) sub3(2) rb_alloc(3) [of s3 _ "Some e"]
    by (cases r) (simp_all add: s4_def adopt_def sub_at_Node rb_run)
  have run: "swap_in (Some e) (Some m) s = (Ret (), s4)"
    using load relink_ok [OF c1 e2(3) out(6), of "Some m"] l_set r_set unfolding swap_in_def s2_def [symmetric]
    by (simp only: sseq_Ret sbind_Ret)
  have "ctx_at s2 ctx (Some m)" unfolding s2_def by (rule ctx_at_hook [OF c1 out(10)])
  then have "ctx_at s4 ctx (Some m)" using out by (simp add: s4_def s3_def)
  moreover have "sub_at s4 (up ctx) (Node l m r)"
    using sub4 f out m(3) by (simp add: sub_at_Node s4_def s3_def s2_def f1)
  ultimately have "zip_at s4 ctx (Node l m r)" using d m(2,3) by (auto simp: zip_at_def)
  then show ?thesis using run f1(4) by (auto simp: s4_def s3_def s2_def s1_def)
qed

lemma augment_walk_ok: "ctx_at s ctx p \<Longrightarrow> ctx \<noteq> [] \<Longrightarrow> length ctx \<le> k \<Longrightarrow> augment_walk k (up ctx) s = (Ret (), s)"
proof (induction k arbitrary: ctx p)
  case (Suc k)
  then obtain f c where ctx: "ctx = f # c" by (cases ctx) auto
  obtain x where x: "up ctx = Some x" "rb_pa s x = Some (up c)" "ctx_at s c (Some x)"
    using Suc.prems(1) ctx by (cases f) auto
  with Suc.IH [OF x(3)] Suc.prems(3) show ?case by (cases c rule: up.cases) (auto simp: ctx rb_run)
qed simp

text \<open>The colours know nothing of the names.\<close>

lemma renamed_ctx:
  assumes "m \<notin> ctx_set (d @ Below_right l e # ctx)" and C': "C' = C(m := C e)"
  shows "ctx_coloured C' (d @ Below_right l m # ctx) = ctx_coloured C (d @ Below_right l e # ctx)"
    "ctx_balanced C' h (d @ Below_right l m # ctx) = ctx_balanced C h (d @ Below_right l e # ctx)"
    "ctx_rooted C' (d @ Below_right l m # ctx) = ctx_rooted C (d @ Below_right l e # ctx)"
proof -
  have up: "up ctx \<noteq> Some m" using assms(1) up_in_ctx [of ctx m] by (auto simp: ctx_append)
  have CC: "C' m = C e" "\<And>y. y \<noteq> m \<Longrightarrow> C' y = C y" by (simp_all add: C')
  note cu = colours_upd [of m _ C "C e", folded C'] and xu = ctx_upd [of m _ C "C e", folded C']
  have uc: "(case up ctx of None \<Rightarrow> True | Some y \<Rightarrow> black C' y) = (case up ctx of None \<Rightarrow> True | Some y \<Rightarrow> black C y)"
    using up by (cases "up ctx") (auto simp: CC)
  have upd: "(case up (d @ Below_right l m # ctx) of None \<Rightarrow> True | Some y \<Rightarrow> black C' y)
    = (case up (d @ Below_right l e # ctx) of None \<Rightarrow> True | Some y \<Rightarrow> black C y)"
    if "m \<notin> ctx_set (d @ Below_right l e # ctx)" for d
    using that by (cases d rule: up.cases) (simp_all add: CC)
  show "ctx_coloured C' (d @ Below_right l m # ctx) = ctx_coloured C (d @ Below_right l e # ctx)"
    using assms(1) by (induction d rule: before.induct) (simp_all add: CC cu xu uc upd)
  show "ctx_balanced C' h (d @ Below_right l m # ctx) = ctx_balanced C h (d @ Below_right l e # ctx)"
    using assms(1) by (induction d arbitrary: h rule: before.induct) (simp_all add: CC cu xu)
  show "ctx_rooted C' (d @ Below_right l m # ctx) = ctx_rooted C (d @ Below_right l e # ctx)"
    using assms(1) by (induction d rule: before.induct) (simp_all add: CC xu)
qed

lemma taken_renamed:
  assumes "taken C col (d @ Below_right l e # ctx) c" "m \<notin> ctx_set (d @ Below_right l e # ctx)" "m \<notin> set_tree c"
  shows "taken (C(m := C e)) col (d @ Below_right l m # ctx) c"
  using assms(1,3) renamed_ctx [OF assms(2) refl] by (auto simp: taken_def split: if_splits)

lemma RB_REMOVE_inner:
  assumes z: "zip_at s ctx (Node l e r)" and t: "rb_tree (rb_co s) (plug ctx (Node l e r))"
    and lr: "l \<noteq> Leaf" "r \<noteq> Leaf" and k: "height (plug ctx (Node l e r)) < k"
  shows "\<exists>s'. RB_REMOVE k e s = (Ret (), s') \<and> rb_list s' (before ctx @ inorder l @ inorder r @ behind ctx)
    \<and> dom (rb_cells s') = dom (rb_cells s)"
proof -
  obtain d m c where r: "plug d (Node Leaf m c) = r" "before d = []" using leftmost_place [OF lr(2)] by blast
  define D where "D = d @ Below_right l e # ctx"
  define D' where "D' = d @ Below_right l m # ctx"
  have D: "plug D u = plug ctx (Node l e (plug d u))" "plug D' u = plug ctx (Node l m (plug d u))" for u
    by (simp_all add: D_def D'_def plug_append)
  have zD: "zip_at s D (Node Leaf m c)" using z zip_at_plug [of s ctx] zip_at_plug [of s D] by (simp add: D r(1))
  obtain col where col: "rb_co s m = Some col" "taken (rb_co s) col D c"
    by (rule taken_out [of "rb_co s" D Leaf m c c]) (use t in \<open>simp_all add: D r(1)\<close>)
  have f: "rb_lf s e = Some (root_ptr l)" "rb_rg s e = Some (root_ptr r)" "sub_at s (Some e) r"
    using zip_fields [OF z] by (auto simp: sub_at_Node)
  have fm: "rb_rg s m = Some (root_ptr c)" "rb_pa s m = Some (up D)" "sub_at s (Some m) c" "ctx_at s D (Some m)"
    "distinct (before D @ inorder c @ behind D)" "m \<notin> ctx_set D" "m \<notin> set_tree c"
    using zip_fields [OF zD] zD by (auto simp: sub_at_Node zip_at_def)
  define s1 where "s1 = hook D (root_ptr c) (adopt c (up D) s)"
  note uh = unhook_ok [OF fm(4,3,5,6), folded s1_def]
  have z1: "zip_at s1 ctx (Node l e (plug d c))"
    using uh(2) zip_at_plug [of s1 ctx] zip_at_plug [of s1 D] by (simp add: D)
  have m1: "m \<in> dom (rb_cells s1)" "rb_pa s1 m = Some (up D)" "rb_co s1 = rb_co s" "dom (rb_cells s1) = dom (rb_cells s)"
    using fm(2,7) zip_dom [OF zD] by (simp_all add: s1_def)
  have mo: "m \<notin> set_tree (Node l e (plug d c))" "m \<notin> ctx_set ctx"
    using fm(6,7) by (auto simp: D_def ctx_append simp flip: set_inorder)
  from swap_in_ok [OF z1 lr(1) m1(1) mo] obtain s2 where s2: "swap_in (Some e) (Some m) s1 = (Ret (), s2)"
    "zip_at s2 ctx (Node l m (plug d c))" "rb_co s2 = (rb_co s)(m := rb_co s e)" "dom (rb_cells s2) = dom (rb_cells s)"
    using m1(3,4) by auto
  have zD': "zip_at s2 D' c" using s2(2) zip_at_plug [of s2 ctx] zip_at_plug [of s2 D'] by (simp add: D)
  have tk: "taken (rb_co s2) col D' c" unfolding s2(3) D'_def
    by (rule taken_renamed) (use col(2) fm(6,7) in \<open>simp_all add: D_def\<close>)
  have parent: "(if up D = Some e then Some m else up D) = up D'"
    using up_in_ctx [of d e] fm(5) by (auto simp: D_def D'_def ctx_append)
  have len: "length D' \<le> k" "length D' < k"
    using height_plug [of D "Node Leaf m c"] k by (simp_all add: D r(1)) (simp_all add: D_def D'_def)
  have walk: "(if up D' \<noteq> None then augment_walk k (up D') else sret ()) s2 = (Ret (), s2)"
    using augment_walk_ok [of s2 D' "root_ptr c" k] zD' len(1) by (simp add: zip_at_def D'_def prog_eval)
  have left: "sbind (RB_RIGHT (Some e)) (rb_leftmost k) s = (Ret (Some m), s)"
    using f rb_leftmost_ok [OF f(3) lr(2), of k] k height_plug [of ctx "Node l e r"] r
    by (auto simp: sbind_Ret rb_access)
  note acc = rb_access(2) [OF fm(1)] rb_access(3) [OF fm(2)] rb_access(4) [OF col(1)] rb_access(3) [OF m1(2)]
  have inner: "remove_inner k (Some e) s = (Ret (col, up D', root_ptr c), s2)"
    by (simp only: remove_inner_def Let_def sbind_Ret sseq_Ret left acc uh(1) parent s2(1) walk prog_eval)
  have "RB_REMOVE k e s = (if col = RB_BLACK then RB_REMOVE_COLOR k (up D') (root_ptr c) else sret ()) s2"
    using f lr inner by (simp add: RB_REMOVE_def sbind_def rb_access)
  with remove_finish [OF tk zD' len(2)] s2(4) show ?thesis
    by (auto simp: D'_def ctx_append r(2) simp flip: r(1))
qed

section \<open>Removal of an element\<close>

theorem RB_REMOVE_ok:
  assumes s: "rb_list s xs" "enough (length xs) k" and e: "e \<in> set xs"
  shows "\<exists>s'. RB_REMOVE k e s = (Ret (), s') \<and> rb_list s' (filter (\<lambda>x. x \<noteq> e) xs)
    \<and> dom (rb_cells s') = dom (rb_cells s)"
proof -
  obtain t where t: "zip_at s [] t" "rb_tree (rb_co s) t" "inorder t = xs" using s(1) by (auto simp: rb_list_def rb_at_def)
  then have "e \<in> set_tree t" using e by (simp flip: set_inorder)
  then obtain ctx l r where p: "plug ctx (Node l e r) = t" using place_of by blast
  have z: "zip_at s ctx (Node l e r)" using t(1) zip_at_plug p by metis
  have xs: "xs = before ctx @ inorder l @ e # inorder r @ behind ctx" using t(3) p inorder_plug [of ctx "Node l e r"] by simp
  have "distinct xs" using t(1,3) by (simp add: zip_at_def)
  moreover have "filter (\<lambda>x. x \<noteq> e) us = us" if "e \<notin> set us" for us using that by (auto intro: filter_True)
  ultimately have ys: "filter (\<lambda>x. x \<noteq> e) xs = before ctx @ inorder l @ inorder r @ behind ctx" unfolding xs by simp
  have k: "height (plug ctx (Node l e r)) < k" using enough_height [OF t(2)] s(2) t(3) p by simp
  have k': "length ctx < k" using k height_plug [of ctx "Node l e r"] by simp
  have rb: "rb_tree (rb_co s) (plug ctx (Node l e r))" using t(2) p by simp
  consider "l = Leaf" | "r = Leaf" | "l \<noteq> Leaf" "r \<noteq> Leaf" by blast
  then show ?thesis
  proof cases
    case 1
    with RB_REMOVE_outer [OF z rb, of r k] k' show ?thesis by (simp add: ys)
  next
    case 2
    with RB_REMOVE_outer [OF z rb, of l k] k' show ?thesis by (simp add: ys)
  next
    case 3
    with RB_REMOVE_inner [OF z rb _ _ k] show ?thesis by (simp add: ys)
  qed
qed

end
