(* ===== verification/RedBlackSet.thy ===== *)
theory RedBlackSet
  imports RedBlackDelete SplaySet
begin

text \<open>
  The red-black trees of utils/tree.h as sets: they offer the interface \<open>search_tree\<close>, as the splay trees
  do. The head of the file promises a height of at most 2 lg(n+1); no loop of an operation takes more turns.
\<close>

declare domIff [iff del]

section \<open>The interface\<close>

definition rb_set :: "(nat \<Rightarrow> nat \<Rightarrow> int) \<Rightarrow> (nat \<Rightarrow> 'k::linorder) \<Rightarrow> rb_head \<Rightarrow> nat list \<Rightarrow> bool" where
  "rb_set cmp key s xs \<longleftrightarrow> orders cmp key \<and> by_key key xs \<and> rb_list s xs"

lemma sub_at_alloc: "sub_at s q t \<Longrightarrow> set_tree t \<subseteq> dom (rb_cells s)"
  by (induction t arbitrary: q) (auto simp: sub_at_Node dest: rb_alloc)

lemma rb_list_alloc: "rb_list s xs \<Longrightarrow> set xs \<subseteq> dom (rb_cells s)"
  unfolding rb_list_def rb_at_def zip_at_def using sub_at_alloc by (metis set_inorder)

lemma rb_list_Nil: "RB_ROOT s = None \<Longrightarrow> rb_list s []"
  by (auto simp: rb_list_def rb_at_def zip_at_def rb_tree_def intro!: exI [of _ Leaf])

lemma drop_key_one: "by_key key xs \<Longrightarrow> e \<in> set xs \<Longrightarrow> filter (\<lambda>x. x \<noteq> e) xs = drop_key key e xs"
proof (induction xs)
  case (Cons x xs)
  then show ?case by (cases "x = e") (auto simp: drop_key_def intro!: filter_cong)
qed simp

interpretation RB: search_tree key "rb_set cmp key" "\<lambda>s. dom (rb_cells s)" "\<lambda>k. RB_FIND cmp (Suc k)"
  "\<lambda>k e. sseq (RB_INSERT cmp (Suc k) e) (sret ())" "\<lambda>k. RB_REMOVE (Suc k)" "\<lambda>k. RB_FOREACH (Suc k) (Suc k)" for key cmp
proof unfold_locales
  fix s xs k e
  assume "rb_set cmp key s xs"
  then have o: "orders cmp key" "by_key key xs" "rb_list s xs" by (simp_all add: rb_set_def)
  show "by_key key xs \<and> set xs \<subseteq> dom (rb_cells s)" using rb_list_alloc o by blast
  assume "length xs \<le> k"
  then have k: "length xs < Suc k" "enough (length xs) (Suc k)" by (simp_all add: enough_def)
  show "\<exists>s'. RB_FIND cmp (Suc k) e s = (Ret (find (\<lambda>x. key x = key e) xs), s') \<and> rb_set cmp key s' xs
      \<and> dom (rb_cells s') = dom (rb_cells s)"
    using RB_FIND_ok [OF o k(2)] o unfolding rb_set_def by blast
  show "\<exists>s'. RB_REMOVE (Suc k) e s = (Ret (), s') \<and> rb_set cmp key s' (drop_key key e xs)
      \<and> dom (rb_cells s') = dom (rb_cells s)" if "e \<in> set xs"
    using RB_REMOVE_ok [OF o(3) k(2) that] o by_key_drop_key [of key xs e]
    unfolding rb_set_def drop_key_one [OF o(2) that] by blast
  show "\<exists>s'. sseq (RB_INSERT cmp (Suc k) e) (sret ()) s = (Ret (), s') \<and> rb_set cmp key s' (add_key key e xs)
      \<and> dom (rb_cells s') = dom (rb_cells s)" if "e \<in> dom (rb_cells s)"
    using RB_INSERT_ok [OF o k(2) that] o by_key_add_key by (auto simp: rb_set_def sseq_Ret sret_def)
  show "\<exists>s'. RB_FOREACH (Suc k) (Suc k) f v s = (Ret (fold f xs v), s') \<and> rb_set cmp key s' xs" for f v
    using RB_FOREACH_ok [OF o(3) k(1), of f v] o by (simp add: rb_set_def)
qed

text \<open>A heap with two allocated elements for the witnesses.\<close>

definition two_cells :: rb_head where
  "two_cells = \<lparr>rbh_root = None, rb_cells = (\<lambda>x. if x \<in> {1, 2}
     then Some \<lparr>rbe_left = None, rbe_right = None, rbe_parent = None, rbe_color = RB_RED\<rparr> else None)\<rparr>"

definition one_two :: rb_head where
  "one_two = \<lparr>rbh_root = Some 1, rb_cells =
     [1 \<mapsto> \<lparr>rbe_left = None, rbe_right = Some 2, rbe_parent = None, rbe_color = RB_BLACK\<rparr>,
      2 \<mapsto> \<lparr>rbe_left = None, rbe_right = None, rbe_parent = Some 1, rbe_color = RB_RED\<rparr>]\<rparr>"

lemma two_cells_has: "x \<in> dom (rb_cells two_cells) \<longleftrightarrow> x = 1 \<or> x = 2"
  by (simp add: two_cells_def dom_def)

lemma two_cells_empty: "RB_ROOT two_cells = None"
  by (simp add: two_cells_def RB_ROOT_def)

lemma one_two_at: "rb_at one_two (Node Leaf 1 (Node Leaf 2 Leaf))"
  by (simp add: rb_at_def zip_at_def sub_at_Node rb_tree_def one_two_def rb_lf_def rb_rg_def rb_pa_def rb_co_def RB_ROOT_def)

lemma one_two_list: "rb_list one_two [1, 2]"
  unfolding rb_list_def using one_two_at by (intro exI [of _ "Node Leaf 1 (Node Leaf 2 Leaf)"]) simp

section \<open>The properties\<close>

text \<open>
  C14: RB_INSERT keeps a red-black tree one: root black, no red node with a red child, as many
  black nodes on every path, parent pointers and the order of the keys right. It answers the
  element with the same key, if there is one, and then changes nothing of the order.
\<close>

theorem rb_insert_well_formed:
  assumes "orders cmp key" "by_key key xs" "rb_list s xs" "length xs < k" "e \<in> dom (rb_cells s)"
  shows "\<exists>s' t. RB_INSERT cmp k e s = (Ret (find (\<lambda>x. key x = key e) xs), s') \<and> zip_at s' [] t
    \<and> root_black (rb_co s') t \<and> coloured (rb_co s') t \<and> balanced (rb_co s') t
    \<and> inorder t = (if key e \<in> key ` set xs then xs else insort_key key e xs)"
  using RB_INSERT_ok [OF assms(1-3) enough_size [OF assms(4)] assms(5)] unfolding rb_list_def rb_at_def rb_tree_def add_key_def by blast

theorem rb_insert_well_formed_witness:
  "\<exists>s' t. RB_INSERT (\<lambda>a b. int a - int b) 3 2 one_two = (Ret (find (\<lambda>x. x = 2) [1, 2]), s') \<and> zip_at s' [] t
    \<and> root_black (rb_co s') t \<and> coloured (rb_co s') t \<and> balanced (rb_co s') t
    \<and> inorder t = (if (2::nat) \<in> (\<lambda>x. x) ` set [1, 2] then [1, 2] else insort_key (\<lambda>x. x) 2 [1, 2])"
  by (rule rb_insert_well_formed [OF orders_diff _ one_two_list]) (simp_all add: one_two_def)

text \<open>
  C15: RB_REMOVE takes exactly the given element out of a red-black tree, whether it has two
  children or fewer, and what it leaves is a red-black tree with the other elements in their
  order.
\<close>

theorem rb_remove_well_formed:
  assumes "rb_list s xs" "length xs < k" "e \<in> set xs"
  shows "\<exists>s' t. RB_REMOVE k e s = (Ret (), s') \<and> zip_at s' [] t
    \<and> root_black (rb_co s') t \<and> coloured (rb_co s') t \<and> balanced (rb_co s') t
    \<and> inorder t = filter (\<lambda>x. x \<noteq> e) xs"
  using RB_REMOVE_ok [OF assms(1) enough_size [OF assms(2)] assms(3)] unfolding rb_list_def rb_at_def rb_tree_def by blast

theorem rb_remove_well_formed_witness:
  "\<exists>s' t. RB_REMOVE 3 1 one_two = (Ret (), s') \<and> zip_at s' [] t
    \<and> root_black (rb_co s') t \<and> coloured (rb_co s') t \<and> balanced (rb_co s') t
    \<and> inorder t = filter (\<lambda>x. x \<noteq> 1) [1, 2]"
  by (rule rb_remove_well_formed [OF one_two_list]) simp_all

text \<open>
  C17: Every operation on a red-black tree is O(lg n), as the head of the file promises: with
  any number of turns above 2 lg(n+1) for each of their loops RB_FIND, RB_INSERT, RB_REMOVE,
  RB_NEXT, RB_MIN and RB_MAX return on a tree of n elements, with the answer and the tree they
  should.
\<close>

theorem rb_operations_logarithmic:
  assumes "orders cmp key" "by_key key xs" "rb_list s xs" "2 * log 2 (real (length xs + 1)) < real k"
  shows "RB_FIND cmp k e s = (Ret (find (\<lambda>x. key x = key e) xs), s)
    \<and> (e \<in> dom (rb_cells s) \<longrightarrow> (\<exists>s'. RB_INSERT cmp k e s = (Ret (find (\<lambda>x. key x = key e) xs), s')
        \<and> rb_list s' (add_key key e xs)))
    \<and> (e \<in> set xs \<longrightarrow> (\<exists>s'. RB_REMOVE k e s = (Ret (), s') \<and> rb_list s' (filter (\<lambda>x. x \<noteq> e) xs)))
    \<and> (\<forall>ys zs. xs = ys @ e # zs \<longrightarrow> RB_NEXT k (Some e) s = (Ret (if zs = [] then None else Some (hd zs)), s))
    \<and> RB_MIN k s = (Ret (if xs = [] then None else Some (hd xs)), s)
    \<and> RB_MAX k s = (Ret (if xs = [] then None else Some (last xs)), s)"
proof (intro conjI impI allI)
  have k: "enough (length xs) k" "enough (length xs) (Suc k)" using assms(4) by (simp_all add: enough_def)
  show "RB_FIND cmp k e s = (Ret (find (\<lambda>x. key x = key e) xs), s)" by (rule RB_FIND_ok [OF assms(1-3) k(1)])
  show "\<exists>s'. RB_INSERT cmp k e s = (Ret (find (\<lambda>x. key x = key e) xs), s') \<and> rb_list s' (add_key key e xs)"
    if "e \<in> dom (rb_cells s)" using RB_INSERT_ok [OF assms(1-3) k(1) that] by blast
  show "\<exists>s'. RB_REMOVE k e s = (Ret (), s') \<and> rb_list s' (filter (\<lambda>x. x \<noteq> e) xs)" if "e \<in> set xs"
    using RB_REMOVE_ok [OF assms(3) k(1) that] by blast
  show "RB_NEXT k (Some e) s = (Ret (if zs = [] then None else Some (hd zs)), s)" if "xs = ys @ e # zs" for ys zs
    using RB_NEXT_ok [of s ys e zs k] assms(3) k(2) that by simp
  show "RB_MIN k s = (Ret (if xs = [] then None else Some (hd xs)), s)"
    "RB_MAX k s = (Ret (if xs = [] then None else Some (last xs)), s)"
    using RB_MINMAX_ok [OF assms(3) k(1)] by (simp_all add: RB_MIN_def RB_MAX_def RB_NEGINF_def RB_INF_def)
qed

theorem rb_operations_logarithmic_witness:
  "RB_FIND (\<lambda>a b. int a - int b) 4 2 one_two = (Ret (Some 2), one_two)
    \<and> (\<exists>s'. RB_INSERT (\<lambda>a b. int a - int b) 4 2 one_two = (Ret (Some 2), s') \<and> rb_list s' [1, 2])
    \<and> (\<exists>s'. RB_REMOVE 4 2 one_two = (Ret (), s') \<and> rb_list s' [1])
    \<and> RB_NEXT 4 (Some 2) one_two = (Ret None, one_two)
    \<and> RB_MIN 4 one_two = (Ret (Some 1), one_two) \<and> RB_MAX 4 one_two = (Ret (Some 2), one_two)"
proof -
  have "log 2 (real (length [1::nat, 2] + 1)) < log 2 (2 ^ 2)" by (subst log_less_cancel_iff) simp_all
  also have "log 2 (2 ^ 2) = (2::real)" by (subst log_pow_cancel) simp_all
  finally have k: "2 * log 2 (real (length [1::nat, 2] + 1)) < real 4" by simp
  have "2 \<in> dom (rb_cells one_two)" by (simp add: one_two_def)
  note all = rb_operations_logarithmic [OF orders_diff _ one_two_list k, of 2, simplified, unfolded add_key_def, simplified]
  from all this have "RB_NEXT 4 (Some 2) one_two = (Ret (if [] = [] then None else Some (hd [])), one_two)"
    by (elim conjE allE [of _ "[1]"] allE [of _ "[]"]) simp
  with all this show ?thesis by (simp add: domIff one_two_def)
qed

text \<open>
  C18: Inserting elements with different keys into an empty red-black tree and visiting them
  with RB_FOREACH, from RB_MIN along RB_NEXT, gives them in the order of their keys.
\<close>

theorem rb_insert_all_sorts:
  assumes "orders cmp key" "set es \<subseteq> dom (rb_cells s)" "distinct (map key es)" "length es \<le> k"
  shows "\<exists>s'. sseq RB_INIT (sseq (do_all (\<lambda>e. sseq (RB_INSERT cmp (Suc k) e) (sret ())) es)
    (RB_FOREACH (Suc k) (Suc k) (\<lambda>x v. v @ [x]) [])) s = (Ret (sort_key key es), s')"
proof -
  have "rb_set cmp key (rb_put_root None s) []" using assms(1) by (simp add: rb_set_def rb_list_Nil)
  then show ?thesis
    using RB.insert_all_visit [of cmp key "rb_put_root None s" es k "\<lambda>x v. v @ [x]" "[]"] assms(2-4)
    by (auto simp: RB_INIT_def fold_snoc sseq_def [of "smod _"] sbind_def [of "smod _"] prog_eval)
qed

theorem rb_insert_all_sorts_witness:
  "\<exists>s'. sseq RB_INIT (sseq (do_all (\<lambda>e. sseq (RB_INSERT (\<lambda>a b. int a - int b) (Suc 2) e) (sret ())) [2, 1])
    (RB_FOREACH (Suc 2) (Suc 2) (\<lambda>x v. v @ [x]) [])) two_cells = (Ret (sort_key (\<lambda>x. x) [2, 1]), s')"
  by (rule rb_insert_all_sorts [OF orders_diff]) (simp_all add: two_cells_has)

text \<open>
  C16: A client that puts elements in, looks them up and takes out what it finds gets the same
  answers from a red-black tree and from a splay tree: those of a list in the order of the
  keys.
\<close>

theorem rb_agrees_with_splay:
  assumes "orders cmp key" "RB_ROOT s = None" "SPLAY_ROOT h = None" "nd \<notin> dom (sp_cells h)"
    "{e. Put e \<in> set qs} \<subseteq> dom (rb_cells s) \<inter> dom (sp_cells h)" "length qs \<le> k"
  shows "fst (serve (RB_FIND cmp (Suc k)) (\<lambda>e. sseq (RB_INSERT cmp (Suc k) e) (sret ())) (RB_REMOVE (Suc k)) qs s)
      = Ret (list_answers key qs [])
    \<and> fst (serve (SPLAY_FIND cmp nd k) (SPLAY_INSERT cmp nd k) (SPLAY_REMOVE cmp nd k) qs h)
      = Ret (list_answers key qs [])"
proof -
  have s: "rb_set cmp key s []" "splay_set cmp key nd h []"
    using assms(1-4) by (simp_all add: rb_set_def rb_list_Nil splay_set_empty)
  show ?thesis using RB.serve_ok [OF s(1), of qs k] SPLAY.serve_ok [OF s(2), of qs k] assms(5,6) by auto
qed

theorem rb_agrees_with_splay_witness:
  "fst (serve (RB_FIND (\<lambda>a b. int a - int b) (Suc 5)) (\<lambda>e. sseq (RB_INSERT (\<lambda>a b. int a - int b) (Suc 5) e) (sret ()))
      (RB_REMOVE (Suc 5)) [Put 2, Put 1, Take 2, Get 2, Get 1] two_cells) = Ret [None, None, Some 2, None, Some 1]
    \<and> fst (serve (SPLAY_FIND (\<lambda>a b. int a - int b) 9 5) (SPLAY_INSERT (\<lambda>a b. int a - int b) 9 5)
      (SPLAY_REMOVE (\<lambda>a b. int a - int b) 9 5) [Put 2, Put 1, Take 2, Get 2, Get 1] (sp_put_root None two_nodes))
      = Ret [None, None, Some 2, None, Some 1]"
proof -
  have a: "[None, None, Some 2, None, Some 1] = list_answers (\<lambda>x. x) [Put 2, Put 1, Take 2, Get 2, Get 1] []"
    by (simp add: add_key_def drop_key_def)
  show ?thesis unfolding a
  proof (rule rb_agrees_with_splay [OF orders_diff two_cells_empty])
    show "{e. Put e \<in> set [Put 2, Put 1, Take 2, Get 2, Get 1]}
      \<subseteq> dom (rb_cells two_cells) \<inter> dom (sp_cells (sp_put_root None two_nodes))"
      by (auto simp: two_cells_has) (auto simp: two_nodes_def)
  qed (simp_all add: sp_put_root_def two_nodes_def SPLAY_ROOT_def)
qed

end
