(* ===== verification/Spec2Isabelle.thy ===== *)
theory Spec2Isabelle
  imports Service Signals Config Common Rio Rotate ListQueue SimpleQueue TailQueue CircleQueue SplayCost RedBlackSet
begin

text \<open>
  A verification development of a small HTTP server in C, with the containers it carries along.

  \<^bold>\<open>The program.\<close> The server process (src/core/epoll_circle.h, \<open>start\<close>) reads its configuration,
  opens the listening socket, forks ten workers (inc/http_task.h) and waits on epoll. A connection is
  accepted and its descriptor is sent over a socket pair to the worker that the processor pool names
  (inc/sock.h, \<open>Sock_fd_write\<close> and \<open>Sock_fd_read\<close>). A worker receives the descriptor and runs an event
  loop of its own on it (inc/http_io_base.h, inc/http_epoll.h, inc/epoll_inc.h). The handlers of a request
  and the pages they answer are in http_module/http_module.h; a request line is read with the socket
  helpers of that file. The byte loops below them exist in several versions (inc/common.h, inc/sock.h,
  utils/http_io.c, utils/rio_r_w.h). inc/http_ipc.h wraps System V message queues. inc/list.h and
  utils/tree.h are macro libraries: the pool is an SLIST, the other containers are used by nothing.

  \<^bold>\<open>How C is represented\<close> (CBase). A function is a HOL function whose result says how the call ended:
  \<open>Ret\<close>, \<open>Exit\<close> (the process called exit), \<open>Wait\<close> (inside a loop or a blocking call when the prepared
  answers or the fuel are used up) or \<open>Fault\<close> (C's undefined behaviour: an access outside the objects, a counter that leaves its 32 bits).
  A computation with state is a \<open>prog\<close>: it gets the state and returns the result and the state, which is
  kept however the call ends. \<open>int\<close>, \<open>size_t\<close> and \<open>ssize_t\<close> are words where their conversions matter.
  A character array is a list of fixed length. A C structure is a record; a pointer to one is an optional
  address, and the structures live in a map from addresses (\<open>cells\<close>). The address of a pointer field is
  an \<open>lval\<close>. The kernel and the C library are environments: a call takes its answer from a list of prepared
  answers or from a kernel state (Sysio, Epoll, SockNet, Ipc), and every theorem holds for all of them
  unless its hypotheses say more.

  \<^bold>\<open>Theories and sources.\<close>
  \<^item> CBase, Sysio: the prelude; the system calls and their answers. Lval, TreeHeap: the preludes of the
    containers (lists linked through lvalues; trees in a heap, the order of keys).
  \<^item> IoLoops (\<open>Read_s\<close>, \<open>Write_s\<close> of inc/common.h and inc/sock.h), LineReader, HttpIo (utils/http_io.c),
    Rio (utils/rio_r_w.h): the byte loops. HttpWire: \<open>http_send\<close>, \<open>http_rcv\<close> and \<open>readline\<close> of
    http_module.h. Each loop is compared with a reference loop, or its deviation is stated.
  \<^item> HttpRequest: \<open>accept_request\<close>, refined to an abstract router, with the lines that overrun an array.
    HttpResponse: the pages, the two handlers and \<open>http_module_error\<close>.
  \<^item> Slist, ProcPool: the SLIST macros and the processor pool on them, refined to the list of processors.
  \<^item> FdPass: descriptor passing. SockNet: \<open>open_clientfd\<close>, \<open>open_listenfd\<close> and the checked socket calls.
    Epoll: the event loop of a worker. Worker: its loop, and the creation and replacement of workers.
    Server: \<open>start\<close>, and the system of the server and its workers as a step relation. Service: one
    connection from the accept loop to the page on the wire, which is the page of the abstract router's answer, and what a refused connection leaves behind.
  \<^item> Config (utils/utils.h and the configuration file), Common (the remaining checked calls of inc/common.h),
    Ipc (inc/http_ipc.h and the signal handlers), Signals (the dispositions of the server and its workers,
    \<open>Signal\<close> of inc/sock.h, delivery), Rotate (src/rb_tree.c).
  \<^item> ListQueue, SimpleQueue, TailQueue, CircleQueue: the LIST, SIMPLEQ, TAILQ and CIRCLEQ macros of
    inc/list.h. SplayTree, SplaySet: the splay tree of utils/tree.h. SplayCost: its amortised bound.
  \<^item> RedBlack: the red-black tree of utils/tree.h. RedBlackHeap: places in such a tree, rotations.
    RedBlackInsert, RedBlackFind, RedBlackRemove, RedBlackDelete: the operations. RedBlackSet: its properties.

  \<^bold>\<open>Interfaces.\<close> \<open>linked\<close>, \<open>edited\<close> and \<open>fifo\<close> (Lval) are the contracts of the lists: what the state says
  about the list of elements, insertion, removal, visiting; \<open>TAILQ\<close>, \<open>LIST\<close>, \<open>CIRCLEQ\<close> and \<open>SIMPLEQ\<close>
  interpret those they fulfil. \<open>search_tree\<close> (TreeHeap) is the contract of a set kept in the order of its
  keys; \<open>SPLAY\<close> and \<open>RB\<close> interpret it. What a client does with the operations (insert all, then visit; a
  sequence of requests) is proved once inside the locale, so the two trees give the same answers.
  \<open>amortised_tree\<close> (SplayCost) adds the potential and the fee of every operation; \<open>SPLAY_paid\<close> interprets it.

  \<^bold>\<open>What the lemmas show.\<close> For the reader and the pages: bounds of every array, which inputs leave them, and
  the bytes that reach the wire. For the byte loops: equality with a reference loop for every sequence of
  kernel answers. For the pool and the containers: a well-formedness predicate that relates the heap to a
  list or tree, and for every operation that it ends with \<open>Ret\<close>, keeps the predicate and acts on the list as
  its name says. For the splay tree the loop of \<open>SPLAY\<close> is a sequence of the moves \<open>move\<close>; \<open>psplay\<close> is the
  functional top-down splay, which the heap implements; it keeps the order whatever the comparison answers,
  and with a comparison that orders the keys (\<open>orders\<close>, the documented contract of \<open>cmp\<close>) the root parts
  the smaller from the larger elements. \<open>turns\<close> counts the turns of the loop; the potential \<open>pot\<close> (the sum of
  the logarithms of the sizes of all subtrees) pays for what exceeds 3 lg(n+1). For the red-black tree \<open>zip_at\<close> says that a subtree and its context
  are in the heap, parent pointers included; the loops move the place up, and \<open>ins_inv\<close> and \<open>rem_inv\<close> say
  which colour rule is still broken there: the new node is red below a red one, or the place has one black
  node too few. What an operation leaves is \<open>rb_list\<close>: a tree with a black root, no red node below a red one
  and as many black nodes on every path. For the server: reachability invariants, and which of its loops are
  never left; what the signals do to its processes. For the event loop: \<open>close\<close> takes a descriptor out of the
  interest list only when nobody else holds the connection (\<open>shared\<close>), and the server always does, so a
  registration that is not deleted before becomes \<open>stale\<close>; \<open>keeps_stale\<close> says that it stays.

  \<^bold>\<open>Fuel and bounds.\<close> Loops over prepared answers recurse on the list of answers and end with \<open>Wait\<close>; loops
  over memory are primitive recursive on what they consume. Loops over a heap take fuel \<open>k\<close>: the length of
  the list (\<open>FOREACH\<close> macros), the number of nodes (\<open>SPLAY\<close>, \<open>SPLAY_NEXT\<close>). The theorems assume no more
  than that and conclude \<open>Ret\<close>, so this fuel is enough: a turn of the loop of \<open>SPLAY\<close> leaves a smaller tree
  below the root. A sequence of m requests to a splay tree needs 8 m lg(n+1) in all. The loops of the red-black tree take
  \<open>enough\<close> fuel: more than the number of nodes, or more than 2 lg(n+1), which bounds the height.

  \<^bold>\<open>Not modelled.\<close> Printing and logging. What is left of a message that is longer than the array
  \<open>Sock_fd_read\<close> gets (all messages of the program are as long as the array). The kernel-only QUEUEDEBUG checks of inc/list.h, which expand to
  nothing in this program. \<open>RB_AUGMENT\<close> of utils/tree.h, a hook of the user that is empty in this program;
  the walk to the root that calls it is modelled. http_module.c and http_module_error.c, which do not
  compile: an older copy of functions of http_module.h. The test programs and build exercises.
\<close>

end
